(* ===== verification/Hayai_Prelude.thy ===== *)
theory Hayai_Prelude
  imports Main "HOL-Library.Word"
begin

text \<open>
  Shared vocabulary of the development: the ways an operation of the library can fail, a
  result type with its sequencing operator, \<^verbatim>\<open>size_t\<close> arithmetic with its wrap-around,
  bounds-checked reads and writes of a contiguous block of memory, and a generic notion of
  reachable states with the invariant rule every state machine below uses.
\<close>

section \<open>Collections of facts\<close>

named_theorems size_simps \<open>arithmetic of the wrapped 64-bit operations below the wrap\<close>
named_theorems res_simps \<open>sequencing of fallible operations\<close>
named_theorems mem_simps \<open>bounds-checked memory accesses in range\<close>

section \<open>Faults and results\<close>

text \<open>
  \<^item> \<open>OutOfBounds\<close>: an access outside the storage of a \<^verbatim>\<open>std::vector\<close> (undefined behaviour);
  \<^item> \<open>AssertFailed\<close>: a failed \<^verbatim>\<open>assert\<close> of a build without \<^verbatim>\<open>NDEBUG\<close>;
  \<^item> \<open>Aborted\<close>: a call of \<^verbatim>\<open>abort()\<close> or \<^verbatim>\<open>std::terminate()\<close>;
  \<^item> \<open>NullDeref\<close>: a dereferenced null pointer;
  \<^item> \<open>BadFunctionCall\<close>: a call of an empty \<^verbatim>\<open>std::function\<close>;
  \<^item> \<open>LengthError\<close>: a \<^verbatim>\<open>std::vector\<close> asked for more than \<^verbatim>\<open>max_size()\<close> elements;
  \<^item> \<open>SystemError errno what\<close> and \<open>RuntimeError what\<close>: the exceptions of those names;
  \<^item> \<open>UseAfterFree\<close>: an access to, or a second destruction of, a destroyed object;
  \<^item> \<open>SignedOverflow\<close>: an \<^verbatim>\<open>int\<close> increment past its maximum (undefined behaviour);
  \<^item> \<open>ResumeDone\<close>: a coroutine resumed at its final suspension point (undefined behaviour);
  \<^item> \<open>Diverges\<close>: a call that does not return.
\<close>

datatype fault =
    OutOfBounds
  | AssertFailed
  | Aborted
  | NullDeref
  | BadFunctionCall
  | LengthError
  | SystemError int string
  | RuntimeError string
  | UseAfterFree
  | SignedOverflow
  | ResumeDone
  | Diverges

type_synonym 'a res = "fault + 'a"

definition bind_res :: "'a res \<Rightarrow> ('a \<Rightarrow> 'b res) \<Rightarrow> 'b res" where
  "bind_res m f = (case m of Inl e \<Rightarrow> Inl e | Inr x \<Rightarrow> f x)"

definition check :: "bool \<Rightarrow> fault \<Rightarrow> unit res" where
  "check P e = (if P then Inr () else Inl e)"

lemma bind_res_Inl [simp]: "bind_res (Inl e) f = Inl e"
  by (simp add: bind_res_def)

lemma bind_res_Inr [simp]: "bind_res (Inr x) f = f x"
  by (simp add: bind_res_def)

lemma bind_res_return [simp]: "bind_res m Inr = m"
  by (cases m) simp_all

lemma bind_res_cong:
  "m = m' \<Longrightarrow> (\<And>x. m' = Inr x \<Longrightarrow> f x = g x) \<Longrightarrow> bind_res m f = bind_res m' g"
  by (cases m') simp_all

lemma bind_res_assoc: "bind_res (bind_res m f) g = bind_res m (\<lambda>x. bind_res (f x) g)"
  by (cases m) simp_all

lemma bind_res_eq_Inr [res_simps]:
  "bind_res m f = Inr y \<longleftrightarrow> (\<exists>x. m = Inr x \<and> f x = Inr y)"
  by (cases m) simp_all

lemma bind_res_InrE:
  assumes "bind_res m f = Inr y"
  obtains x where "m = Inr x" and "f x = Inr y"
  using assms by (auto simp: bind_res_eq_Inr)

lemma check_True [simp]: "P \<Longrightarrow> check P e = Inr ()"
  by (simp add: check_def)

lemma check_False [simp]: "\<not> P \<Longrightarrow> check P e = Inl e"
  by (simp add: check_def)

lemma check_eq_Inr [res_simps]: "check P e = Inr u \<longleftrightarrow> P"
  by (simp add: check_def)

section \<open>Arithmetic of \<^verbatim>\<open>size_t\<close>\<close>

text \<open>
  \<^verbatim>\<open>size_t\<close> has 64 bits; its values are naturals below \<open>2 ^ 64\<close> and its operations wrap.
  \<open>vec_max\<close> is \<^verbatim>\<open>std::vector<char>::max_size()\<close>, the largest \<^verbatim>\<open>ptrdiff_t\<close>.
\<close>

abbreviation size_mod :: nat where
  "size_mod \<equiv> 18446744073709551616"

abbreviation vec_max :: nat where
  "vec_max \<equiv> 9223372036854775807"

lemma size_mod_power: "size_mod = 2 ^ 64"
  by simp

definition size_add :: "nat \<Rightarrow> nat \<Rightarrow> nat" where
  "size_add a b = (a + b) mod size_mod"

definition size_sub :: "nat \<Rightarrow> nat \<Rightarrow> nat" where
  "size_sub a b = (a + (size_mod - b mod size_mod)) mod size_mod"

lemma size_add_small [size_simps]: "a + b < size_mod \<Longrightarrow> size_add a b = a + b"
  by (simp add: size_add_def)

lemma size_sub_small [size_simps]:
  assumes "b \<le> a" and "a < size_mod"
  shows "size_sub a b = a - b"
proof -
  have "size_sub a b = (a + (size_mod - b)) mod size_mod"
    using assms by (simp add: size_sub_def)
  also have "a + (size_mod - b) = (a - b) + size_mod"
    using assms by linarith
  also have "((a - b) + size_mod) mod size_mod = a - b"
    using assms by (simp only: mod_add_self2) simp
  finally show ?thesis .
qed

lemma size_sub_wraps:
  assumes "a < b" and "b < size_mod"
  shows "size_sub a b = size_mod - (b - a)"
  using assms by (simp add: size_sub_def)

lemma size_add_bound: "size_add a b < size_mod"
  by (simp add: size_add_def)

lemma size_sub_bound: "size_sub a b < size_mod"
  by (simp add: size_sub_def)

section \<open>Blocks of memory\<close>

text \<open>
  A \<^verbatim>\<open>std::vector<char>\<close> is the list of its bytes. \<open>vec_write\<close> is a \<^verbatim>\<open>std::copy\<close> from another
  object into it, \<open>vec_read\<close> the bytes of a range of it and \<open>vec_resize\<close> its \<^verbatim>\<open>resize\<close>,
  which zero-fills. An empty range touches no memory.
\<close>

definition vec_write :: "'a list \<Rightarrow> nat \<Rightarrow> 'a list \<Rightarrow> 'a list res" where
  "vec_write xs i d =
     (if d = [] then Inr xs
      else if i + length d \<le> length xs
      then Inr (take i xs @ d @ drop (i + length d) xs)
      else Inl OutOfBounds)"

definition vec_read :: "'a list \<Rightarrow> nat \<Rightarrow> nat \<Rightarrow> 'a list res" where
  "vec_read xs i n =
     (if n = 0 then Inr []
      else if i + n \<le> length xs then Inr (take n (drop i xs))
      else Inl OutOfBounds)"

definition vec_resize :: "'a \<Rightarrow> 'a list \<Rightarrow> nat \<Rightarrow> 'a list res" where
  "vec_resize z xs n =
     (if n \<le> vec_max then Inr (take n xs @ replicate (n - length xs) z)
      else Inl LengthError)"

text \<open>
  \<^verbatim>\<open>std::copy\<close> within one array: the elements are moved one at a time, lowest index first.
\<close>

primrec copy_within :: "'a list \<Rightarrow> nat \<Rightarrow> nat \<Rightarrow> nat \<Rightarrow> 'a list" where
  "copy_within xs src dst 0 = xs"
| "copy_within xs src dst (Suc n) = copy_within (xs[dst := xs ! src]) (Suc src) (Suc dst) n"

lemma length_copy_within [simp]: "length (copy_within xs src dst n) = length xs"
  by (induction n arbitrary: xs src dst) simp_all

lemma vec_write_ok [mem_simps]:
  "i + length d \<le> length xs \<Longrightarrow> vec_write xs i d = Inr (take i xs @ d @ drop (i + length d) xs)"
  by (simp add: vec_write_def)

lemma vec_read_ok [mem_simps]: "i + n \<le> length xs \<Longrightarrow> vec_read xs i n = Inr (take n (drop i xs))"
  by (simp add: vec_read_def)

lemma vec_resize_ok [mem_simps]:
  "n \<le> vec_max \<Longrightarrow> vec_resize z xs n = Inr (take n xs @ replicate (n - length xs) z)"
  by (simp add: vec_resize_def)

lemma length_vec_write: "vec_write xs i d = Inr ys \<Longrightarrow> length ys = length xs"
  by (auto simp: vec_write_def split: if_splits)

lemma drop_take_write:
  assumes "r \<le> w" and "w + length d \<le> length xs"
  shows "take (w + length d - r) (drop r (take w xs @ d @ drop (w + length d) xs))
       = take (w - r) (drop r xs) @ d"
proof -
  have "drop r (take w xs @ d @ drop (w + length d) xs)
      = take (w - r) (drop r xs) @ d @ drop (w + length d) xs"
    using assms by (simp add: drop_take)
  moreover have "length (take (w - r) (drop r xs)) = w - r"
    using assms by simp
  moreover have "w + length d - r = (w - r) + length d"
    using assms by simp
  ultimately show ?thesis by (simp add: add.commute)
qed

text \<open>
  Copying towards the front is safe although the ranges overlap: the loop gives the block that a
  copy through a temporary would give.
\<close>

lemma copy_within_block:
  assumes "dst \<le> src" and "src + n \<le> length xs"
  shows "copy_within xs src dst n = take dst xs @ take n (drop src xs) @ drop (dst + n) xs"
  using assms
proof (induction n arbitrary: xs src dst)
  case 0
  then show ?case by simp
next
  case (Suc n)
  let ?ys = "xs[dst := xs ! src]"
  have lt: "src < length xs" "dst < length xs" using Suc.prems by simp_all
  have "copy_within ?ys (Suc src) (Suc dst) n
      = take (Suc dst) ?ys @ take n (drop (Suc src) ?ys) @ drop (Suc dst + n) ?ys"
    using Suc.prems by (intro Suc.IH) simp_all
  also have "take (Suc dst) ?ys = take dst xs @ [xs ! src]"
    using lt by (simp add: take_Suc_conv_app_nth)
  also have "drop (Suc src) ?ys = drop (Suc src) xs"
    using Suc.prems by simp
  also have "drop (Suc dst + n) ?ys = drop (dst + Suc n) xs"
    by simp
  finally show ?case
    using lt by (simp flip: Cons_nth_drop_Suc)
qed

section \<open>Reachable states\<close>

text \<open>
  A state machine is a predicate on initial states and a step relation; every machine of the
  development (connections, loops, servers) interprets \<open>invariant_machine\<close> with its own.
\<close>

inductive reachable :: "('s \<Rightarrow> bool) \<Rightarrow> ('s \<Rightarrow> 's \<Rightarrow> bool) \<Rightarrow> 's \<Rightarrow> bool"
  for start step where
  reachable_start: "start s \<Longrightarrow> reachable start step s"
| reachable_step: "reachable start step s \<Longrightarrow> step s t \<Longrightarrow> reachable start step t"

locale invariant_machine =
  fixes start :: "'s \<Rightarrow> bool"
    and step :: "'s \<Rightarrow> 's \<Rightarrow> bool"
    and inv :: "'s \<Rightarrow> bool"
  assumes start_inv: "start s \<Longrightarrow> inv s"
    and step_inv: "inv s \<Longrightarrow> step s t \<Longrightarrow> inv t"
begin

lemma reachable_inv: "reachable start step s \<Longrightarrow> inv s"
  by (induction rule: reachable.induct) (blast intro: start_inv step_inv)+

lemma steps_inv: "step\<^sup>*\<^sup>* s t \<Longrightarrow> inv s \<Longrightarrow> inv t"
  by (induction rule: rtranclp_induct) (blast intro: step_inv)+

end

lemma reachable_steps: "reachable start step s \<Longrightarrow> step\<^sup>*\<^sup>* s t \<Longrightarrow> reachable start step t"
  by (rotate_tac, induction rule: rtranclp_induct) (blast intro: reachable_step)+

section \<open>Decimal numerals\<close>

text \<open>Decimal output of an unsigned number, as \<^verbatim>\<open>std::format\<close> and \<^verbatim>\<open>operator<<\<close> print it.\<close>

definition digit_char :: "nat \<Rightarrow> char" where
  "digit_char d = char_of (48 + d)"

fun dec :: "nat \<Rightarrow> string" where
  "dec n = (if n < 10 then [digit_char n] else dec (n div 10) @ [digit_char (n mod 10)])"

declare dec.simps [simp del]

fun undec :: "nat \<Rightarrow> string \<Rightarrow> nat" where
  "undec acc [] = acc"
| "undec acc (c # cs) = undec (10 * acc + (of_char c - 48)) cs"

lemma of_digit_char [simp]: "d < 10 \<Longrightarrow> (of_char (digit_char d) :: nat) = 48 + d"
  by (simp add: digit_char_def)

lemma undec_append: "undec acc (xs @ ys) = undec (undec acc xs) ys"
  by (induction xs arbitrary: acc) simp_all

lemma undec_dec: "undec 0 (dec n) = n"
proof (induction n rule: dec.induct)
  case (1 n)
  show ?case
  proof (cases "n < 10")
    case True
    then show ?thesis by (simp add: dec.simps [of n])
  next
    case False
    with 1 show ?thesis by (simp add: dec.simps [of n] undec_append)
  qed
qed

lemma dec_inject [simp]: "dec m = dec n \<longleftrightarrow> m = n"
  by (metis undec_dec)

lemma dec_digits: "c \<in> set (dec n) \<Longrightarrow> 48 \<le> (of_char c :: nat) \<and> (of_char c :: nat) < 58"
proof (induction n rule: dec.induct)
  case (1 n)
  then show ?case by (cases "n < 10") (auto simp: dec.simps [of n])
qed

end
