(* ===== verification/Mailbox.thy ===== *)
theory Mailbox
  imports Hayai_Prelude
begin

text \<open>
  The bridge between callbacks and coroutines that \<^verbatim>\<open>AsyncConnection\<close> and \<^verbatim>\<open>AsyncServer\<close> both build: a
  callback delivers items and wakes a parked coroutine, a coroutine takes items or parks. The contract
  is a locale; the machine interleaves deliveries with one coroutine that takes, with its test, its
  suspension and its resumption as separate steps.
\<close>

section \<open>One consumer and any number of deliveries\<close>

text \<open>The consumer is outside an await, between its failed test and its suspension, or suspended.\<close>

datatype phase = NotWaiting | Checked nat | Parked nat

record ('s, 'a) mbox =
  box :: 's
  phase :: phase
  produced :: "'a list"
  consumed :: "'a list"

inductive mbox_step :: "('s \<Rightarrow> 'a list) \<Rightarrow> ('s \<Rightarrow> nat list) \<Rightarrow> ('d \<Rightarrow> 'a list) \<Rightarrow> ('d \<Rightarrow> 's \<Rightarrow> 's res) \<Rightarrow>
    (nat \<Rightarrow> 's \<Rightarrow> 's res) \<Rightarrow> ('s \<Rightarrow> ('a list \<times> 's) res) \<Rightarrow> ('s \<Rightarrow> 's) \<Rightarrow> ('s, 'a) mbox \<Rightarrow> ('s, 'a) mbox \<Rightarrow> bool"
  for items wakeups payload deliver suspend grab pop where
  mb_deliver: "payload d \<noteq> [] \<Longrightarrow> deliver d (box m) = Inr s \<Longrightarrow>
    mbox_step items wakeups payload deliver suspend grab pop m (m\<lparr>box := s, produced := produced m @ payload d\<rparr>)"
| mb_ready: "phase m = NotWaiting \<Longrightarrow> items (box m) \<noteq> [] \<Longrightarrow> grab (box m) = Inr (xs, s) \<Longrightarrow>
    mbox_step items wakeups payload deliver suspend grab pop m (m\<lparr>box := s, consumed := consumed m @ xs\<rparr>)"
| mb_check: "phase m = NotWaiting \<Longrightarrow> items (box m) = [] \<Longrightarrow>
    mbox_step items wakeups payload deliver suspend grab pop m (m\<lparr>phase := Checked h\<rparr>)"
| mb_suspend: "phase m = Checked h \<Longrightarrow> suspend h (box m) = Inr s \<Longrightarrow>
    mbox_step items wakeups payload deliver suspend grab pop m (m\<lparr>box := s, phase := Parked h\<rparr>)"
| mb_resume: "phase m = Parked h \<Longrightarrow> wakeups (box m) = h # hs \<Longrightarrow> grab (pop (box m)) = Inr (xs, s) \<Longrightarrow>
    mbox_step items wakeups payload deliver suspend grab pop m
      (m\<lparr>box := s, phase := NotWaiting, consumed := consumed m @ xs\<rparr>)"

definition mbox_start :: "('s \<Rightarrow> bool) \<Rightarrow> ('s \<Rightarrow> 'a list) \<Rightarrow> ('s \<Rightarrow> nat option) \<Rightarrow> ('s \<Rightarrow> nat list) \<Rightarrow> ('s, 'a) mbox \<Rightarrow> bool" where
  "mbox_start good items waiter wakeups m \<longleftrightarrow> good (box m) \<and> items (box m) = [] \<and> waiter (box m) = None \<and> wakeups (box m) = [] \<and>
     phase m = NotWaiting \<and> produced m = [] \<and> consumed m = []"

text \<open>
  A parked consumer has its handle stored and nothing to take, or its resumption is queued and there
  is something to take; and what was taken, followed by what is there, is what was delivered.
\<close>

definition mbox_inv :: "('s \<Rightarrow> bool) \<Rightarrow> ('s \<Rightarrow> 'a list) \<Rightarrow> ('s \<Rightarrow> nat option) \<Rightarrow> ('s \<Rightarrow> nat list) \<Rightarrow> ('s, 'a) mbox \<Rightarrow> bool" where
  "mbox_inv good items waiter wakeups m \<longleftrightarrow> good (box m) \<and> consumed m @ items (box m) = produced m \<and>
     (case phase m of
        Parked h \<Rightarrow> waiter (box m) = Some h \<and> wakeups (box m) = [] \<and> items (box m) = []
                    \<or> waiter (box m) = None \<and> wakeups (box m) = [h] \<and> items (box m) \<noteq> []
      | _ \<Rightarrow> waiter (box m) = None \<and> wakeups (box m) = [])"

section \<open>The contract\<close>

locale mailbox =
  fixes good :: "'s \<Rightarrow> bool"
    and items :: "'s \<Rightarrow> 'a list"
    and waiter :: "'s \<Rightarrow> nat option"
    and wakeups :: "'s \<Rightarrow> nat list"
    and payload :: "'d \<Rightarrow> 'a list"
    and deliver :: "'d \<Rightarrow> 's \<Rightarrow> 's res"
    and suspend :: "nat \<Rightarrow> 's \<Rightarrow> 's res"
    and grab :: "'s \<Rightarrow> ('a list \<times> 's) res"
    and pop :: "'s \<Rightarrow> 's"
  assumes deliver_law: "good s \<Longrightarrow> deliver d s = Inr s' \<Longrightarrow>
      good s' \<and> items s' = items s @ payload d \<and> waiter s' = None
      \<and> wakeups s' = wakeups s @ (case waiter s of None \<Rightarrow> [] | Some h \<Rightarrow> [h])"
    and suspend_law: "good s \<Longrightarrow> suspend h s = Inr s' \<Longrightarrow>
      good s' \<and> items s' = items s \<and>
      (if items s = [] then waiter s' = Some h \<and> wakeups s' = wakeups s
       else waiter s' = waiter s \<and> wakeups s' = wakeups s @ [h])"
    and grab_law: "good s \<Longrightarrow> items s \<noteq> [] \<Longrightarrow>
      \<exists>xs s'. grab s = Inr (xs, s') \<and> xs \<noteq> [] \<and> items s = xs @ items s' \<and> good s' \<and> waiter s' = waiter s \<and> wakeups s' = wakeups s"
    and pop_law: "good s \<Longrightarrow> good (pop s) \<and> items (pop s) = items s \<and> waiter (pop s) = waiter s \<and> wakeups (pop s) = tl (wakeups s)"
begin

lemma grabbed:
  assumes "good s" and "items s \<noteq> []" and "grab s = Inr (xs, s')"
  shows "xs \<noteq> []" "items s = xs @ items s'" "good s'" "waiter s' = waiter s" "wakeups s' = wakeups s"
  using grab_law [OF assms(1,2)] assms(3) by auto

lemma start_has: "mbox_start good items waiter wakeups m \<Longrightarrow> mbox_inv good items waiter wakeups m"
  by (simp add: mbox_start_def mbox_inv_def)

lemma step_keeps:
  assumes "mbox_step items wakeups payload deliver suspend grab pop m m'" and "mbox_inv good items waiter wakeups m"
  shows "mbox_inv good items waiter wakeups m'"
  using assms
proof (induction rule: mbox_step.induct)
  case (mb_deliver d m s)
  then show ?case
    using deliver_law [of "box m" d s] by (auto simp: mbox_inv_def split: phase.splits)
next
  case (mb_ready m xs s)
  then show ?case
    using grabbed [of "box m" xs s] by (auto simp: mbox_inv_def)
next
  case (mb_check m h)
  then show ?case by (simp add: mbox_inv_def)
next
  case (mb_suspend m h s)
  then show ?case
    using suspend_law [of "box m" h s] by (auto simp: mbox_inv_def split: if_splits)
next
  case (mb_resume m h hs xs s)
  then have "good (box m)" "items (box m) \<noteq> []" "waiter (box m) = None" "hs = []"
    by (auto simp: mbox_inv_def)
  then show ?case
    using mb_resume grabbed [of "pop (box m)" xs s] pop_law [of "box m"] by (simp add: mbox_inv_def)
qed

end

sublocale mailbox \<subseteq> mb: invariant_machine "mbox_start good items waiter wakeups"
    "mbox_step items wakeups payload deliver suspend grab pop" "mbox_inv good items waiter wakeups"
  by unfold_locales (blast intro: start_has step_keeps)+

text \<open>What a client of the contract gets.\<close>

context mailbox
begin

lemma delivered_in_order:
  assumes "reachable (mbox_start good items waiter wakeups) (mbox_step items wakeups payload deliver suspend grab pop) m"
  shows "consumed m @ items (box m) = produced m"
  using mb.reachable_inv [OF assms] by (simp add: mbox_inv_def)

lemma never_stuck_with_items:
  assumes "reachable (mbox_start good items waiter wakeups) (mbox_step items wakeups payload deliver suspend grab pop) m"
    and "phase m = Parked h"
  shows "if items (box m) = [] then waiter (box m) = Some h \<and> wakeups (box m) = []
         else wakeups (box m) = [h] \<and> (\<exists>xs s. grab (pop (box m)) = Inr (xs, s) \<and> xs \<noteq> [])"
proof -
  have inv: "mbox_inv good items waiter wakeups m"
    by (rule mb.reachable_inv [OF assms(1)])
  then have "good (box m)" by (simp add: mbox_inv_def)
  with inv assms(2) show ?thesis
    using pop_law [of "box m"] grab_law [of "pop (box m)"] by (auto simp: mbox_inv_def)
qed

end

end
