(* ===== verification/Buffer.thy ===== *)
theory Buffer
  imports Hayai_Prelude
begin

text \<open>
  The growable byte buffer of \<^verbatim>\<open>include/hayai/utils/Buffer.h\<close> and \<^verbatim>\<open>src/utils/Buffer.cc\<close>: its
  three fields, every member function with the bounds of the underlying vector checked, the
  representation invariant, the abstraction to the byte string it holds, and the exact
  conditions under which writing stays inside the storage.
\<close>

section \<open>State and operations\<close>

record buffer =
  buf_data :: "char list"
  readerIndex :: nat
  writerIndex :: nat

definition kInitialSize :: nat where
  "kInitialSize = 1024"

definition kCheapPrepend :: nat where
  "kCheapPrepend = 8"

abbreviation nul :: char where
  "nul \<equiv> CHR 0x00"

definition Buffer_ctor :: "nat \<Rightarrow> buffer res" where
  "Buffer_ctor initialSize =
     bind_res (vec_resize nul [] (size_add kCheapPrepend initialSize))
       (\<lambda>v. Inr \<lparr>buf_data = v, readerIndex = kCheapPrepend, writerIndex = kCheapPrepend\<rparr>)"

definition Buffer_default :: buffer where
  "Buffer_default =
     \<lparr>buf_data = replicate (kCheapPrepend + kInitialSize) nul,
      readerIndex = kCheapPrepend, writerIndex = kCheapPrepend\<rparr>"

definition readableBytes :: "buffer \<Rightarrow> nat" where
  "readableBytes b = size_sub (writerIndex b) (readerIndex b)"

definition writableBytes :: "buffer \<Rightarrow> nat" where
  "writableBytes b = size_sub (length (buf_data b)) (readerIndex b)"

definition prependableBytes :: "buffer \<Rightarrow> nat" where
  "prependableBytes b = readerIndex b"

text \<open>
  \<open>peek\<close> returns a pointer whose readers use the next \<open>n\<close> bytes; the model gives those bytes.
\<close>

definition peek :: "buffer \<Rightarrow> nat \<Rightarrow> char list res" where
  "peek b n = vec_read (buf_data b) (readerIndex b) n"

text \<open>\<^verbatim>\<open>std::search\<close>: the offset of the first occurrence of a pattern.\<close>

fun search :: "'a list \<Rightarrow> 'a list \<Rightarrow> nat option" where
  "search pat [] = (if pat = [] then Some 0 else None)"
| "search pat (x # xs) =
     (if take (length pat) (x # xs) = pat then Some 0
      else map_option Suc (search pat xs))"

definition kCRLF :: string where
  "kCRLF = [CHR 0x0D, CHR 0x0A]"

text \<open>The returned pointer as an index into the storage; \<open>None\<close> is the null pointer.\<close>

definition findCRLF :: "buffer \<Rightarrow> nat option res" where
  "findCRLF b =
     bind_res (peek b (readableBytes b))
       (\<lambda>bytes. Inr (map_option ((+) (readerIndex b)) (search kCRLF bytes)))"

definition retrieveAll :: "buffer \<Rightarrow> buffer" where
  "retrieveAll b = b\<lparr>readerIndex := kCheapPrepend, writerIndex := kCheapPrepend\<rparr>"

definition retrieve :: "buffer \<Rightarrow> nat \<Rightarrow> buffer res" where
  "retrieve b len =
     bind_res (check (len \<le> readableBytes b) AssertFailed)
       (\<lambda>_. Inr (if len < readableBytes b
                 then b\<lparr>readerIndex := size_add (readerIndex b) len\<rparr>
                 else retrieveAll b))"

definition retrieveAllAsString :: "buffer \<Rightarrow> (string \<times> buffer) res" where
  "retrieveAllAsString b =
     bind_res (vec_read (buf_data b) (readerIndex b) (readableBytes b))
       (\<lambda>result. Inr (result, retrieveAll b))"

definition retrieveAsString :: "buffer \<Rightarrow> nat \<Rightarrow> (string \<times> buffer) res" where
  "retrieveAsString b len =
     bind_res (check (len \<le> readableBytes b) AssertFailed)
       (\<lambda>_. bind_res (vec_read (buf_data b) (readerIndex b) len)
         (\<lambda>result. bind_res (retrieve b len) (\<lambda>b'. Inr (result, b'))))"

definition makeSpace :: "buffer \<Rightarrow> nat \<Rightarrow> buffer res" where
  "makeSpace b len =
     (if size_add (writableBytes b) (prependableBytes b) < size_add len kCheapPrepend
      then bind_res (vec_resize nul (buf_data b) (size_add (writerIndex b) len))
             (\<lambda>v. Inr (b\<lparr>buf_data := v\<rparr>))
      else let readable = readableBytes b in
        bind_res (check (readerIndex b \<le> writerIndex b \<and> writerIndex b \<le> length (buf_data b)) OutOfBounds)
          (\<lambda>_. Inr (b\<lparr>buf_data := copy_within (buf_data b) (readerIndex b) kCheapPrepend
                                   (writerIndex b - readerIndex b),
                      readerIndex := kCheapPrepend,
                      writerIndex := size_add kCheapPrepend readable\<rparr>)))"

definition ensureWritableBytes :: "buffer \<Rightarrow> nat \<Rightarrow> buffer res" where
  "ensureWritableBytes b len = (if writableBytes b < len then makeSpace b len else Inr b)"

definition append :: "buffer \<Rightarrow> char list \<Rightarrow> buffer res" where
  "append b data =
     bind_res (ensureWritableBytes b (length data))
       (\<lambda>b1. bind_res (vec_write (buf_data b1) (writerIndex b1) data)
         (\<lambda>v. Inr (b1\<lparr>buf_data := v, writerIndex := size_add (writerIndex b1) (length data)\<rparr>)))"

definition swap :: "buffer \<Rightarrow> buffer \<Rightarrow> buffer \<times> buffer" where
  "swap a b =
     (a\<lparr>buf_data := buf_data b, readerIndex := readerIndex b, writerIndex := writerIndex b\<rparr>,
      b\<lparr>buf_data := buf_data a, readerIndex := readerIndex a, writerIndex := writerIndex a\<rparr>)"

definition shrink :: "buffer \<Rightarrow> nat \<Rightarrow> buffer res" where
  "shrink b reserve =
     bind_res (ensureWritableBytes Buffer_default (size_add (readableBytes b) reserve))
       (\<lambda>other. bind_res (peek b (readableBytes b))
         (\<lambda>bytes. bind_res (append other bytes)
           (\<lambda>other'. Inr (fst (swap b other')))))"

text \<open>
  The implicit move operations: the vector is emptied, the two indices are copied and stay in
  the source.
\<close>

definition Buffer_move :: "buffer \<Rightarrow> buffer \<times> buffer" where
  "Buffer_move b = (b, b\<lparr>buf_data := []\<rparr>)"

text \<open>
  \<^verbatim>\<open>readv\<close> is the kernel's: given the lengths of the two (or one) areas it yields an error number
  or the bytes it delivers, which it stores into the areas in order. The first area is claimed
  to be \<open>writableBytes b\<close> long and starts at \<open>writerIndex b\<close>.
\<close>

type_synonym readv_result = "int + char list"

definition extrabuf_size :: nat where
  "extrabuf_size = 65536"

definition readFd :: "(nat list \<Rightarrow> readv_result) \<Rightarrow> buffer \<Rightarrow> int \<Rightarrow> (int \<times> int \<times> buffer) res" where
  "readFd readv b savedErrno =
     (let writable = writableBytes b;
          lens = (if writable < extrabuf_size then [writable, extrabuf_size] else [writable])
      in case readv lens of
           Inl errno \<Rightarrow> Inr (-1, errno, b)
         | Inr bytes \<Rightarrow>
             bind_res (vec_write (buf_data b) (writerIndex b) (take writable bytes))
               (\<lambda>v. let b1 = b\<lparr>buf_data := v\<rparr>; n = length bytes in
                 if n \<le> writable
                 then Inr (int n, savedErrno, b1\<lparr>writerIndex := size_add (writerIndex b1) n\<rparr>)
                 else bind_res (append (b1\<lparr>writerIndex := length (buf_data b1)\<rparr>) (drop writable bytes))
                        (\<lambda>b2. Inr (int n, savedErrno, b2))))"

text \<open>What \<^verbatim>\<open>readv(2)\<close> documents: it never delivers more than the areas hold.\<close>

definition readv_documented :: "(nat list \<Rightarrow> readv_result) \<Rightarrow> bool" where
  "readv_documented readv \<longleftrightarrow> (\<forall>lens bytes. readv lens = Inr bytes \<longrightarrow> length bytes \<le> sum_list lens)"

section \<open>Invariant and abstraction\<close>

definition buf_inv :: "buffer \<Rightarrow> bool" where
  "buf_inv b \<longleftrightarrow>
     kCheapPrepend \<le> readerIndex b \<and> readerIndex b \<le> writerIndex b \<and>
     writerIndex b \<le> length (buf_data b) \<and> length (buf_data b) \<le> vec_max"

definition content :: "buffer \<Rightarrow> char list" where
  "content b = take (writerIndex b - readerIndex b) (drop (readerIndex b) (buf_data b))"

text \<open>
  The condition under which \<open>append\<close> of \<open>n\<close> bytes stays inside the storage: the three cases are
  the three ways through \<open>ensureWritableBytes\<close> (nothing to do, grow, compact).
\<close>

definition append_room :: "buffer \<Rightarrow> nat \<Rightarrow> bool" where
  "append_room b n \<longleftrightarrow>
     (let s = length (buf_data b); r = readerIndex b; w = writerIndex b in
      if n \<le> s - r then w + n \<le> s
      else if s < n + kCheapPrepend then w + n \<le> vec_max
      else kCheapPrepend + (w - r) + n \<le> s)"

section \<open>Sizes\<close>

lemma buf_invD:
  assumes "buf_inv b"
  shows "kCheapPrepend \<le> readerIndex b" "readerIndex b \<le> writerIndex b"
    "writerIndex b \<le> length (buf_data b)" "length (buf_data b) \<le> vec_max"
  using assms by (simp_all add: buf_inv_def)

lemma readableBytes_inv: "buf_inv b \<Longrightarrow> readableBytes b = writerIndex b - readerIndex b"
  by (simp add: readableBytes_def buf_inv_def size_simps)

lemma writableBytes_inv: "buf_inv b \<Longrightarrow> writableBytes b = length (buf_data b) - readerIndex b"
  by (simp add: writableBytes_def buf_inv_def size_simps)

lemma length_content: "buf_inv b \<Longrightarrow> length (content b) = writerIndex b - readerIndex b"
  by (auto simp: content_def buf_inv_def)

lemma readableBytes_content: "buf_inv b \<Longrightarrow> readableBytes b = length (content b)"
  by (simp add: readableBytes_inv length_content)

lemma content_Nil_iff: "buf_inv b \<Longrightarrow> content b = [] \<longleftrightarrow> readerIndex b = writerIndex b"
  using length_content [of b] by (auto simp: buf_inv_def simp flip: length_0_conv)

lemma readableBytes_0_iff: "buf_inv b \<Longrightarrow> readableBytes b = 0 \<longleftrightarrow> content b = []"
  by (simp add: readableBytes_content)

lemma Buffer_default_inv [simp]: "buf_inv Buffer_default"
  by (simp add: buf_inv_def Buffer_default_def kCheapPrepend_def kInitialSize_def)

lemma Buffer_default_content [simp]: "content Buffer_default = []"
  by (simp add: content_def Buffer_default_def)

lemma Buffer_default_fields:
  "length (buf_data Buffer_default) = 1032" "readerIndex Buffer_default = 8"
  "writerIndex Buffer_default = 8" "writableBytes Buffer_default = 1024"
  by (simp_all add: writableBytes_inv) (simp_all add: Buffer_default_def kInitialSize_def kCheapPrepend_def)

lemma Buffer_ctor_default: "Buffer_ctor kInitialSize = Inr Buffer_default"
  by (simp add: Buffer_ctor_def Buffer_default_def kInitialSize_def kCheapPrepend_def size_simps mem_simps)

lemma Buffer_ctor_ok:
  assumes "kCheapPrepend + n \<le> vec_max"
  shows "\<exists>b. Buffer_ctor n = Inr b \<and> buf_inv b \<and> content b = [] \<and> writableBytes b = n"
  using assms
  by (auto simp: Buffer_ctor_def kCheapPrepend_def size_simps mem_simps buf_inv_def content_def
      writableBytes_def)


section \<open>Taking bytes out\<close>

lemma peek_content [simp]: "buf_inv b \<Longrightarrow> peek b (readableBytes b) = Inr (content b)"
  by (simp add: peek_def readableBytes_inv content_def vec_read_ok buf_inv_def)

lemma retrieveAll_inv [simp]: "buf_inv b \<Longrightarrow> buf_inv (retrieveAll b)"
  by (simp add: buf_inv_def retrieveAll_def)

lemma retrieveAll_content [simp]: "content (retrieveAll b) = []"
  by (simp add: content_def retrieveAll_def)

lemma retrieve_ok:
  assumes "buf_inv b" and "n \<le> length (content b)"
  shows "\<exists>b'. retrieve b n = Inr b' \<and> buf_inv b' \<and> content b' = drop n (content b)"
proof (cases "n < length (content b)")
  case True
  let ?b' = "b\<lparr>readerIndex := readerIndex b + n\<rparr>"
  have lt: "readerIndex b + n < writerIndex b"
    using True assms(1) by (auto simp: length_content)
  have "retrieve b n = Inr ?b'"
    using True assms buf_invD [OF assms(1)] lt
    by (simp add: retrieve_def readableBytes_content size_simps)
  moreover have "buf_inv ?b'"
    using assms lt by (simp add: buf_inv_def)
  moreover have "content ?b' = drop n (content b)"
    using lt by (simp add: content_def drop_take add.commute)
  ultimately show ?thesis by blast
next
  case False
  with assms have "retrieve b n = Inr (retrieveAll b)" and "n = length (content b)"
    by (auto simp: retrieve_def readableBytes_content)
  with assms show ?thesis by simp
qed

lemma retrieve_too_many: "buf_inv b \<Longrightarrow> length (content b) < n \<Longrightarrow> retrieve b n = Inl AssertFailed"
  by (simp add: retrieve_def readableBytes_content)

lemma retrieveAllAsString_ok:
  assumes "buf_inv b"
  shows "retrieveAllAsString b = Inr (content b, retrieveAll b)"
  using peek_content [OF assms] by (simp add: retrieveAllAsString_def peek_def)

lemma vec_read_content:
  assumes "buf_inv b" and "n \<le> length (content b)"
  shows "vec_read (buf_data b) (readerIndex b) n = Inr (take n (content b))"
proof -
  have "n \<le> writerIndex b - readerIndex b"
    using assms by (simp add: length_content)
  then show ?thesis
    using buf_invD [OF assms(1)] by (simp add: content_def vec_read_ok)
qed

lemma retrieveAsString_ok:
  assumes "buf_inv b" and "n \<le> length (content b)"
  shows "\<exists>b'. retrieveAsString b n = Inr (take n (content b), b') \<and> buf_inv b'
           \<and> content b' = drop n (content b)"
  using retrieve_ok [OF assms] vec_read_content [OF assms] assms
  by (auto simp: retrieveAsString_def readableBytes_content)

section \<open>Searching\<close>

lemma search_Some:
  "search pat xs = Some i \<Longrightarrow>
     take (length pat) (drop i xs) = pat \<and> (\<forall>j<i. take (length pat) (drop j xs) \<noteq> pat)"
proof (induction xs arbitrary: i)
  case Nil
  then show ?case by (auto split: if_splits)
next
  case (Cons x xs)
  show ?case
  proof (cases "take (length pat) (x # xs) = pat")
    case True
    with Cons.prems show ?thesis by simp
  next
    case False
    with Cons.prems obtain k where k: "search pat xs = Some k" "i = Suc k" by auto
    have "take (length pat) (drop j (x # xs)) \<noteq> pat" if "j < i" for j
      using that False Cons.IH [OF k(1)] k(2) by (cases j) auto
    with Cons.IH [OF k(1)] k(2) show ?thesis by simp
  qed
qed

lemma search_None:
  "search pat xs = None \<Longrightarrow> pat \<noteq> [] \<Longrightarrow> take (length pat) (drop j xs) \<noteq> pat"
proof (induction xs arbitrary: j)
  case Nil
  then show ?case by simp
next
  case (Cons x xs)
  then show ?case by (cases j) (auto split: if_splits)
qed

section \<open>Making room\<close>

lemma makeSpace_grow:
  assumes "buf_inv b" and "length (buf_data b) < n + kCheapPrepend" and "n \<le> vec_max"
  shows "makeSpace b n =
    (if writerIndex b + n \<le> vec_max
     then Inr (b\<lparr>buf_data := take (writerIndex b + n) (buf_data b)
                            @ replicate (writerIndex b + n - length (buf_data b)) nul\<rparr>)
     else Inl LengthError)"
  using assms buf_invD [OF assms(1)]
  by (simp add: makeSpace_def writableBytes_inv prependableBytes_def kCheapPrepend_def size_simps
      vec_resize_def)

lemma makeSpace_compact:
  assumes "buf_inv b" and "n + kCheapPrepend \<le> length (buf_data b)"
  shows "makeSpace b n =
    Inr (b\<lparr>buf_data := copy_within (buf_data b) (readerIndex b) kCheapPrepend
                         (writerIndex b - readerIndex b),
           readerIndex := kCheapPrepend,
           writerIndex := kCheapPrepend + (writerIndex b - readerIndex b)\<rparr>)"
  using assms buf_invD [OF assms(1)]
  by (simp add: makeSpace_def writableBytes_inv readableBytes_inv prependableBytes_def
      kCheapPrepend_def size_simps)

lemma compact_content:
  assumes "buf_inv b"
    and "b' = b\<lparr>buf_data := copy_within (buf_data b) (readerIndex b) kCheapPrepend
                         (writerIndex b - readerIndex b),
           readerIndex := kCheapPrepend,
           writerIndex := kCheapPrepend + (writerIndex b - readerIndex b)\<rparr>"
  shows "buf_inv b' \<and> content b' = content b"
proof -
  let ?k = "writerIndex b - readerIndex b"
  note inv = buf_invD [OF assms(1)]
  have "copy_within (buf_data b) (readerIndex b) kCheapPrepend ?k
      = take kCheapPrepend (buf_data b) @ take ?k (drop (readerIndex b) (buf_data b))
        @ drop (kCheapPrepend + ?k) (buf_data b)"
    using inv by (intro copy_within_block) simp_all
  moreover have "length (take ?k (drop (readerIndex b) (buf_data b))) = ?k"
    using inv by simp
  moreover have "length (take kCheapPrepend (buf_data b)) = kCheapPrepend"
    using inv by simp
  ultimately have "content b' = content b"
    using assms(2) by (simp add: content_def)
  moreover have "buf_inv b'"
    using inv assms(2) by (auto simp: buf_inv_def)
  ultimately show ?thesis by simp
qed

lemma write_at_end:
  assumes "buf_inv b" and "writerIndex b + length d \<le> length (buf_data b)"
  shows "\<exists>b'. bind_res (vec_write (buf_data b) (writerIndex b) d)
                (\<lambda>v. Inr (b\<lparr>buf_data := v, writerIndex := size_add (writerIndex b) (length d)\<rparr>)) = Inr b'
            \<and> buf_inv b' \<and> content b' = content b @ d
            \<and> length (buf_data b') = length (buf_data b)
            \<and> readerIndex b' = readerIndex b \<and> writerIndex b' = writerIndex b + length d"
proof -
  note inv = buf_invD [OF assms(1)]
  have "size_add (writerIndex b) (length d) = writerIndex b + length d"
    using assms(2) inv by (simp add: size_simps)
  then show ?thesis
    using assms inv drop_take_write [OF inv(2) assms(2)]
    by (auto simp: vec_write_ok content_def buf_inv_def)
qed


section \<open>Appending\<close>

lemma append_no_space_needed:
  assumes "length d \<le> length (buf_data b) - readerIndex b" and "buf_inv b"
  shows "append b d =
    bind_res (vec_write (buf_data b) (writerIndex b) d)
      (\<lambda>v. Inr (b\<lparr>buf_data := v, writerIndex := size_add (writerIndex b) (length d)\<rparr>))"
  using assms by (simp add: append_def ensureWritableBytes_def writableBytes_inv)

lemma append_after_makeSpace:
  assumes "length (buf_data b) - readerIndex b < length d" and "buf_inv b"
    and "makeSpace b (length d) = Inr b1"
  shows "append b d =
    bind_res (vec_write (buf_data b1) (writerIndex b1) d)
      (\<lambda>v. Inr (b1\<lparr>buf_data := v, writerIndex := size_add (writerIndex b1) (length d)\<rparr>))"
  using assms by (simp add: append_def ensureWritableBytes_def writableBytes_inv)

lemma grow_content:
  assumes "buf_inv b" and "length (buf_data b) \<le> writerIndex b + n" and "writerIndex b + n \<le> vec_max"
    and "b' = b\<lparr>buf_data := take (writerIndex b + n) (buf_data b)
                          @ replicate (writerIndex b + n - length (buf_data b)) nul\<rparr>"
  shows "buf_inv b' \<and> content b' = content b \<and> length (buf_data b') = writerIndex b + n
    \<and> writerIndex b' = writerIndex b"
  using assms buf_invD [OF assms(1)] by (auto simp: buf_inv_def content_def)

lemma append_ok:
  assumes inv: "buf_inv b" and len: "length d \<le> vec_max" and room: "append_room b (length d)"
  shows "\<exists>b'. append b d = Inr b' \<and> buf_inv b' \<and> content b' = content b @ d"
proof -
  note bounds = buf_invD [OF inv]
  consider (stay) "length d \<le> length (buf_data b) - readerIndex b"
    | (grow) "length (buf_data b) - readerIndex b < length d" "length (buf_data b) < length d + kCheapPrepend"
    | (compact) "length (buf_data b) - readerIndex b < length d" "length d + kCheapPrepend \<le> length (buf_data b)"
    by linarith
  then show ?thesis
  proof cases
    case stay
    with room have "writerIndex b + length d \<le> length (buf_data b)"
      by (simp add: append_room_def)
    from write_at_end [OF inv this] show ?thesis
      by (auto simp: append_no_space_needed [OF stay inv])
  next
    case grow
    with room have fits: "writerIndex b + length d \<le> vec_max"
      by (simp add: append_room_def)
    let ?b1 = "b\<lparr>buf_data := take (writerIndex b + length d) (buf_data b)
                          @ replicate (writerIndex b + length d - length (buf_data b)) nul\<rparr>"
    have b1: "buf_inv ?b1 \<and> content ?b1 = content b \<and> length (buf_data ?b1) = writerIndex b + length d
        \<and> writerIndex ?b1 = writerIndex b"
      using grow fits bounds by (intro grow_content [OF inv]) simp_all
    have "makeSpace b (length d) = Inr ?b1"
      using makeSpace_grow [OF inv grow(2) len] fits by simp
    from append_after_makeSpace [OF grow(1) inv this] write_at_end [of ?b1 d] b1
    show ?thesis by auto
  next
    case compact
    let ?b1 = "b\<lparr>buf_data := copy_within (buf_data b) (readerIndex b) kCheapPrepend
                         (writerIndex b - readerIndex b),
           readerIndex := kCheapPrepend,
           writerIndex := kCheapPrepend + (writerIndex b - readerIndex b)\<rparr>"
    have b1: "buf_inv ?b1 \<and> content ?b1 = content b"
      by (rule compact_content [OF inv refl])
    from compact room have "writerIndex ?b1 + length d \<le> length (buf_data ?b1)"
      by (simp add: append_room_def)
    from append_after_makeSpace [OF compact(1) inv makeSpace_compact [OF inv compact(2)]]
      write_at_end [OF conjunct1 [OF b1] this] b1
    show ?thesis by auto
  qed
qed

lemma append_overflow:
  assumes inv: "buf_inv b" and len: "length d \<le> vec_max" and no_room: "\<not> append_room b (length d)"
  shows "append b d = Inl (if length d \<le> length (buf_data b) - readerIndex b
                              \<or> length d + kCheapPrepend \<le> length (buf_data b)
                           then OutOfBounds else LengthError)"
proof -
  have ne: "d \<noteq> []"
    using no_room buf_invD [OF inv] by (auto simp: append_room_def)
  consider (stay) "length d \<le> length (buf_data b) - readerIndex b"
    | (grow) "length (buf_data b) - readerIndex b < length d" "length (buf_data b) < length d + kCheapPrepend"
    | (compact) "length (buf_data b) - readerIndex b < length d" "length d + kCheapPrepend \<le> length (buf_data b)"
    by linarith
  then show ?thesis
  proof cases
    case stay
    with no_room ne show ?thesis
      by (simp add: append_no_space_needed [OF stay inv] append_room_def vec_write_def)
  next
    case grow
    with no_room makeSpace_grow [OF inv grow(2) len] show ?thesis
      using inv by (simp add: append_room_def append_def ensureWritableBytes_def writableBytes_inv)
  next
    case compact
    with no_room ne append_after_makeSpace [OF compact(1) inv makeSpace_compact [OF inv compact(2)]]
    show ?thesis by (simp add: append_room_def vec_write_def)
  qed
qed

lemma append_room_empty:
  assumes "buf_inv b" and "content b = []" and "writerIndex b + n \<le> vec_max"
  shows "append_room b n"
  using assms buf_invD [OF assms(1)]
  by (auto simp: append_room_def content_Nil_iff Let_def)

lemma append_to_empty:
  assumes "buf_inv b" and "content b = []" and "writerIndex b + length d \<le> vec_max"
  shows "\<exists>b'. append b d = Inr b' \<and> buf_inv b' \<and> content b' = d"
  using append_ok [of b d] append_room_empty [OF assms] assms by auto


lemma append_sound:
  assumes "buf_inv b" and "length d \<le> vec_max" and "append b d = Inr b'"
  shows "buf_inv b' \<and> content b' = content b @ d"
proof (cases "append_room b (length d)")
  case True
  then show ?thesis using append_ok [OF assms(1,2)] assms(3) by auto
next
  case False
  then show ?thesis using append_overflow [OF assms(1,2)] assms(3) by simp
qed

lemma retrieve_sound:
  assumes "buf_inv b" and "retrieve b n = Inr b'"
  shows "n \<le> length (content b) \<and> buf_inv b' \<and> content b' = drop n (content b)"
proof (cases "n \<le> length (content b)")
  case True
  then show ?thesis using retrieve_ok [OF assms(1)] assms(2) by fastforce
next
  case False
  then show ?thesis using retrieve_too_many [OF assms(1)] assms(2) by simp
qed

lemma shrink_ok:
  assumes inv: "buf_inv b" and fits: "length (content b) + reserve + kCheapPrepend \<le> vec_max"
  shows "\<exists>b'. shrink b reserve = Inr b' \<and> buf_inv b' \<and> content b' = content b
           \<and> reserve \<le> length (buf_data b') - writerIndex b'"
proof -
  let ?n = "length (content b) + reserve"
  have sz: "size_add (readableBytes b) reserve = ?n"
    using fits inv by (simp add: readableBytes_content size_simps)
  note def_sz = Buffer_default_fields(1-3) Buffer_default_content
  obtain o1 where o1: "ensureWritableBytes Buffer_default ?n = Inr o1" "buf_inv o1" "content o1 = []"
      "readerIndex o1 = 8" "writerIndex o1 = 8" "8 + ?n \<le> length (buf_data o1)"
  proof (cases "?n \<le> 1024")
    case True
    then show thesis
      using that [of Buffer_default] def_sz
      by (simp add: ensureWritableBytes_def writableBytes_inv)
  next
    case False
    let ?o = "Buffer_default\<lparr>buf_data := take (8 + ?n) (buf_data Buffer_default)
                @ replicate (8 + ?n - 1032) nul\<rparr>"
    have "makeSpace Buffer_default ?n = Inr ?o"
      using False fits makeSpace_grow [of Buffer_default ?n] def_sz by (simp add: kCheapPrepend_def)
    then have "ensureWritableBytes Buffer_default ?n = Inr ?o"
      using False def_sz by (simp add: ensureWritableBytes_def writableBytes_inv)
    moreover have "buf_inv ?o \<and> content ?o = [] \<and> length (buf_data ?o) = 8 + ?n"
      using grow_content [of Buffer_default ?n ?o] False fits def_sz by (simp add: kCheapPrepend_def)
    ultimately show thesis
      using that [of ?o] def_sz by simp
  qed
  have fit: "length (content b) \<le> length (buf_data o1) - readerIndex o1"
      "writerIndex o1 + length (content b) \<le> length (buf_data o1)"
    using o1 by linarith+
  from write_at_end [OF o1(2) fit(2)] append_no_space_needed [OF fit(1) o1(2)] o1
  obtain o2 where o2: "append o1 (content b) = Inr o2" "buf_inv o2" "content o2 = content b"
      "length (buf_data o2) = length (buf_data o1)" "writerIndex o2 = 8 + length (content b)"
    by auto
  have "fst (swap b o2) = o2"
    by (simp add: swap_def)
  then show ?thesis
    using o1 o2 sz inv by (auto simp: shrink_def)
qed

lemma moved_from_append:
  assumes "buf_inv b" and "d \<noteq> []" and "length d \<le> vec_max" and "readerIndex b \<le> vec_max"
  shows "append (snd (Buffer_move b)) d = Inl OutOfBounds"
proof -
  have "writableBytes (snd (Buffer_move b)) = size_mod - readerIndex b"
    using assms buf_invD [OF assms(1)]
    by (simp add: writableBytes_def Buffer_move_def size_sub_wraps kCheapPrepend_def)
  moreover have "\<not> size_mod - readerIndex b < length d"
    using assms by linarith
  ultimately show ?thesis
    using assms by (simp add: append_def ensureWritableBytes_def vec_write_def Buffer_move_def)
qed

section \<open>Reading from a descriptor\<close>

lemma readFd_error:
  assumes "\<And>lens. readv lens = Inl e"
  shows "readFd readv b se = Inr (-1, e, b)"
  using assms by (simp add: readFd_def Let_def)

lemma readFd_fits:
  assumes inv: "buf_inv b" and len: "length bytes \<le> writableBytes b"
    and rv: "readv (if writableBytes b < extrabuf_size then [writableBytes b, extrabuf_size]
                    else [writableBytes b]) = Inr bytes"
    and space: "writerIndex b + length bytes \<le> length (buf_data b)"
  shows "\<exists>b'. readFd readv b se = Inr (int (length bytes), se, b') \<and> buf_inv b'
           \<and> content b' = content b @ bytes"
  using write_at_end [OF inv space] len rv
  by (auto simp: readFd_def Let_def res_simps vec_write_ok [OF space])

text \<open>
  The empty buffer whose indices are at the front, which is what the constructor and
  \<open>retrieveAll\<close> leave: everything delivered fits the storage, or spills into the second area.
\<close>

lemma readFd_spill:
  assumes inv: "buf_inv b" and idx: "readerIndex b = kCheapPrepend" "writerIndex b = kCheapPrepend"
    and rv: "readv [writableBytes b, extrabuf_size] = Inr bytes" and small: "writableBytes b < extrabuf_size"
    and spill: "writableBytes b < length bytes" "length bytes \<le> writableBytes b + extrabuf_size"
  shows "if length bytes \<le> 2 * writableBytes b then readFd readv b se = Inl OutOfBounds
         else \<exists>b'. readFd readv b se = Inr (int (length bytes), se, b') \<and> buf_inv b' \<and> content b' = bytes"
proof -
  let ?w = "writableBytes b"
  let ?b1 = "b\<lparr>buf_data := take 8 (buf_data b) @ take ?w bytes, writerIndex := length (buf_data b)\<rparr>"
  have w: "length (buf_data b) = 8 + ?w"
    using inv idx buf_invD [OF inv] by (simp add: writableBytes_inv kCheapPrepend_def)
  have wr: "vec_write (buf_data b) (writerIndex b) (take ?w bytes) = Inr (take 8 (buf_data b) @ take ?w bytes)"
    using w idx spill by (simp add: vec_write_ok kCheapPrepend_def)
  have b1: "buf_inv ?b1" "content ?b1 = take ?w bytes" "length (buf_data ?b1) = 8 + ?w"
    using w idx spill buf_invD [OF inv] by (simp_all add: buf_inv_def content_def kCheapPrepend_def)
  have rd: "readFd readv b se = bind_res (append ?b1 (drop ?w bytes)) (\<lambda>b2. Inr (int (length bytes), se, b2))"
    using rv small spill wr w by (simp add: readFd_def Let_def not_le)
  have room: "append_room ?b1 (length (drop ?w bytes)) \<longleftrightarrow> 2 * ?w < length bytes"
    using w idx spill small by (auto simp: append_room_def kCheapPrepend_def extrabuf_size_def)
  have dl: "length (drop ?w bytes) \<le> vec_max"
    using spill by (simp add: extrabuf_size_def)
  show ?thesis
  proof (cases "length bytes \<le> 2 * ?w")
    case True
    with room have "\<not> append_room ?b1 (length (drop ?w bytes))" by simp
    from append_overflow [OF b1(1) dl this] show ?thesis
      using True w idx by (simp add: rd kCheapPrepend_def)
  next
    case False
    with room append_ok [OF b1(1) dl] b1(2) show ?thesis
      by (auto simp: rd)
  qed
qed

text \<open>
  Whenever \<open>readFd\<close> returns, whatever path it took, the buffer is well-formed and holds the bytes
  delivered after those it held.
\<close>

lemma readFd_sound:
  assumes inv: "buf_inv b" and doc: "readv_documented readv" and ret: "readFd readv b se = Inr (n, e, b')"
  shows "buf_inv b' \<and> (\<exists>bytes. content b' = content b @ bytes \<and> (0 \<le> n \<longrightarrow> n = int (length bytes)))"
proof -
  let ?w = "writableBytes b"
  let ?lens = "if ?w < extrabuf_size then [?w, extrabuf_size] else [?w]"
  show ?thesis
  proof (cases "readv ?lens")
    case (Inl e')
    then show ?thesis using ret inv by (auto simp: readFd_def Let_def)
  next
    case (Inr bytes)
    with ret obtain v where v: "vec_write (buf_data b) (writerIndex b) (take ?w bytes) = Inr v"
      by (auto simp: readFd_def Let_def res_simps)
    show ?thesis
    proof (cases "length bytes \<le> ?w")
      case True
      then have room: "writerIndex b + length bytes \<le> length (buf_data b)"
        using v buf_invD [OF inv] by (cases "bytes = []") (auto simp: vec_write_def split: if_splits)
      show ?thesis
        using readFd_fits [where readv = readv and se = se, OF inv True Inr room] ret by auto
    next
      case False
      let ?b1 = "b\<lparr>buf_data := v, writerIndex := length v\<rparr>"
      have tight: "writerIndex b + ?w \<le> length (buf_data b)" "0 < length bytes"
        using False v buf_invD [OF inv] by (auto simp: vec_write_def min_def split: if_splits)
      then have idx: "readerIndex b = writerIndex b" "length (buf_data b) = writerIndex b + ?w"
        using buf_invD [OF inv] by (auto simp: writableBytes_inv [OF inv])
      have veq: "v = take (writerIndex b) (buf_data b) @ take ?w bytes"
        using v False idx tight vec_write_ok [of "writerIndex b" "take ?w bytes" "buf_data b"] by simp
      have b1: "buf_inv ?b1" "content ?b1 = content b @ take ?w bytes"
        using idx False buf_invD [OF inv] by (simp_all add: veq buf_inv_def content_def kCheapPrepend_def)
      have "sum_list ?lens \<le> ?w + extrabuf_size" by simp
      then have short: "length (drop ?w bytes) \<le> vec_max"
        using doc Inr by (fastforce simp: readv_documented_def extrabuf_size_def)
      have "n = int (length bytes)" "append ?b1 (drop ?w bytes) = Inr b'"
        using ret Inr v False by (auto simp: readFd_def Let_def res_simps)
      with append_sound [OF b1(1) short] b1(2) show ?thesis
        by auto
    qed
  qed
qed

text \<open>The storage of a buffer never shrinks while bytes are appended or read.\<close>

lemma append_storage:
  assumes inv: "buf_inv b" and len: "length d \<le> vec_max" and ret: "append b d = Inr b'"
  shows "length (buf_data b) \<le> length (buf_data b')"
proof -
  obtain b1 v where b1: "ensureWritableBytes b (length d) = Inr b1" and v: "vec_write (buf_data b1) (writerIndex b1) d = Inr v"
      "buf_data b' = v"
    using ret by (auto simp: append_def res_simps)
  have "length v = length (buf_data b1)"
    using v(1) by (auto simp: vec_write_def split: if_splits)
  moreover have "length (buf_data b) \<le> length (buf_data b1)"
  proof (cases "writableBytes b < length d")
    case True
    then have "length (buf_data b) < writerIndex b + length d"
      using buf_invD [OF inv] by (simp add: writableBytes_inv [OF inv])
    with True b1 makeSpace_grow [OF inv _ len] makeSpace_compact [OF inv, of "length d"] show ?thesis
      by (cases "length (buf_data b) < length d + kCheapPrepend") (auto simp: ensureWritableBytes_def not_less split: if_splits)
  qed (use b1 in \<open>simp add: ensureWritableBytes_def\<close>)
  ultimately show ?thesis using v(2) by simp
qed

lemma readFd_storage:
  assumes inv: "buf_inv b" and doc: "readv_documented readv" and ret: "readFd readv b se = Inr (n, e, b')"
  shows "length (buf_data b) \<le> length (buf_data b')" and "n \<le> 0 \<Longrightarrow> b' = b"
proof -
  let ?w = "writableBytes b"
  let ?lens = "if ?w < extrabuf_size then [?w, extrabuf_size] else [?w]"
  have "length (buf_data b) \<le> length (buf_data b') \<and> (n \<le> 0 \<longrightarrow> b' = b)"
  proof (cases "readv ?lens")
    case (Inl e')
    then show ?thesis using ret by (auto simp: readFd_def Let_def)
  next
    case (Inr bytes)
    with ret obtain v where v: "vec_write (buf_data b) (writerIndex b) (take ?w bytes) = Inr v"
      by (auto simp: readFd_def Let_def res_simps)
    then have lv: "length v = length (buf_data b)" and same: "bytes = [] \<Longrightarrow> v = buf_data b"
      by (auto simp: vec_write_def split: if_splits)
    show ?thesis
    proof (cases "length bytes \<le> ?w")
      case True
      moreover have "size_add (writerIndex b) 0 = writerIndex b" using buf_invD [OF inv] by (simp add: size_simps)
      ultimately show ?thesis using ret Inr v lv same by (auto simp: readFd_def Let_def)
    next
      case False
      let ?b1 = "b\<lparr>buf_data := v, writerIndex := length v\<rparr>"
      have n: "n = int (length bytes)" "append ?b1 (drop ?w bytes) = Inr b'"
        using ret Inr v False by (auto simp: readFd_def Let_def res_simps)
      have "buf_inv ?b1"
        using buf_invD [OF inv] lv by (simp add: buf_inv_def)
      moreover have "length (drop ?w bytes) \<le> vec_max"
      proof -
        have "sum_list ?lens \<le> ?w + extrabuf_size" by simp
        then show ?thesis using doc Inr by (fastforce simp: readv_documented_def extrabuf_size_def)
      qed
      ultimately show ?thesis
        using append_storage [OF _ _ n(2)] lv n(1) False by auto
    qed
  qed
  then show "length (buf_data b) \<le> length (buf_data b')" and "n \<le> 0 \<Longrightarrow> b' = b" by auto
qed
section \<open>The contract of a byte queue\<close>

text \<open>
  What connections and awaitable receivers rely on: bytes come out in the order they were put
  in. \<open>fifo_run\<close> is any program of puts and takes over such a queue.
\<close>

datatype fifo_op = Put "char list" | Take nat

fun fifo_run :: "('b \<Rightarrow> char list \<Rightarrow> 'b res) \<Rightarrow> ('b \<Rightarrow> nat \<Rightarrow> (char list \<times> 'b) res) \<Rightarrow>
    'b \<Rightarrow> fifo_op list \<Rightarrow> (char list \<times> 'b) res" where
  "fifo_run put tak b [] = Inr ([], b)"
| "fifo_run put tak b (Put d # ops) = bind_res (put b d) (\<lambda>b'. fifo_run put tak b' ops)"
| "fifo_run put tak b (Take n # ops) =
     bind_res (tak b n) (\<lambda>(out, b'). bind_res (fifo_run put tak b' ops) (\<lambda>(outs, b''). Inr (out @ outs, b'')))"

fun fifo_input :: "fifo_op list \<Rightarrow> char list" where
  "fifo_input [] = []"
| "fifo_input (Put d # ops) = d @ fifo_input ops"
| "fifo_input (Take n # ops) = fifo_input ops"

definition fifo_ops_bounded :: "fifo_op list \<Rightarrow> bool" where
  "fifo_ops_bounded ops \<longleftrightarrow> (\<forall>d. Put d \<in> set ops \<longrightarrow> length d \<le> vec_max)"

locale byte_fifo =
  fixes inv :: "'b \<Rightarrow> bool"
    and bytes :: "'b \<Rightarrow> char list"
    and put :: "'b \<Rightarrow> char list \<Rightarrow> 'b res"
    and tak :: "'b \<Rightarrow> nat \<Rightarrow> (char list \<times> 'b) res"
  assumes put_sound: "inv b \<Longrightarrow> length d \<le> vec_max \<Longrightarrow> put b d = Inr b' \<Longrightarrow> inv b' \<and> bytes b' = bytes b @ d"
    and tak_sound: "inv b \<Longrightarrow> tak b n = Inr (out, b') \<Longrightarrow>
        inv b' \<and> out = take n (bytes b) \<and> bytes b' = drop n (bytes b)"
begin

lemma run_stream:
  "inv b \<Longrightarrow> fifo_ops_bounded ops \<Longrightarrow> fifo_run put tak b ops = Inr (out, b') \<Longrightarrow>
     inv b' \<and> bytes b @ fifo_input ops = out @ bytes b'"
proof (induction ops arbitrary: b out)
  case Nil
  then show ?case by simp
next
  case (Cons x ops)
  have bnd: "fifo_ops_bounded ops"
    using Cons.prems(2) by (simp add: fifo_ops_bounded_def)
  show ?case
  proof (cases x)
    case (Put d)
    with Cons.prems obtain b1 where b1: "put b d = Inr b1" "fifo_run put tak b1 ops = Inr (out, b')"
      by (auto elim: bind_res_InrE)
    moreover have "length d \<le> vec_max"
      using Cons.prems(2) Put by (simp add: fifo_ops_bounded_def)
    ultimately have "inv b1 \<and> bytes b1 = bytes b @ d"
      using put_sound [OF Cons.prems(1)] by blast
    with Cons.IH [OF _ bnd b1(2)] Put show ?thesis by auto
  next
    case (Take n)
    with Cons.prems obtain o1 b1 o2 where b1: "tak b n = Inr (o1, b1)"
        "fifo_run put tak b1 ops = Inr (o2, b')" "out = o1 @ o2"
      by (auto simp: res_simps split: prod.splits)
    have "inv b1" and split: "bytes b = o1 @ bytes b1"
      using tak_sound [OF Cons.prems(1) b1(1)] by simp_all
    with Cons.IH [OF _ bnd b1(2)] b1(3) Take show ?thesis by simp
  qed
qed

end

lemma retrieveAsString_sound:
  assumes "buf_inv b" and "retrieveAsString b n = Inr (out, b')"
  shows "buf_inv b' \<and> out = take n (content b) \<and> content b' = drop n (content b)"
proof (cases "n \<le> length (content b)")
  case True
  from retrieveAsString_ok [OF assms(1) True] assms(2) show ?thesis by auto
next
  case False
  with assms show ?thesis by (simp add: retrieveAsString_def readableBytes_content)
qed

interpretation buf: byte_fifo buf_inv content append retrieveAsString
proof unfold_locales
  show "buf_inv b' \<and> content b' = content b @ d"
    if "buf_inv b" "length d \<le> vec_max" "append b d = Inr b'" for b d b'
    using that by (rule append_sound)
  show "buf_inv b' \<and> out = take n (content b) \<and> content b' = drop n (content b)"
    if "buf_inv b" "retrieveAsString b n = Inr (out, b')" for b n out b'
    using that by (rule retrieveAsString_sound)
qed


section \<open>Properties\<close>

text \<open>C4. \<^verbatim>\<open>Buffer::append\<close> is exactly as safe as \<open>append_room\<close> says: with room it succeeds, keeps
  the invariant and adds the bytes at the end of the content; without room it writes outside the
  storage (or the vector refuses to grow), whichever way \<^verbatim>\<open>ensureWritableBytes\<close> went.\<close>

theorem append_exact:
  assumes "buf_inv b" and "length d \<le> vec_max"
  shows "if append_room b (length d)
         then \<exists>b'. append b d = Inr b' \<and> buf_inv b' \<and> content b' = content b @ d
         else append b d = Inl OutOfBounds \<or> append b d = Inl LengthError"
  using append_ok [OF assms] append_overflow [OF assms] by auto

theorem append_exact_witness:
  "\<exists>b'. append Buffer_default ''hello'' = Inr b' \<and> buf_inv b' \<and> content b' = ''hello''"
  using append_exact [of Buffer_default "''hello''"]
  by (simp add: append_room_def Buffer_default_fields)

text \<open>C21. What \<^verbatim>\<open>Buffer::readFd\<close> does with a freshly constructed buffer, for every amount of data
  \<^verbatim>\<open>readv\<close> may deliver: up to 1024 bytes, and more than 2048 bytes, arrive completely and in
  order; 1025 to 2048 bytes make \<^verbatim>\<open>append(extrabuf, ...)\<close> write past the end of the storage.\<close>

theorem readFd_fresh:
  assumes "readv_documented readv" and "readv [1024, 65536] = Inr bytes"
  shows "if 1024 < length bytes \<and> length bytes \<le> 2048
         then readFd readv Buffer_default se = Inl OutOfBounds
         else \<exists>b'. readFd readv Buffer_default se = Inr (int (length bytes), se, b')
                  \<and> buf_inv b' \<and> content b' = bytes"
proof -
  let ?b = Buffer_default
  note w = Buffer_default_fields kCheapPrepend_def
  have le: "length bytes \<le> 1024 + 65536"
    using assms by (fastforce simp: readv_documented_def)
  show ?thesis
  proof (cases "length bytes \<le> 1024")
    case True
    then show ?thesis
      using readFd_fits [of ?b bytes readv se] assms(2) w by (simp add: extrabuf_size_def)
  next
    case False
    then show ?thesis
      using readFd_spill [of ?b readv bytes se] assms(2) w le by (auto simp: extrabuf_size_def)
  qed
qed

theorem readFd_fresh_witness:
  "readFd (\<lambda>lens. Inr (take (sum_list lens) (replicate 1500 (CHR ''x'')))) Buffer_default 0 = Inl OutOfBounds
   \<and> (\<exists>b'. readFd (\<lambda>lens. Inr (take (sum_list lens) ''ping'')) Buffer_default 0 = Inr (4, 0, b')
           \<and> content b' = ''ping'')"
proof
  have "readv_documented (\<lambda>lens. Inr (take (sum_list lens) (replicate 1500 (CHR ''x''))))"
    by (auto simp: readv_documented_def)
  from readFd_fresh [OF this, of "replicate 1500 (CHR ''x'')" 0]
  show "readFd (\<lambda>lens. Inr (take (sum_list lens) (replicate 1500 (CHR ''x'')))) Buffer_default 0 = Inl OutOfBounds"
    by simp
  have "readv_documented (\<lambda>lens. Inr (take (sum_list lens) ''ping''))"
    by (auto simp: readv_documented_def)
  from readFd_fresh [OF this, of "''ping''" 0]
  show "\<exists>b'. readFd (\<lambda>lens. Inr (take (sum_list lens) ''ping'')) Buffer_default 0 = Inr (4, 0, b')
           \<and> content b' = ''ping''"
    by auto
qed

text \<open>C22. Refinement of a byte queue: whatever sequence of \<^verbatim>\<open>append\<close> and \<^verbatim>\<open>retrieveAsString\<close> calls runs
  through without a fault, the bytes taken out followed by the bytes still held are the bytes
  held at the start followed by the bytes appended, in order; nothing is lost or duplicated by
  growing or compacting.\<close>

theorem buffer_is_fifo:
  assumes "buf_inv b" and "fifo_ops_bounded ops" and "fifo_run append retrieveAsString b ops = Inr (out, b')"
  shows "buf_inv b' \<and> content b @ fifo_input ops = out @ content b'"
  using assms by (rule buf.run_stream)

theorem buffer_is_fifo_witness:
  "\<exists>out b'. fifo_run append retrieveAsString Buffer_default [Put ''abc'', Take 2] = Inr (out, b')
     \<and> ''abc'' = out @ content b'"
proof -
  obtain b1 where b1: "append Buffer_default ''abc'' = Inr b1" "buf_inv b1" "content b1 = ''abc''"
    using append_to_empty [of Buffer_default "''abc''"] by (auto simp: Buffer_default_fields)
  then obtain b2 where "retrieveAsString b1 2 = Inr (''ab'', b2)"
    using retrieveAsString_ok [of b1 2] by auto
  with b1 have "fifo_run append retrieveAsString Buffer_default [Put ''abc'', Take 2] = Inr (''ab'', b2)"
    by simp
  with buffer_is_fifo [OF Buffer_default_inv _ this] show ?thesis
    by (auto simp: fifo_ops_bounded_def)
qed

text \<open>Round trip: bytes appended to an empty buffer come back unchanged from
  \<^verbatim>\<open>retrieveAllAsString\<close>, and the buffer is empty and writable again.\<close>

theorem append_retrieveAll_roundtrip:
  assumes "buf_inv b" and "content b = []" and "writerIndex b + length d \<le> vec_max"
  shows "bind_res (append b d) retrieveAllAsString
       = Inr (d, retrieveAll (projr (append b d))) \<and> content (retrieveAll (projr (append b d))) = []
         \<and> buf_inv (retrieveAll (projr (append b d)))"
  using append_to_empty [OF assms] by (auto simp: retrieveAllAsString_ok)

theorem append_retrieveAll_roundtrip_witness:
  "bind_res (append Buffer_default ''GET'') retrieveAllAsString
     = Inr (''GET'', retrieveAll (projr (append Buffer_default ''GET'')))"
  using append_retrieveAll_roundtrip [of Buffer_default "''GET''"] by (simp add: Buffer_default_fields)

text \<open>\<^verbatim>\<open>shrink(reserve)\<close> never faults on a well-formed buffer that fits the address space, keeps the
  content, and leaves at least \<open>reserve\<close> free bytes behind it.\<close>

theorem shrink_keeps_content:
  assumes "buf_inv b" and "length (content b) + reserve + kCheapPrepend \<le> vec_max"
  shows "\<exists>b'. shrink b reserve = Inr b' \<and> buf_inv b' \<and> content b' = content b
           \<and> reserve \<le> length (buf_data b') - writerIndex b'"
  using assms by (rule shrink_ok)

theorem shrink_keeps_content_witness:
  "\<exists>b'. shrink Buffer_default 100 = Inr b' \<and> content b' = []"
  using shrink_keeps_content [of Buffer_default 100] by (auto simp: kCheapPrepend_def)

text \<open>\<^verbatim>\<open>findCRLF\<close> returns the first line end of the readable bytes: the returned position holds
  CR LF, no earlier readable position does, and a null result means there is none.\<close>

theorem findCRLF_first:
  assumes "buf_inv b"
  shows "case findCRLF b of
      Inl _ \<Rightarrow> False
    | Inr None \<Rightarrow> \<forall>j. take 2 (drop j (content b)) \<noteq> kCRLF
    | Inr (Some p) \<Rightarrow> readerIndex b \<le> p \<and> take 2 (drop (p - readerIndex b) (content b)) = kCRLF
        \<and> (\<forall>j < p - readerIndex b. take 2 (drop j (content b)) \<noteq> kCRLF)"
proof (cases "search kCRLF (content b)")
  case None
  from search_None [OF None] show ?thesis
    using assms None by (simp add: findCRLF_def) (simp add: kCRLF_def numeral_2_eq_2)
next
  case (Some i)
  from search_Some [OF Some] show ?thesis
    using assms Some by (simp add: findCRLF_def) (simp add: kCRLF_def numeral_2_eq_2)
qed

theorem findCRLF_first_witness: "findCRLF Buffer_default = Inr None"
  using findCRLF_first [of Buffer_default]
  by (auto simp: kCRLF_def split: sum.splits option.splits)

text \<open>A moved-from buffer keeps its indices but not its storage: \<^verbatim>\<open>writableBytes\<close> wraps around to
  almost \<open>2 ^ 64\<close>, so the next \<^verbatim>\<open>append\<close> of any data reserves nothing and writes out of bounds.\<close>

theorem moved_from_buffer_unusable:
  assumes "buf_inv b" and "d \<noteq> []" and "length d \<le> vec_max"
  shows "writableBytes (snd (Buffer_move b)) = size_mod - readerIndex b
       \<and> append (snd (Buffer_move b)) d = Inl OutOfBounds"
  using moved_from_append [OF assms] buf_invD [OF assms(1)]
  by (simp add: writableBytes_def Buffer_move_def size_sub_wraps kCheapPrepend_def)

theorem moved_from_buffer_unusable_witness:
  "append (snd (Buffer_move Buffer_default)) ''x'' = Inl OutOfBounds"
  using moved_from_buffer_unusable [of Buffer_default "''x''"] by simp

end
