(* ===== verification/InetAddress.thy ===== *)
theory InetAddress
  imports Hayai_Prelude
begin

text \<open>
  IPv4 endpoints: \<^verbatim>\<open>include/hayai/net/InetAddress.h\<close> and \<^verbatim>\<open>src/net/InetAddress.cc\<close>. Ports and addresses
  are kept in network byte order, as the code keeps them, at their machine widths. The host is
  little-endian (the build targets ARM64 macOS), so the conversions swap bytes. \<^verbatim>\<open>inet_pton\<close> and
  \<^verbatim>\<open>inet_ntop\<close> belong to the C library and are parameters.
\<close>

unbundle bit_operations_syntax

section \<open>Byte order\<close>

definition htons :: "16 word \<Rightarrow> 16 word" where
  "htons x = push_bit 8 x OR drop_bit 8 x"

definition ntohs :: "16 word \<Rightarrow> 16 word" where
  "ntohs x = push_bit 8 x OR drop_bit 8 x"

definition htonl :: "32 word \<Rightarrow> 32 word" where
  "htonl x = push_bit 24 x OR (push_bit 8 x AND 0xFF0000) OR (drop_bit 8 x AND 0xFF00) OR drop_bit 24 x"

section \<open>State and operations\<close>

record sockaddr_in =
  sin_family :: "8 word"
  sin_port :: "16 word"
  sin_addr :: "32 word"

definition AF_INET :: "8 word" where
  "AF_INET = 2"

definition INADDR_ANY :: "32 word" where
  "INADDR_ANY = 0"

definition INADDR_LOOPBACK :: "32 word" where
  "INADDR_LOOPBACK = 0x7F000001"

definition sockaddr_zero :: sockaddr_in where
  "sockaddr_zero = \<lparr>sin_family = 0, sin_port = 0, sin_addr = 0\<rparr>"

text \<open>The constructor from a port, the one from a dotted address, and the one from a raw address.\<close>

definition InetAddress_port :: "16 word \<Rightarrow> bool \<Rightarrow> sockaddr_in" where
  "InetAddress_port port loopback =
     sockaddr_zero\<lparr>sin_family := AF_INET,
       sin_addr := htonl (if loopback then INADDR_LOOPBACK else INADDR_ANY),
       sin_port := htons port\<rparr>"

definition InetAddress_ip :: "(string \<Rightarrow> 32 word option) \<Rightarrow> string \<Rightarrow> 16 word \<Rightarrow> sockaddr_in" where
  "InetAddress_ip inet_pton ip port =
     (let a = sockaddr_zero\<lparr>sin_family := AF_INET, sin_port := htons port\<rparr>
      in case inet_pton ip of Some x \<Rightarrow> a\<lparr>sin_addr := x\<rparr> | None \<Rightarrow> a)"

definition InetAddress_raw :: "sockaddr_in \<Rightarrow> sockaddr_in" where
  "InetAddress_raw addr = addr"

definition port :: "sockaddr_in \<Rightarrow> 16 word" where
  "port a = ntohs (sin_port a)"

definition toIp :: "(32 word \<Rightarrow> string) \<Rightarrow> sockaddr_in \<Rightarrow> string" where
  "toIp inet_ntop a = inet_ntop (sin_addr a)"

definition toIpPort :: "(32 word \<Rightarrow> string) \<Rightarrow> sockaddr_in \<Rightarrow> string" where
  "toIpPort inet_ntop a = toIp inet_ntop a @ '':'' @ dec (unat (port a))"

definition setSockAddr :: "sockaddr_in \<Rightarrow> sockaddr_in \<Rightarrow> sockaddr_in" where
  "setSockAddr self addr = addr"

definition InetAddress_eq :: "sockaddr_in \<Rightarrow> sockaddr_in \<Rightarrow> bool" where
  "InetAddress_eq a b \<longleftrightarrow>
     sin_family a = sin_family b \<and> sin_port a = sin_port b \<and> sin_addr a = sin_addr b"

definition InetAddress_neq :: "sockaddr_in \<Rightarrow> sockaddr_in \<Rightarrow> bool" where
  "InetAddress_neq a b \<longleftrightarrow> \<not> InetAddress_eq a b"

text \<open>
  What the manual pages of \<^verbatim>\<open>inet_ntop(3)\<close> and \<^verbatim>\<open>inet_pton(3)\<close> promise for \<^verbatim>\<open>AF_INET\<close>: the
  presentation form of every address is accepted and gives the address back, and it is made
  of digits and dots.
\<close>

definition inet_documented :: "(string \<Rightarrow> 32 word option) \<Rightarrow> (32 word \<Rightarrow> string) \<Rightarrow> bool" where
  "inet_documented inet_pton inet_ntop \<longleftrightarrow>
     (\<forall>x. inet_pton (inet_ntop x) = Some x) \<and> (\<forall>x. CHR '':'' \<notin> set (inet_ntop x))"

text \<open>A concrete pair of conversions that meets the documented behaviour.\<close>

definition plain_ntop :: "32 word \<Rightarrow> string" where
  "plain_ntop x = dec (unat x)"

definition plain_pton :: "string \<Rightarrow> 32 word option" where
  "plain_pton s = (if s = [] then None else Some (of_nat (undec 0 s)))"

section \<open>Lemmas\<close>

lemma ntohs_htons [simp]: "ntohs (htons x) = x"
  by (rule bit_word_eqI)
     (auto simp: ntohs_def htons_def bit_or_iff bit_push_bit_iff bit_drop_bit_eq bit_imp_le_length
       dest: bit_imp_le_length)

lemma htons_ntohs [simp]: "htons (ntohs x) = x"
  using ntohs_htons by (simp add: ntohs_def htons_def)

lemma ntohs_inject: "ntohs x = ntohs y \<longleftrightarrow> x = y"
  by (metis htons_ntohs)

lemma port_number_inject: "unat (ntohs x) = unat (ntohs y) \<longleftrightarrow> x = y"
  by (metis ntohs_inject word_unat_eq_iff)

lemma colon_not_digit: "CHR '':'' \<notin> set (dec n)"
  using dec_digits [of "CHR '':''" n] by auto

lemma split_at_separator:
  assumes "c \<notin> set xs" and "c \<notin> set xs'" and "xs @ c # ys = xs' @ c # ys'"
  shows "xs = xs' \<and> ys = ys'"
proof -
  have "takeWhile (\<lambda>x. x \<noteq> c) (xs @ c # ys) = xs" "takeWhile (\<lambda>x. x \<noteq> c) (xs' @ c # ys') = xs'"
    using assms(1,2) by (auto simp: takeWhile_tail)
  with assms(3) show ?thesis by auto
qed

lemma inet_ntop_inject:
  "inet_documented inet_pton inet_ntop \<Longrightarrow> inet_ntop x = inet_ntop y \<longleftrightarrow> x = y"
  by (metis inet_documented_def option.inject)

lemma plain_documented: "inet_documented plain_pton plain_ntop"
proof -
  have "dec n \<noteq> []" for n by (subst dec.simps) simp
  then show ?thesis
    by (auto simp: inet_documented_def plain_pton_def plain_ntop_def undec_dec colon_not_digit)
qed

section \<open>Properties\<close>

text \<open>C40. Every constructor stores the port in network order so that \<^verbatim>\<open>port()\<close> reads it back for all
  65536 ports, and the address constructors keep what \<^verbatim>\<open>inet_pton\<close> accepts; a string it rejects
  silently gives the wildcard address 0.0.0.0.\<close>

theorem InetAddress_roundtrip:
  assumes "inet_documented inet_pton inet_ntop"
  shows "port (InetAddress_port p lb) = p
       \<and> port (InetAddress_ip inet_pton ip p) = p
       \<and> toIp inet_ntop (InetAddress_ip inet_pton (inet_ntop x) p) = inet_ntop x
       \<and> (inet_pton ip = None \<longrightarrow>
            InetAddress_eq (InetAddress_ip inet_pton ip p) (InetAddress_port p False))"
  using assms
  by (auto simp: port_def InetAddress_port_def InetAddress_ip_def toIp_def inet_documented_def
      InetAddress_eq_def sockaddr_zero_def INADDR_ANY_def htonl_def Let_def split: option.splits)

text \<open>\<^verbatim>\<open>toIpPort\<close> identifies an IPv4 endpoint: two addresses of the same family print the same
  text exactly when \<^verbatim>\<open>operator==\<close> calls them equal.\<close>

theorem toIpPort_identifies:
  assumes "inet_documented inet_pton inet_ntop" and "sin_family a = sin_family b"
  shows "toIpPort inet_ntop a = toIpPort inet_ntop b \<longleftrightarrow> InetAddress_eq a b"
proof
  assume eq: "toIpPort inet_ntop a = toIpPort inet_ntop b"
  have "toIp inet_ntop a = toIp inet_ntop b \<and> dec (unat (port a)) = dec (unat (port b))"
    using assms(1) eq
    by (intro split_at_separator [of "CHR '':''"]) (simp_all add: toIpPort_def toIp_def inet_documented_def)
  then show "InetAddress_eq a b"
    using assms by (simp add: InetAddress_eq_def toIp_def inet_ntop_inject port_def port_number_inject)
next
  assume "InetAddress_eq a b"
  then show "toIpPort inet_ntop a = toIpPort inet_ntop b"
    by (simp add: InetAddress_eq_def toIpPort_def toIp_def port_def)
qed

theorem InetAddress_roundtrip_witness:
  "port (InetAddress_ip plain_pton [] 8080) = 8080
   \<and> InetAddress_eq (InetAddress_ip plain_pton [] 8080) (InetAddress_port 8080 False)"
  using InetAddress_roundtrip [OF plain_documented, of 8080 False "[]" 1] by (simp add: plain_pton_def)

theorem toIpPort_identifies_witness:
  "toIpPort plain_ntop (InetAddress_port 80 True) \<noteq> toIpPort plain_ntop (InetAddress_port 81 True)"
  using toIpPort_identifies [OF plain_documented, of "InetAddress_port 80 True" "InetAddress_port 81 True"]
  by (simp add: InetAddress_eq_def InetAddress_port_def sockaddr_zero_def htons_def)

end
