(* ===== verification/Socket.thy ===== *)
theory Socket
  imports InetAddress "HOL-Library.Multiset"
begin

text \<open>
  The descriptor owner of \<^verbatim>\<open>include/hayai/net/Socket.h\<close> and \<^verbatim>\<open>src/net/Socket.cc\<close>. An operation
  yields the system calls it issues, in order, with its result; what the kernel answers is a
  parameter (\<open>kernel\<close>). Ownership of descriptors is stated over the issued \<open>close\<close> calls.
\<close>

section \<open>System calls and the kernel's answers\<close>

datatype sockopt = SO_REUSEADDR | SO_REUSEPORT | TCP_NODELAY | SO_KEEPALIVE

datatype syscall =
    SysSocket
  | SysClose int
  | SysGetFlags int
  | SysSetFlags int int
  | SysSetsockopt int sockopt int
  | SysBind int sockaddr_in
  | SysListen int
  | SysAccept int
  | SysShutdownWr int
  | SysGetsockname int

text \<open>
  \<open>ret\<close> is the return value of a call, \<open>errno\<close> the error number after a failing one, \<open>addr_of\<close> the
  address the kernel writes for \<^verbatim>\<open>accept\<close> and \<^verbatim>\<open>getsockname\<close>.
\<close>

record kernel =
  ret :: "syscall \<Rightarrow> int"
  errno :: "syscall \<Rightarrow> int"
  addr_of :: "syscall \<Rightarrow> sockaddr_in"

type_synonym 'a sys = "syscall list \<times> 'a res"

section \<open>State and operations\<close>

record socket =
  sockfd :: int

definition Socket_ctor :: "int \<Rightarrow> socket" where
  "Socket_ctor fd = \<lparr>sockfd = fd\<rparr>"

definition Socket_close :: "socket \<Rightarrow> syscall list \<times> socket" where
  "Socket_close s = (if 0 \<le> sockfd s then ([SysClose (sockfd s)], s\<lparr>sockfd := -1\<rparr>) else ([], s))"

definition Socket_dtor :: "socket \<Rightarrow> syscall list" where
  "Socket_dtor s = fst (Socket_close s)"

definition Socket_move :: "socket \<Rightarrow> socket \<times> socket" where
  "Socket_move other = (\<lparr>sockfd = sockfd other\<rparr>, other\<lparr>sockfd := -1\<rparr>)"

text \<open>Move assignment; \<open>same\<close> is the test whether both are the same object.\<close>

definition Socket_move_assign :: "bool \<Rightarrow> socket \<Rightarrow> socket \<Rightarrow> syscall list \<times> socket \<times> socket" where
  "Socket_move_assign same this other =
     (if \<not> same
      then let (calls, this') = Socket_close this
           in (calls, this'\<lparr>sockfd := sockfd other\<rparr>, other\<lparr>sockfd := -1\<rparr>)
      else ([], this, other))"

definition sys_check :: "kernel \<Rightarrow> syscall \<Rightarrow> string \<Rightarrow> unit sys" where
  "sys_check k c what = ([c], if ret k c < 0 then Inl (SystemError (errno k c) what) else Inr ())"

definition createTcpSocket :: "kernel \<Rightarrow> socket sys" where
  "createTcpSocket k =
     ([SysSocket],
      if ret k SysSocket < 0 then Inl (SystemError (errno k SysSocket) ''socket creation failed'')
      else Inr (Socket_ctor (ret k SysSocket)))"

definition O_NONBLOCK :: int where
  "O_NONBLOCK = 4"

definition setNonBlocking :: "kernel \<Rightarrow> socket \<Rightarrow> unit sys" where
  "setNonBlocking k s =
     (let get = SysGetFlags (sockfd s); flags = ret k get in
      if flags < 0 then ([get], Inl (SystemError (errno k get) ''fcntl F_GETFL''))
      else let set = SysSetFlags (sockfd s) (flags OR O_NONBLOCK) in
        ([get, set], if ret k set < 0 then Inl (SystemError (errno k set) ''fcntl F_SETFL'') else Inr ()))"

definition setReuseAddr :: "kernel \<Rightarrow> socket \<Rightarrow> bool \<Rightarrow> unit sys" where
  "setReuseAddr k s on =
     sys_check k (SysSetsockopt (sockfd s) SO_REUSEADDR (if on then 1 else 0)) ''setsockopt SO_REUSEADDR''"

definition setReusePort :: "kernel \<Rightarrow> socket \<Rightarrow> bool \<Rightarrow> unit sys" where
  "setReusePort k s on =
     sys_check k (SysSetsockopt (sockfd s) SO_REUSEPORT (if on then 1 else 0)) ''setsockopt SO_REUSEPORT''"

definition setTcpNoDelay :: "kernel \<Rightarrow> socket \<Rightarrow> bool \<Rightarrow> unit sys" where
  "setTcpNoDelay k s on =
     sys_check k (SysSetsockopt (sockfd s) TCP_NODELAY (if on then 1 else 0)) ''setsockopt TCP_NODELAY''"

definition setKeepAlive :: "kernel \<Rightarrow> socket \<Rightarrow> bool \<Rightarrow> unit sys" where
  "setKeepAlive k s on =
     sys_check k (SysSetsockopt (sockfd s) SO_KEEPALIVE (if on then 1 else 0)) ''setsockopt SO_KEEPALIVE''"

definition Socket_bind :: "kernel \<Rightarrow> socket \<Rightarrow> sockaddr_in \<Rightarrow> unit sys" where
  "Socket_bind k s addr = sys_check k (SysBind (sockfd s) addr) ''bind''"

definition Socket_listen :: "kernel \<Rightarrow> socket \<Rightarrow> unit sys" where
  "Socket_listen k s = sys_check k (SysListen (sockfd s)) ''listen''"

text \<open>\<^verbatim>\<open>accept\<close> never throws: it returns the descriptor or -1 and, on success, fills \<open>peerAddr\<close>.\<close>

definition Socket_accept :: "kernel \<Rightarrow> socket \<Rightarrow> sockaddr_in \<Rightarrow> syscall list \<times> int \<times> sockaddr_in" where
  "Socket_accept k s peerAddr =
     (let acc = SysAccept (sockfd s); connfd = ret k acc in
      if 0 \<le> connfd
      then let get = SysGetFlags connfd in
        ([acc, get, SysSetFlags connfd (ret k get OR O_NONBLOCK)], connfd, setSockAddr peerAddr (addr_of k acc))
      else ([acc], connfd, peerAddr))"

definition shutdownWrite :: "socket \<Rightarrow> syscall list" where
  "shutdownWrite s = [SysShutdownWr (sockfd s)]"

definition getLocalAddr :: "kernel \<Rightarrow> int \<Rightarrow> sockaddr_in sys" where
  "getLocalAddr k fd =
     (let c = SysGetsockname fd in
      ([c], if ret k c < 0 then Inl (SystemError (errno k c) ''getsockname'')
            else Inr (InetAddress_raw (addr_of k c))))"

section \<open>Programs that own sockets\<close>

text \<open>
  A program's socket objects are a list of slots; \<open>None\<close> is an object whose lifetime ended. A
  program moves sockets around and destroys them.
\<close>

datatype sock_op = MoveCtor nat | MoveAssign nat nat | Destroy nat

fun sock_step :: "socket option list \<Rightarrow> sock_op \<Rightarrow> syscall list \<times> socket option list" where
  "sock_step ss (MoveCtor j) =
     (if j < length ss then
        case ss ! j of None \<Rightarrow> ([], ss)
        | Some other \<Rightarrow> (let (new, other') = Socket_move other in ([], ss[j := Some other'] @ [Some new]))
      else ([], ss))"
| "sock_step ss (MoveAssign i j) =
     (if i < length ss \<and> j < length ss then
        case (ss ! i, ss ! j) of
          (Some this, Some other) \<Rightarrow>
            (let (calls, this', other') = Socket_move_assign (i = j) this other
             in (calls, ss[i := Some this', j := Some other']))
        | _ \<Rightarrow> ([], ss)
      else ([], ss))"
| "sock_step ss (Destroy i) =
     (if i < length ss then
        case ss ! i of None \<Rightarrow> ([], ss) | Some s \<Rightarrow> (Socket_dtor s, ss[i := None])
      else ([], ss))"

fun sock_run :: "socket option list \<Rightarrow> sock_op list \<Rightarrow> syscall list \<times> socket option list" where
  "sock_run ss [] = ([], ss)"
| "sock_run ss (x # xs) =
     (let (calls, ss') = sock_step ss x; (calls', ss'') = sock_run ss' xs in (calls @ calls', ss''))"

definition slot_fds :: "socket option \<Rightarrow> int multiset" where
  "slot_fds o' = (case o' of Some s \<Rightarrow> if 0 \<le> sockfd s then {#sockfd s#} else {#} | None \<Rightarrow> {#})"

definition owned_fds :: "socket option list \<Rightarrow> int multiset" where
  "owned_fds ss = sum_list (map slot_fds ss)"

fun closed_fds :: "syscall list \<Rightarrow> int multiset" where
  "closed_fds [] = {#}"
| "closed_fds (SysClose fd # cs) = add_mset fd (closed_fds cs)"
| "closed_fds (_ # cs) = closed_fds cs"

section \<open>Ownership\<close>

lemma closed_fds_append [simp]: "closed_fds (cs @ cs') = closed_fds cs + closed_fds cs'"
  by (induction cs rule: closed_fds.induct) simp_all

lemma owned_fds_append [simp]: "owned_fds (ss @ ts) = owned_fds ss + owned_fds ts"
  by (simp add: owned_fds_def)

lemma owned_fds_update:
  assumes "i < length ss"
  shows "owned_fds (ss[i := x]) + slot_fds (ss ! i) = owned_fds ss + slot_fds x"
proof -
  have "ss = take i ss @ ss ! i # drop (Suc i) ss"
    using assms by (simp add: id_take_nth_drop)
  then have "owned_fds ss = owned_fds (take i ss) + slot_fds (ss ! i) + owned_fds (drop (Suc i) ss)"
    by (metis (no_types) add.assoc owned_fds_append owned_fds_def list.simps(9) sum_list.Cons)
  moreover have "owned_fds (ss[i := x]) = owned_fds (take i ss) + slot_fds x + owned_fds (drop (Suc i) ss)"
    using assms by (simp add: upd_conv_take_nth_drop owned_fds_def add.assoc)
  ultimately show ?thesis by (simp add: ac_simps)
qed


lemma slot_fds_simps [simp]:
  "slot_fds None = {#}"
  "slot_fds (Some s) = (if 0 \<le> sockfd s then {#sockfd s#} else {#})"
  by (simp_all add: slot_fds_def)

lemma closed_dtor [simp]: "closed_fds (Socket_dtor s) = slot_fds (Some s)"
  by (simp add: Socket_dtor_def Socket_close_def)

lemma exchange_owned:
  fixes a b t u v :: "int multiset"
  assumes "t + a = u + b" and "v + b = t"
  shows "a + v = u"
proof -
  have "(a + v) + b = u + b"
    using assms by (simp add: ac_simps)
  then show ?thesis by simp
qed

lemma move_assign_owned:
  assumes ab: "i < length ss" "j < length ss" "i \<noteq> j" "ss ! i = Some a" "ss ! j = Some b"
  shows "slot_fds (Some a) + owned_fds (ss[i := Some (a\<lparr>sockfd := sockfd b\<rparr>), j := Some (b\<lparr>sockfd := -1\<rparr>)]) = owned_fds ss"
proof -
  let ?a' = "Some (a\<lparr>sockfd := sockfd b\<rparr>)" and ?b' = "Some (b\<lparr>sockfd := -1\<rparr>)"
  have "owned_fds (ss[i := ?a']) + slot_fds (Some a) = owned_fds ss + slot_fds ?a'"
    using owned_fds_update [OF ab(1), of ?a'] ab(4) by simp
  moreover have "owned_fds (ss[i := ?a', j := ?b']) + slot_fds (Some b) = owned_fds (ss[i := ?a'])"
    using owned_fds_update [of j "ss[i := ?a']" ?b'] ab by simp
  moreover have "slot_fds ?a' = slot_fds (Some b)"
    by simp
  ultimately show ?thesis by (metis exchange_owned)
qed

lemma sock_step_owned:
  "sock_step ss x = (calls, ss') \<Longrightarrow> closed_fds calls + owned_fds ss' = owned_fds ss"
proof (cases x)
  case (MoveCtor j)
  assume step: "sock_step ss x = (calls, ss')"
  show ?thesis
  proof (cases "j < length ss \<and> ss ! j \<noteq> None")
    case True
    then obtain s where s: "j < length ss" "ss ! j = Some s" by auto
    have "owned_fds (ss[j := Some (s\<lparr>sockfd := -1\<rparr>)]) + slot_fds (Some s) = owned_fds ss"
      using owned_fds_update [OF s(1), of "Some (s\<lparr>sockfd := -1\<rparr>)"] s(2) by simp
    with step s MoveCtor show ?thesis
      by (auto simp: Socket_move_def owned_fds_def)
  next
    case False
    with step MoveCtor show ?thesis by (auto split: option.splits if_splits)
  qed
next
  case (MoveAssign i j)
  assume step: "sock_step ss x = (calls, ss')"
  show ?thesis
  proof (cases "i < length ss \<and> j < length ss \<and> i \<noteq> j \<and> ss ! i \<noteq> None \<and> ss ! j \<noteq> None")
    case True
    then obtain a b where ab: "i < length ss" "j < length ss" "i \<noteq> j" "ss ! i = Some a" "ss ! j = Some b"
      by auto
    with step MoveAssign move_assign_owned [OF ab] show ?thesis
      by (auto simp: Socket_move_assign_def Socket_close_def split: if_splits)
  next
    case False
    with step MoveAssign have "calls = [] \<and> ss' = ss"
      by (auto simp: Socket_move_assign_def list_update_same_conv split: option.splits if_splits)
    then show ?thesis by simp
  qed
next
  case (Destroy i)
  assume step: "sock_step ss x = (calls, ss')"
  show ?thesis
  proof (cases "i < length ss \<and> ss ! i \<noteq> None")
    case True
    then obtain a where a: "i < length ss" "ss ! i = Some a" by auto
    with step Destroy owned_fds_update [OF a(1), of None] show ?thesis
      by (auto simp: add.commute)
  next
    case False
    with step Destroy show ?thesis by (auto split: option.splits if_splits)
  qed
qed

lemma sock_run_owned:
  "sock_run ss xs = (calls, ss') \<Longrightarrow> closed_fds calls + owned_fds ss' = owned_fds ss"
proof (induction xs arbitrary: ss calls)
  case Nil
  then show ?case by simp
next
  case (Cons x xs)
  then obtain c1 s1 c2 where *: "sock_step ss x = (c1, s1)" "sock_run s1 xs = (c2, ss')" "calls = c1 @ c2"
    by (auto split: prod.splits)
  with Cons.IH [OF *(2)] sock_step_owned [OF *(1)] show ?case
    by (simp add: add.assoc)
qed

section \<open>Properties\<close>

text \<open>C25. Descriptor ownership: however a program moves its sockets around and destroys them, the
  descriptors closed so far together with those still owned are exactly the descriptors owned
  at the start, with multiplicity. No move leaks a descriptor and none is closed twice.\<close>

theorem socket_ownership:
  assumes "sock_run ss xs = (calls, ss')"
  shows "closed_fds calls + owned_fds ss' = owned_fds ss"
  using assms by (rule sock_run_owned)

theorem socket_ownership_witness:
  "closed_fds (fst (sock_run [Some (Socket_ctor 5), Some (Socket_ctor 7)] [MoveAssign 0 1, Destroy 0, Destroy 1]))
   = {#5, 7#}"
  using socket_ownership [of "[Some (Socket_ctor 5), Some (Socket_ctor 7)]" "[MoveAssign 0 1, Destroy 0, Destroy 1]"
      "fst (sock_run [Some (Socket_ctor 5), Some (Socket_ctor 7)] [MoveAssign 0 1, Destroy 0, Destroy 1])"
      "snd (sock_run [Some (Socket_ctor 5), Some (Socket_ctor 7)] [MoveAssign 0 1, Destroy 0, Destroy 1])"]
  by (simp add: Socket_ctor_def Socket_move_assign_def Socket_close_def owned_fds_def numeral_eq_Suc)

text \<open>When \<^verbatim>\<open>setNonBlocking\<close> returns normally it has read the flags and written them back with
  exactly the \<^verbatim>\<open>O_NONBLOCK\<close> bit added. \<^verbatim>\<open>accept\<close> does the same to the new descriptor, but without
  looking at the result of the read: if that fails (-1) it asks for every flag there is.\<close>

theorem nonblocking_flags:
  "(setNonBlocking k s = (calls, Inr ()) \<longrightarrow>
      (\<exists>flags. calls = [SysGetFlags (sockfd s), SysSetFlags (sockfd s) flags]
         \<and> (\<forall>n. bit flags n \<longleftrightarrow> n = 2 \<or> bit (ret k (SysGetFlags (sockfd s))) n)))
   \<and> (0 \<le> ret k (SysAccept (sockfd s)) \<longrightarrow> ret k (SysGetFlags (ret k (SysAccept (sockfd s)))) = -1 \<longrightarrow>
        SysSetFlags (ret k (SysAccept (sockfd s))) (-1) \<in> set (fst (Socket_accept k s p)))"
proof -
  have "bit O_NONBLOCK n \<longleftrightarrow> n = 2" for n
    unfolding O_NONBLOCK_def using bit_exp_iff [where 'a = int, of 2 n] by simp
  then show ?thesis
    by (auto simp: setNonBlocking_def Socket_accept_def Let_def bit_or_iff split: if_splits)
qed

theorem nonblocking_flags_witness:
  "\<exists>flags. fst (setNonBlocking \<lparr>ret = (\<lambda>_. 1), errno = (\<lambda>_. 0), addr_of = (\<lambda>_. sockaddr_zero)\<rparr> (Socket_ctor 3))
      = [SysGetFlags 3, SysSetFlags 3 flags] \<and> bit flags 2"
  using nonblocking_flags [of "\<lparr>ret = (\<lambda>_. 1), errno = (\<lambda>_. 0), addr_of = (\<lambda>_. sockaddr_zero)\<rparr>"
      "Socket_ctor 3" "[SysGetFlags 3, SysSetFlags 3 5]" sockaddr_zero]
  by (auto simp: setNonBlocking_def Socket_ctor_def O_NONBLOCK_def)

end
