(* ===== verification/Channel.thy ===== *)
theory Channel
  imports Hayai_Prelude
begin

text \<open>
  \<^verbatim>\<open>include/hayai/net/Channel.h\<close> and \<^verbatim>\<open>src/net/Channel.cc\<close>: the interest mask of one descriptor and the
  dispatch of what happened on it to four callbacks. A callback is a fallible transformer of the
  state of whatever owns the channel; that state is a type variable.
\<close>

unbundle bit_operations_syntax

section \<open>State and operations\<close>

definition kNoneEvent :: "32 word" where
  "kNoneEvent = 0"

definition kReadEvent :: "32 word" where
  "kReadEvent = 1"

definition kWriteEvent :: "32 word" where
  "kWriteEvent = 2"

definition kErrorEvent :: "32 word" where
  "kErrorEvent = 4"

definition kCloseEvent :: "32 word" where
  "kCloseEvent = 8"

text \<open>
  \<open>ch_loop\<close> identifies the owning loop and \<open>tie_obj\<close> the object of the weak pointer, if any.
\<close>

record channel =
  ch_loop :: nat
  ch_fd :: int
  events :: "32 word"
  revents :: "32 word"
  index :: int
  tie_obj :: "nat option"
  tied :: bool

record 's channel_callbacks =
  readCallback :: "('s \<Rightarrow> 's res) option"
  writeCallback :: "('s \<Rightarrow> 's res) option"
  closeCallback :: "('s \<Rightarrow> 's res) option"
  errorCallback :: "('s \<Rightarrow> 's res) option"

text \<open>A new channel has no callbacks; its owner sets them one by one.\<close>

definition no_channel_callbacks :: "'s channel_callbacks" where
  "no_channel_callbacks = \<lparr>readCallback = None, writeCallback = None, closeCallback = None, errorCallback = None\<rparr>"

definition Channel_setReadCallback :: "('s \<Rightarrow> 's res) option \<Rightarrow> 's channel_callbacks \<Rightarrow> 's channel_callbacks" where
  "Channel_setReadCallback cb cbs = cbs\<lparr>readCallback := cb\<rparr>"

definition Channel_setWriteCallback :: "('s \<Rightarrow> 's res) option \<Rightarrow> 's channel_callbacks \<Rightarrow> 's channel_callbacks" where
  "Channel_setWriteCallback cb cbs = cbs\<lparr>writeCallback := cb\<rparr>"

definition Channel_setCloseCallback :: "('s \<Rightarrow> 's res) option \<Rightarrow> 's channel_callbacks \<Rightarrow> 's channel_callbacks" where
  "Channel_setCloseCallback cb cbs = cbs\<lparr>closeCallback := cb\<rparr>"

definition Channel_setErrorCallback :: "('s \<Rightarrow> 's res) option \<Rightarrow> 's channel_callbacks \<Rightarrow> 's channel_callbacks" where
  "Channel_setErrorCallback cb cbs = cbs\<lparr>errorCallback := cb\<rparr>"

declare no_channel_callbacks_def [simp] Channel_setReadCallback_def [simp] Channel_setWriteCallback_def [simp]
  Channel_setCloseCallback_def [simp] Channel_setErrorCallback_def [simp]

definition Channel_ctor :: "nat \<Rightarrow> int \<Rightarrow> channel" where
  "Channel_ctor loop fd =
     \<lparr>ch_loop = loop, ch_fd = fd, events = 0, revents = 0, index = -1, tie_obj = None, tied = False\<rparr>"

definition tie :: "channel \<Rightarrow> nat \<Rightarrow> channel" where
  "tie ch obj = ch\<lparr>tie_obj := Some obj, tied := True\<rparr>"

definition isNoneEvent :: "channel \<Rightarrow> bool" where
  "isNoneEvent ch \<longleftrightarrow> events ch = kNoneEvent"

definition isReading :: "channel \<Rightarrow> bool" where
  "isReading ch \<longleftrightarrow> events ch AND kReadEvent \<noteq> 0"

definition isWriting :: "channel \<Rightarrow> bool" where
  "isWriting ch \<longleftrightarrow> events ch AND kWriteEvent \<noteq> 0"

definition setRevents :: "channel \<Rightarrow> 32 word \<Rightarrow> channel" where
  "setRevents ch revt = ch\<lparr>revents := revt\<rparr>"

definition setIndex :: "channel \<Rightarrow> int \<Rightarrow> channel" where
  "setIndex ch idx = ch\<lparr>index := idx\<rparr>"

text \<open>
  The five changes of the interest mask; in the source each is followed by \<^verbatim>\<open>update()\<close>, which the
  callers of these definitions perform on the poller.
\<close>

definition enableReading_mask :: "channel \<Rightarrow> channel" where
  "enableReading_mask ch = ch\<lparr>events := events ch OR kReadEvent\<rparr>"

definition disableReading_mask :: "channel \<Rightarrow> channel" where
  "disableReading_mask ch = ch\<lparr>events := events ch AND NOT kReadEvent\<rparr>"

definition enableWriting_mask :: "channel \<Rightarrow> channel" where
  "enableWriting_mask ch = ch\<lparr>events := events ch OR kWriteEvent\<rparr>"

definition disableWriting_mask :: "channel \<Rightarrow> channel" where
  "disableWriting_mask ch = ch\<lparr>events := events ch AND NOT kWriteEvent\<rparr>"

definition disableAll_mask :: "channel \<Rightarrow> channel" where
  "disableAll_mask ch = ch\<lparr>events := kNoneEvent\<rparr>"

definition call_if :: "bool \<Rightarrow> ('s \<Rightarrow> 's res) option \<Rightarrow> 's \<Rightarrow> 's res" where
  "call_if P cb s = (if P then (case cb of Some f \<Rightarrow> f s | None \<Rightarrow> Inr s) else Inr s)"

definition handleEventWithGuard :: "channel \<Rightarrow> 's channel_callbacks \<Rightarrow> 's \<Rightarrow> 's res" where
  "handleEventWithGuard ch cbs s =
     bind_res (call_if (revents ch AND kErrorEvent \<noteq> 0) (errorCallback cbs) s)
       (\<lambda>s1. bind_res (call_if (revents ch AND kCloseEvent \<noteq> 0) (closeCallback cbs) s1)
         (\<lambda>s2. bind_res (call_if (revents ch AND kReadEvent \<noteq> 0) (readCallback cbs) s2)
           (\<lambda>s3. call_if (revents ch AND kWriteEvent \<noteq> 0) (writeCallback cbs) s3)))"

text \<open>\<open>alive\<close> tells which objects still have an owner, so that \<^verbatim>\<open>tie_.lock()\<close> yields a pointer.\<close>

definition handleEvent :: "(nat \<Rightarrow> bool) \<Rightarrow> channel \<Rightarrow> 's channel_callbacks \<Rightarrow> 's \<Rightarrow> 's res" where
  "handleEvent alive ch cbs s =
     (if tied ch
      then (if (case tie_obj ch of Some obj \<Rightarrow> alive obj | None \<Rightarrow> False)
            then handleEventWithGuard ch cbs s else Inr s)
      else handleEventWithGuard ch cbs s)"

text \<open>Sequences of interest changes, on the mask and on the pair of flags it stands for.\<close>

datatype mask_op = EnableReading | DisableReading | EnableWriting | DisableWriting | DisableAll

fun mask_step :: "channel \<Rightarrow> mask_op \<Rightarrow> channel" where
  "mask_step ch EnableReading = enableReading_mask ch"
| "mask_step ch DisableReading = disableReading_mask ch"
| "mask_step ch EnableWriting = enableWriting_mask ch"
| "mask_step ch DisableWriting = disableWriting_mask ch"
| "mask_step ch DisableAll = disableAll_mask ch"

fun flag_step :: "bool \<times> bool \<Rightarrow> mask_op \<Rightarrow> bool \<times> bool" where
  "flag_step (r, w) EnableReading = (True, w)"
| "flag_step (r, w) DisableReading = (False, w)"
| "flag_step (r, w) EnableWriting = (r, True)"
| "flag_step (r, w) DisableWriting = (r, False)"
| "flag_step (r, w) DisableAll = (False, False)"

definition mask_ok :: "channel \<Rightarrow> bool" where
  "mask_ok ch \<longleftrightarrow> (\<forall>n. bit (events ch) n \<longrightarrow> n = 0 \<or> n = 1)"

definition mask_inv :: "int \<Rightarrow> channel \<Rightarrow> bool \<times> bool \<Rightarrow> bool" where
  "mask_inv fd ch flags \<longleftrightarrow> mask_ok ch \<and> (isReading ch, isWriting ch) = flags \<and> ch_fd ch = fd"

section \<open>The interest mask\<close>

lemmas event_masks = kNoneEvent_def kReadEvent_def kWriteEvent_def kErrorEvent_def kCloseEvent_def

lemma and_mask_bit:
  "(w AND 1 \<noteq> 0) = bit w 0" "(w AND 2 \<noteq> 0) = bit w 1" "(w AND 4 \<noteq> 0) = bit w 2" "(w AND 8 \<noteq> 0) = bit w 3"
  for w :: "32 word"
proof -
  have "(w AND push_bit n 1 \<noteq> 0) = bit w n" if "n < 32" for n
    using that and_exp_eq_0_iff_not_bit [of w n] by (simp add: push_bit_eq_mult)
  from this [of 0] this [of 1] this [of 2] this [of 3]
  show "(w AND 1 \<noteq> 0) = bit w 0" "(w AND 2 \<noteq> 0) = bit w 1" "(w AND 4 \<noteq> 0) = bit w 2" "(w AND 8 \<noteq> 0) = bit w 3"
    by (simp_all add: push_bit_eq_mult)
qed

lemma bit_masks:
  "bit (1 :: 32 word) n \<longleftrightarrow> n = 0" "bit (2 :: 32 word) n \<longleftrightarrow> n = 1"
  "bit (4 :: 32 word) n \<longleftrightarrow> n = 2" "bit (8 :: 32 word) n \<longleftrightarrow> n = 3"
  using bit_exp_iff [where 'a = "32 word", of 0 n] bit_exp_iff [where 'a = "32 word", of 1 n]
    bit_exp_iff [where 'a = "32 word", of 2 n] bit_exp_iff [where 'a = "32 word", of 3 n]
  by auto

lemma bit_events [simp]:
  "bit kReadEvent n \<longleftrightarrow> n = 0" "bit kWriteEvent n \<longleftrightarrow> n = 1" "\<not> bit kNoneEvent n"
  by (simp_all only: event_masks bit_masks) simp

lemma isReading_bit: "isReading ch \<longleftrightarrow> bit (events ch) 0"
  by (simp add: isReading_def kReadEvent_def and_mask_bit)

lemma isWriting_bit: "isWriting ch \<longleftrightarrow> bit (events ch) 1"
  by (simp add: isWriting_def kWriteEvent_def and_mask_bit)

lemma mask_reading [simp]:
  "isReading (enableReading_mask ch)" "\<not> isReading (disableReading_mask ch)"
  "isReading (enableWriting_mask ch) = isReading ch" "isReading (disableWriting_mask ch) = isReading ch"
  "\<not> isReading (disableAll_mask ch)"
  by (simp_all add: isReading_bit enableReading_mask_def disableReading_mask_def enableWriting_mask_def
      disableWriting_mask_def disableAll_mask_def bit_or_iff bit_and_iff bit_not_iff)

lemma mask_writing [simp]:
  "isWriting (enableReading_mask ch) = isWriting ch" "isWriting (disableReading_mask ch) = isWriting ch"
  "isWriting (enableWriting_mask ch)" "\<not> isWriting (disableWriting_mask ch)"
  "\<not> isWriting (disableAll_mask ch)"
  by (simp_all add: isWriting_bit enableReading_mask_def disableReading_mask_def enableWriting_mask_def
      disableWriting_mask_def disableAll_mask_def bit_or_iff bit_and_iff bit_not_iff)

lemma mask_frame [simp]:
  "ch_fd (enableReading_mask ch) = ch_fd ch" "ch_fd (disableReading_mask ch) = ch_fd ch"
  "ch_fd (enableWriting_mask ch) = ch_fd ch" "ch_fd (disableWriting_mask ch) = ch_fd ch"
  "ch_fd (disableAll_mask ch) = ch_fd ch"
  "index (enableReading_mask ch) = index ch" "index (disableReading_mask ch) = index ch"
  "index (enableWriting_mask ch) = index ch" "index (disableWriting_mask ch) = index ch"
  "index (disableAll_mask ch) = index ch"
  "ch_loop (enableReading_mask ch) = ch_loop ch" "ch_loop (disableReading_mask ch) = ch_loop ch"
  "ch_loop (enableWriting_mask ch) = ch_loop ch" "ch_loop (disableWriting_mask ch) = ch_loop ch"
  "ch_loop (disableAll_mask ch) = ch_loop ch"
  by (simp_all add: enableReading_mask_def disableReading_mask_def enableWriting_mask_def
      disableWriting_mask_def disableAll_mask_def)

lemma Channel_ctor_simps [simp]:
  "\<not> isReading (Channel_ctor l fd)" "\<not> isWriting (Channel_ctor l fd)" "index (Channel_ctor l fd) = -1"
  "ch_fd (Channel_ctor l fd) = fd" "ch_loop (Channel_ctor l fd) = l" "isNoneEvent (Channel_ctor l fd)"
  by (simp_all add: isReading_def isWriting_def isNoneEvent_def kNoneEvent_def Channel_ctor_def)

lemma isNoneEvent_iff: "mask_ok ch \<Longrightarrow> isNoneEvent ch \<longleftrightarrow> \<not> isReading ch \<and> \<not> isWriting ch"
proof
  assume ok: "mask_ok ch" and off: "\<not> isReading ch \<and> \<not> isWriting ch"
  then have "\<not> bit (events ch) n" for n
    by (auto simp: mask_ok_def isReading_bit isWriting_bit)
  then show "isNoneEvent ch"
    by (auto simp: isNoneEvent_def kNoneEvent_def intro: bit_eqI)
qed (auto simp: isNoneEvent_def isReading_def isWriting_def kNoneEvent_def)

lemma mask_step_inv: "mask_inv fd ch flags \<Longrightarrow> mask_inv fd (mask_step ch x) (flag_step flags x)"
proof -
  assume inv: "mask_inv fd ch flags"
  then have "mask_ok (mask_step ch x)"
    by (cases x) (auto simp: mask_inv_def mask_ok_def enableReading_mask_def disableReading_mask_def
        enableWriting_mask_def disableWriting_mask_def disableAll_mask_def
        bit_or_iff bit_and_iff)
  with inv show ?thesis
    by (cases flags; cases x) (simp_all add: mask_inv_def)
qed

lemma mask_run_inv:
  "mask_inv fd (foldl mask_step (Channel_ctor l fd) ops) (foldl flag_step (False, False) ops)"
proof (induction ops rule: rev_induct)
  case Nil
  show ?case by (simp add: mask_inv_def mask_ok_def) (simp add: Channel_ctor_def)
next
  case (snoc x ops)
  then show ?case by (simp add: mask_step_inv)
qed

section \<open>Dispatch\<close>

text \<open>
  The reference for the dispatch: the callbacks that are present and whose event is set, in the
  order error, close, read, write, run one after another until one faults.
\<close>

definition due_callbacks :: "channel \<Rightarrow> 's channel_callbacks \<Rightarrow> ('s \<Rightarrow> 's res) list" where
  "due_callbacks ch cbs =
     [f. (n, cb) \<leftarrow> [(2, errorCallback cbs), (3, closeCallback cbs), (0, readCallback cbs), (1, writeCallback cbs)],
         bit (revents ch) n, f \<leftarrow> (case cb of Some f \<Rightarrow> [f] | None \<Rightarrow> [])]"

fun run_all :: "('s \<Rightarrow> 's res) list \<Rightarrow> 's \<Rightarrow> 's res" where
  "run_all [] s = Inr s"
| "run_all (f # fs) s = bind_res (f s) (run_all fs)"

lemma run_all_append: "run_all (fs @ gs) = (\<lambda>s. bind_res (run_all fs s) (run_all gs))"
proof
  show "run_all (fs @ gs) s = bind_res (run_all fs s) (run_all gs)" for s
    by (induction fs arbitrary: s) (simp_all add: bind_res_assoc cong: bind_res_cong)
qed

lemma run_all_Nil [simp]: "run_all [] = Inr"
  by (rule ext) simp

lemma call_if_run_all:
  "call_if P cb s = run_all (if P then (case cb of Some f \<Rightarrow> [f] | None \<Rightarrow> []) else []) s"
  by (simp add: call_if_def split: option.splits)

lemma handleEventWithGuard_run_all: "handleEventWithGuard ch cbs s = run_all (due_callbacks ch cbs) s"
  by (simp add: handleEventWithGuard_def due_callbacks_def call_if_run_all event_masks and_mask_bit
      run_all_append)

section \<open>Properties\<close>

text \<open>Dispatch: an untied channel, or one whose owner is alive, runs exactly the installed callbacks
  whose events occurred, in the order error, close, read, write, stopping at the first fault; a
  channel tied to an object that is gone runs nothing.\<close>

theorem handleEvent_dispatch:
  "handleEvent alive ch cbs s =
     (if tied ch \<and> \<not> (\<exists>obj. tie_obj ch = Some obj \<and> alive obj) then Inr s
      else run_all (due_callbacks ch cbs) s)"
  by (auto simp: handleEvent_def handleEventWithGuard_run_all split: option.splits)

text \<open>The interest mask refines a pair of independent flags: after any sequence of the five
  enable and disable operations on a new channel, \<^verbatim>\<open>isReading\<close> and \<^verbatim>\<open>isWriting\<close> are what the two flags
  are, and \<^verbatim>\<open>isNoneEvent\<close> holds exactly when both are off.\<close>

theorem interest_mask_refines:
  "let ch = foldl mask_step (Channel_ctor l fd) ops; flags = foldl flag_step (False, False) ops in
     (isReading ch, isWriting ch) = flags \<and> (isNoneEvent ch \<longleftrightarrow> flags = (False, False)) \<and> ch_fd ch = fd"
  using mask_run_inv [of fd l ops] by (auto simp: mask_inv_def isNoneEvent_iff Let_def)

end
