(* ===== verification/Poller.thy ===== *)
theory Poller
  imports Channel
begin

text \<open>
  The kqueue wrapper of \<^verbatim>\<open>include/hayai/net/Poller.h\<close> and \<^verbatim>\<open>src/net/Poller.cc\<close>. Channels are identified by
  their addresses (naturals) in a heap of channels. The kernel queue is a parameter: a state
  \<open>'k\<close> with the operation that applies a change list; what the manual page says of it is the named
  hypothesis \<open>kqueue_documented\<close>.
\<close>

section \<open>Kernel events\<close>

datatype kfilter = EVFILT_READ | EVFILT_WRITE

datatype kchange = EvAdd int kfilter nat | EvDelete int kfilter

text \<open>
  One returned event: the filter, the two flags the code looks at and the channel address that was
  given as \<^verbatim>\<open>udata\<close>.
\<close>

record kevent =
  kev_filter :: kfilter
  EV_EOF :: bool
  EV_ERROR :: bool
  kev_udata :: nat

type_synonym kregs = "int \<times> kfilter \<rightharpoonup> nat"

text \<open>
  The manual page: changes are applied in order; deleting an event that is not registered is an
  error, and with an empty event list for the results the call returns at the first error without
  applying the rest.
\<close>

fun apply_changes :: "kregs \<Rightarrow> kchange list \<Rightarrow> kregs" where
  "apply_changes r [] = r"
| "apply_changes r (EvAdd fd f u # cs) = apply_changes (r((fd, f) \<mapsto> u)) cs"
| "apply_changes r (EvDelete fd f # cs) =
     (if r (fd, f) = None then r else apply_changes (r((fd, f) := None)) cs)"

definition kqueue_documented :: "('k \<Rightarrow> kchange list \<Rightarrow> 'k) \<Rightarrow> ('k \<Rightarrow> kregs) \<Rightarrow> bool" where
  "kqueue_documented kevent_change regs \<longleftrightarrow> (\<forall>k cs. regs (kevent_change k cs) = apply_changes (regs k) cs)"

section \<open>State and operations\<close>

record 'k poller =
  kqueue :: 'k
  ev_capacity :: nat
  kqueueFd :: int
  channels :: "int \<rightharpoonup> nat"

type_synonym chan_heap = "nat \<rightharpoonup> channel"

definition Poller_ctor :: "int \<Rightarrow> 'k \<Rightarrow> 'k poller res" where
  "Poller_ctor kq k =
     (if kq < 0 then Inl Aborted
      else Inr \<lparr>kqueue = k, ev_capacity = 16, kqueueFd = kq, channels = Map.empty\<rparr>)"

text \<open>The descriptors a destructor closes.\<close>

definition Poller_dtor :: "'k poller \<Rightarrow> int list" where
  "Poller_dtor p = [kqueueFd p]"

text \<open>The \<^verbatim>\<open>timespec\<close> of a poll timeout in milliseconds (not negative in the program).\<close>

definition poll_timespec :: "nat \<Rightarrow> nat \<times> nat" where
  "poll_timespec ms = (ms div 1000, (ms mod 1000) * 1000000)"

definition event_revents :: "kevent \<Rightarrow> 32 word" where
  "event_revents e =
     (if kev_filter e = EVFILT_READ then kReadEvent else 0) OR
     (if kev_filter e = EVFILT_WRITE then kWriteEvent else 0) OR
     (if EV_EOF e then kCloseEvent else 0) OR
     (if EV_ERROR e then kErrorEvent else 0)"

text \<open>An event whose channel is gone from the heap is an access through a dangling pointer.\<close>

fun fillActiveChannels :: "kevent list \<Rightarrow> chan_heap \<Rightarrow> nat list \<Rightarrow> (chan_heap \<times> nat list) res" where
  "fillActiveChannels [] h active = Inr (h, active)"
| "fillActiveChannels (e # es) h active =
     (case h (kev_udata e) of
        None \<Rightarrow> Inl UseAfterFree
      | Some ch \<Rightarrow> fillActiveChannels es (h(kev_udata e \<mapsto> setRevents ch (event_revents e)))
                     (active @ [kev_udata e]))"

text \<open>
  \<open>answer\<close> is what \<^verbatim>\<open>kevent\<close> returns for the given room: an error number or the events.
\<close>

definition poll :: "(nat \<Rightarrow> int + kevent list) \<Rightarrow> 'k poller \<Rightarrow> chan_heap \<Rightarrow> nat list \<Rightarrow>
    ('k poller \<times> chan_heap \<times> nat list) res" where
  "poll answer p h active =
     (case answer (ev_capacity p) of
        Inl errno \<Rightarrow> Inr (p, h, active)
      | Inr evs \<Rightarrow>
          if 0 < length evs
          then bind_res (fillActiveChannels evs h active)
                 (\<lambda>(h', active'). Inr
                    (if length evs = ev_capacity p then p\<lparr>ev_capacity := ev_capacity p * 2\<rparr> else p,
                     h', active'))
          else Inr (p, h, active))"

definition update_changes :: "nat \<Rightarrow> channel \<Rightarrow> kchange list" where
  "update_changes c ch =
     [if isReading ch then EvAdd (ch_fd ch) EVFILT_READ c else EvDelete (ch_fd ch) EVFILT_READ,
      if isWriting ch then EvAdd (ch_fd ch) EVFILT_WRITE c else EvDelete (ch_fd ch) EVFILT_WRITE]"

definition Poller_updateChannel :: "('k \<Rightarrow> kchange list \<Rightarrow> 'k) \<Rightarrow> 'k poller \<Rightarrow> nat \<Rightarrow> channel \<Rightarrow> 'k poller" where
  "Poller_updateChannel kevent_change p c ch =
     p\<lparr>channels := (channels p)(ch_fd ch \<mapsto> c),
       kqueue := kevent_change (kqueue p) (update_changes c ch)\<rparr>"

definition Poller_removeChannel :: "('k \<Rightarrow> kchange list \<Rightarrow> 'k) \<Rightarrow> 'k poller \<Rightarrow> channel \<Rightarrow> 'k poller res" where
  "Poller_removeChannel kevent_change p ch =
     bind_res (check (channels p (ch_fd ch) \<noteq> None) AssertFailed)
       (\<lambda>_. Inr (p\<lparr>channels := (channels p)(ch_fd ch := None),
                   kqueue := kevent_change (kqueue p)
                     [EvDelete (ch_fd ch) EVFILT_READ, EvDelete (ch_fd ch) EVFILT_WRITE]\<rparr>))"

text \<open>The kernel watches a channel for exactly what its mask asks for.\<close>

definition watched :: "kregs \<Rightarrow> nat \<Rightarrow> channel \<Rightarrow> bool" where
  "watched r c ch \<longleftrightarrow>
     r (ch_fd ch, EVFILT_READ) = (if isReading ch then Some c else None) \<and>
     r (ch_fd ch, EVFILT_WRITE) = (if isWriting ch then Some c else None)"

section \<open>Registration\<close>

lemma update_other_fd:
  "fd \<noteq> ch_fd ch \<Longrightarrow> apply_changes r (update_changes c ch) (fd, f) = r (fd, f)"
  by (simp add: update_changes_def)

lemma update_watched:
  assumes "isReading ch \<or> r (ch_fd ch, EVFILT_READ) \<noteq> None"
  shows "watched (apply_changes r (update_changes c ch)) c ch"
  using assms by (auto simp: watched_def update_changes_def)

lemma update_write_only_lost:
  assumes "\<not> isReading ch" and "r (ch_fd ch, EVFILT_READ) = None"
  shows "apply_changes r (update_changes c ch) = r"
  using assms by (simp add: update_changes_def)

lemma remove_unwatched:
  assumes "r (ch_fd ch, EVFILT_READ) \<noteq> None \<or> r (ch_fd ch, EVFILT_WRITE) = None"
  shows "apply_changes r [EvDelete (ch_fd ch) EVFILT_READ, EvDelete (ch_fd ch) EVFILT_WRITE] (ch_fd ch, f) = None"
  using assms by (cases f) auto


section \<open>Active channels\<close>

lemma fillActiveChannels_active:
  "fillActiveChannels es h a = Inr (h', a') \<Longrightarrow> a' = a @ map kev_udata es"
  by (induction es arbitrary: h a) (fastforce split: option.splits)+

lemma fillActiveChannels_total:
  "(\<And>e. e \<in> set es \<Longrightarrow> h (kev_udata e) \<noteq> None) \<Longrightarrow> \<exists>h' a'. fillActiveChannels es h a = Inr (h', a')"
proof (induction es arbitrary: h a)
  case Nil
  then show ?case by simp
next
  case (Cons e es)
  then obtain ch where "h (kev_udata e) = Some ch" by fastforce
  moreover have "\<exists>h' a'. fillActiveChannels es (h(kev_udata e \<mapsto> setRevents ch (event_revents e)))
      (a @ [kev_udata e]) = Inr (h', a')"
    using Cons.prems by (intro Cons.IH) auto
  ultimately show ?case by simp
qed

text \<open>The last event of a channel decides its \<open>revents\<close>.\<close>

lemma fillActiveChannels_heap:
  "fillActiveChannels es h a = Inr (h', a') \<Longrightarrow>
     h' c = (case find (\<lambda>e. kev_udata e = c) (rev es) of
               None \<Rightarrow> h c
             | Some e \<Rightarrow> map_option (\<lambda>ch. setRevents ch (event_revents e)) (h c))"
proof (induction es arbitrary: h a)
  case Nil
  then show ?case by simp
next
  case (Cons e es)
  then obtain ch where ch: "h (kev_udata e) = Some ch"
      "fillActiveChannels es (h(kev_udata e \<mapsto> setRevents ch (event_revents e))) (a @ [kev_udata e]) = Inr (h', a')"
    by (auto split: option.splits)
  have "find P (xs @ [x]) = (case find P xs of None \<Rightarrow> if P x then Some x else None | Some y \<Rightarrow> Some y)"
    for P xs and x :: kevent
    by (induction xs) auto
  with Cons.IH [OF ch(2)] ch(1) show ?case
    by (auto simp: setRevents_def split: option.splits)
qed

lemma event_revents_bits:
  "bit (event_revents e) 0 \<longleftrightarrow> kev_filter e = EVFILT_READ"
  "bit (event_revents e) 1 \<longleftrightarrow> kev_filter e = EVFILT_WRITE"
  "bit (event_revents e) 2 \<longleftrightarrow> EV_ERROR e"
  "bit (event_revents e) 3 \<longleftrightarrow> EV_EOF e"
proof -
  have "bit kErrorEvent n \<longleftrightarrow> n = 2" "bit kCloseEvent n \<longleftrightarrow> n = 3" for n
    by (simp_all only: event_masks bit_masks)
  then show "bit (event_revents e) 0 \<longleftrightarrow> kev_filter e = EVFILT_READ"
    "bit (event_revents e) 1 \<longleftrightarrow> kev_filter e = EVFILT_WRITE"
    "bit (event_revents e) 2 \<longleftrightarrow> EV_ERROR e" "bit (event_revents e) 3 \<longleftrightarrow> EV_EOF e"
    by (cases "kev_filter e"; simp add: event_revents_def bit_or_iff)+
qed

section \<open>Properties\<close>

text \<open>C36. \<^verbatim>\<open>updateChannel\<close> and the kernel agree: afterwards the kernel watches the channel for exactly
  what its mask asks for if the mask includes reading, or the read filter was registered before,
  or the registration was right already. In the remaining case (no read interest and none
  registered) the failing deletion of the read filter comes first and the requested change of
  the write filter is never applied. Other descriptors are untouched.\<close>

theorem updateChannel_watches:
  assumes "kqueue_documented kevent_change regs"
  shows "let p' = Poller_updateChannel kevent_change p c ch in
     channels p' (ch_fd ch) = Some c
     \<and> (watched (regs (kqueue p')) c ch \<longleftrightarrow>
          isReading ch \<or> regs (kqueue p) (ch_fd ch, EVFILT_READ) \<noteq> None \<or> watched (regs (kqueue p)) c ch)
     \<and> (\<forall>fd f. fd \<noteq> ch_fd ch \<longrightarrow> regs (kqueue p') (fd, f) = regs (kqueue p) (fd, f))"
proof -
  have r: "regs (kqueue (Poller_updateChannel kevent_change p c ch))
      = apply_changes (regs (kqueue p)) (update_changes c ch)"
    using assms by (simp add: Poller_updateChannel_def kqueue_documented_def)
  have "watched (apply_changes (regs (kqueue p)) (update_changes c ch)) c ch \<longleftrightarrow>
      isReading ch \<or> regs (kqueue p) (ch_fd ch, EVFILT_READ) \<noteq> None \<or> watched (regs (kqueue p)) c ch"
    using update_watched [of ch "regs (kqueue p)" c] update_write_only_lost [of ch "regs (kqueue p)" c]
    by metis
  then show ?thesis
    by (simp add: Let_def r update_other_fd) (simp add: Poller_updateChannel_def)
qed

theorem updateChannel_watches_witness:
  "\<not> watched (kqueue (Poller_updateChannel apply_changes
       \<lparr>kqueue = Map.empty, ev_capacity = 16, kqueueFd = 3, channels = Map.empty\<rparr> 1
       (enableWriting_mask (Channel_ctor 0 5)))) 1 (enableWriting_mask (Channel_ctor 0 5))"
  using updateChannel_watches [of apply_changes "\<lambda>r. r"
      "\<lparr>kqueue = Map.empty, ev_capacity = 16, kqueueFd = 3, channels = Map.empty\<rparr>" 1 "enableWriting_mask (Channel_ctor 0 5)"]
  by (simp add: kqueue_documented_def watched_def Let_def)

text \<open>The active list of a poll is the channels of the returned events in order, with repetition, and
  the events a channel will be asked to handle are those of the last event that names it. A
  descriptor that is ready for both reading and writing gives two events for one channel: the
  channel is listed twice and only the later event's flags survive.\<close>

theorem fillActiveChannels_last_event:
  assumes "fillActiveChannels es h a = Inr (h', a')"
  shows "a' = a @ map kev_udata es
    \<and> h' c = (case find (\<lambda>e. kev_udata e = c) (rev es) of
               None \<Rightarrow> h c
             | Some e \<Rightarrow> map_option (\<lambda>ch. setRevents ch (event_revents e)) (h c))"
  using fillActiveChannels_active [OF assms] fillActiveChannels_heap [OF assms] by blast

theorem fillActiveChannels_last_event_witness:
  "\<exists>h'. fillActiveChannels
       [\<lparr>kev_filter = EVFILT_READ, EV_EOF = False, EV_ERROR = False, kev_udata = 1\<rparr>,
        \<lparr>kev_filter = EVFILT_WRITE, EV_EOF = False, EV_ERROR = False, kev_udata = 1\<rparr>]
       [1 \<mapsto> Channel_ctor 0 5] [] = Inr (h', [1, 1])
     \<and> h' 1 = Some ((Channel_ctor 0 5)\<lparr>revents := kWriteEvent\<rparr>)"
proof -
  let ?es = "[\<lparr>kev_filter = EVFILT_READ, EV_EOF = False, EV_ERROR = False, kev_udata = 1\<rparr>,
        \<lparr>kev_filter = EVFILT_WRITE, EV_EOF = False, EV_ERROR = False, kev_udata = 1\<rparr>]"
  have "\<exists>h' a'. fillActiveChannels ?es [1 \<mapsto> Channel_ctor 0 5] [] = Inr (h', a')"
    by (rule fillActiveChannels_total) auto
  then obtain h' a' where fill: "fillActiveChannels ?es [1 \<mapsto> Channel_ctor 0 5] [] = Inr (h', a')"
    by blast
  from fillActiveChannels_last_event [OF fill, of 1] fill show ?thesis
    by (simp add: setRevents_def event_revents_def)
qed

end
