(* ===== verification/EventLoop.thy ===== *)
theory EventLoop
  imports Poller
begin

text \<open>
  The reactor of \<^verbatim>\<open>include/hayai/net/EventLoop.h\<close> and \<^verbatim>\<open>src/net/EventLoop.cc\<close>. First every member function
  as a state transformer: threads are naturals and each call says which thread makes it; a
  functor is a value of a type \<open>'f\<close> that the parameter \<open>exec\<close> runs on the loop and the rest of the
  program's state. Then the interleaving of the loop thread with other threads that queue
  functors and ask it to quit, as a step relation over the same definitions, for the properties
  that depend on it: no lost wakeup, order and exactly-once execution, delivery of \<^verbatim>\<open>quit\<close>.
\<close>

section \<open>State\<close>

text \<open>
  \<open>wakeup_words\<close> counts the unread 8-byte words in the wakeup pipe, \<open>loop_chans\<close> is the heap of
  channels whose addresses the poller hands out.
\<close>

record ('k, 'f) event_loop =
  loop_id :: nat
  looping :: bool
  quit_flag :: bool
  eventHandling :: bool
  callingPendingFunctors :: bool
  threadId :: nat
  loop_poller :: "'k poller"
  loop_chans :: chan_heap
  wakeup_chan :: nat
  wakeup_words :: nat
  wakeupFd :: "int \<times> int"
  activeChannels :: "nat list"
  pendingFunctors :: "'f list"
  spawnedTasks :: "nat set"

text \<open>\<^verbatim>\<open>t_loopInThisThread\<close>: for every thread, the loop it created.\<close>

type_synonym thread_locals = "nat \<rightharpoonup> nat"

section \<open>Member functions\<close>

definition isInLoopThread :: "nat \<Rightarrow> ('k, 'f) event_loop \<Rightarrow> bool" where
  "isInLoopThread me l \<longleftrightarrow> threadId l = me"

definition assertInLoopThread :: "nat \<Rightarrow> ('k, 'f) event_loop \<Rightarrow> unit res" where
  "assertInLoopThread me l = check (isInLoopThread me l) Aborted"

definition wakeup :: "('k, 'f) event_loop \<Rightarrow> ('k, 'f) event_loop" where
  "wakeup l = l\<lparr>wakeup_words := Suc (wakeup_words l)\<rparr>"

text \<open>The read end is non-blocking: reading an empty pipe changes nothing.\<close>

definition handleWakeup :: "('k, 'f) event_loop \<Rightarrow> ('k, 'f) event_loop" where
  "handleWakeup l = l\<lparr>wakeup_words := wakeup_words l - 1\<rparr>"

definition quit :: "nat \<Rightarrow> ('k, 'f) event_loop \<Rightarrow> ('k, 'f) event_loop" where
  "quit me l = (let l1 = l\<lparr>quit_flag := True\<rparr> in if isInLoopThread me l1 then l1 else wakeup l1)"

text \<open>\<^verbatim>\<open>queueInLoop\<close> is its locked push followed by the test whether to wake the loop.\<close>

definition queue_push :: "'f \<Rightarrow> ('k, 'f) event_loop \<Rightarrow> ('k, 'f) event_loop" where
  "queue_push cb l = l\<lparr>pendingFunctors := pendingFunctors l @ [cb]\<rparr>"

definition queue_needs_wakeup :: "nat \<Rightarrow> ('k, 'f) event_loop \<Rightarrow> bool" where
  "queue_needs_wakeup me l \<longleftrightarrow> \<not> isInLoopThread me l \<or> callingPendingFunctors l"

definition queueInLoop :: "nat \<Rightarrow> 'f \<Rightarrow> ('k, 'f) event_loop \<Rightarrow> ('k, 'f) event_loop" where
  "queueInLoop me cb l =
     (let l1 = queue_push cb l in if queue_needs_wakeup me l1 then wakeup l1 else l1)"

type_synonym ('k, 'f, 'w) exec = "'f \<Rightarrow> ('k, 'f) event_loop \<times> 'w \<Rightarrow> (('k, 'f) event_loop \<times> 'w) res"

definition runInLoop :: "('k, 'f, 'w) exec \<Rightarrow> nat \<Rightarrow> 'f \<Rightarrow> ('k, 'f) event_loop \<times> 'w \<Rightarrow>
    (('k, 'f) event_loop \<times> 'w) res" where
  "runInLoop exec me cb s =
     (if isInLoopThread me (fst s) then exec cb s else Inr (queueInLoop me cb (fst s), snd s))"

definition updateChannel :: "('k \<Rightarrow> kchange list \<Rightarrow> 'k) \<Rightarrow> nat \<Rightarrow> channel \<Rightarrow> ('k, 'f) event_loop \<Rightarrow>
    ('k, 'f) event_loop res" where
  "updateChannel kevent_change c ch l =
     bind_res (check (ch_loop ch = loop_id l) AssertFailed)
       (\<lambda>_. Inr (l\<lparr>loop_poller := Poller_updateChannel kevent_change (loop_poller l) c ch,
                   loop_chans := (loop_chans l)(c \<mapsto> ch)\<rparr>))"

definition removeChannel :: "('k \<Rightarrow> kchange list \<Rightarrow> 'k) \<Rightarrow> channel \<Rightarrow> ('k, 'f) event_loop \<Rightarrow>
    ('k, 'f) event_loop res" where
  "removeChannel kevent_change ch l =
     bind_res (check (ch_loop ch = loop_id l) AssertFailed)
       (\<lambda>_. bind_res (Poller_removeChannel kevent_change (loop_poller l) ch)
         (\<lambda>p. Inr (l\<lparr>loop_poller := p\<rparr>)))"

text \<open>
  Construction on thread \<open>me\<close>: \<open>kqueueFd\<close> and \<open>pipe_ret\<close> are what \<^verbatim>\<open>kqueue\<close> and \<^verbatim>\<open>pipe\<close> returned,
  \<open>fds\<close> the read and the write end and \<open>c\<close> the address of the wakeup channel. The read end is made
  non-blocking, the write end is not.
\<close>

definition EventLoop_ctor :: "('k \<Rightarrow> kchange list \<Rightarrow> 'k) \<Rightarrow> nat \<Rightarrow> nat \<Rightarrow> int \<Rightarrow> 'k \<Rightarrow> int \<Rightarrow> int \<times> int \<Rightarrow> nat \<Rightarrow>
    thread_locals \<Rightarrow> (thread_locals \<times> ('k, 'f) event_loop) res" where
  "EventLoop_ctor kevent_change me lid kq k pipe_ret fds c tls =
     bind_res (Poller_ctor kq k)
       (\<lambda>p. bind_res (check (tls me = None) Aborted)
         (\<lambda>_. bind_res (check (0 \<le> pipe_ret) Aborted)
           (\<lambda>_. let l0 = \<lparr>loop_id = lid, looping = False, quit_flag = False, eventHandling = False,
                          callingPendingFunctors = False, threadId = me, loop_poller = p,
                          loop_chans = Map.empty, wakeup_chan = c, wakeup_words = 0, wakeupFd = fds,
                          activeChannels = [], pendingFunctors = [], spawnedTasks = {}\<rparr>
                in bind_res (updateChannel kevent_change c (enableReading_mask (Channel_ctor lid (fst fds))) l0)
                     (\<lambda>l. Inr (tls(me \<mapsto> lid), l)))))"

text \<open>
  The destructor unregisters the wakeup channel, closes both ends of the pipe and clears the slot of the
  thread that runs it; then the poller closes its queue. The result is the thread's slots, the loop as
  its members are destroyed, and the closed descriptors in order. Functors still pending and the
  coroutines still in \<^verbatim>\<open>spawnedTasks_\<close> are dropped: a handle is a plain pointer, so no frame is destroyed.
\<close>

definition EventLoop_dtor :: "('k \<Rightarrow> kchange list \<Rightarrow> 'k) \<Rightarrow> nat \<Rightarrow> thread_locals \<Rightarrow> ('k, 'f) event_loop \<Rightarrow>
    (thread_locals \<times> ('k, 'f) event_loop \<times> int list) res" where
  "EventLoop_dtor kevent_change me tls l =
     (case loop_chans l (wakeup_chan l) of
        None \<Rightarrow> Inl UseAfterFree
      | Some ch \<Rightarrow>
          bind_res (updateChannel kevent_change (wakeup_chan l) (disableAll_mask ch) l)
            (\<lambda>l1. bind_res (removeChannel kevent_change (disableAll_mask ch) l1)
              (\<lambda>l2. Inr (tls(me := None), l2, [fst (wakeupFd l2), snd (wakeupFd l2)] @ Poller_dtor (loop_poller l2)))))"

definition getEventLoopOfCurrentThread :: "nat \<Rightarrow> thread_locals \<Rightarrow> nat option" where
  "getEventLoopOfCurrentThread me tls = tls me"

definition pending_begin :: "('k, 'f) event_loop \<Rightarrow> ('k, 'f) event_loop" where
  "pending_begin l = l\<lparr>callingPendingFunctors := True\<rparr>"

definition pending_swap :: "('k, 'f) event_loop \<Rightarrow> 'f list \<times> ('k, 'f) event_loop" where
  "pending_swap l = (pendingFunctors l, l\<lparr>pendingFunctors := []\<rparr>)"

definition pending_end :: "('k, 'f) event_loop \<Rightarrow> ('k, 'f) event_loop" where
  "pending_end l = l\<lparr>callingPendingFunctors := False\<rparr>"

fun exec_all :: "('k, 'f, 'w) exec \<Rightarrow> 'f list \<Rightarrow> ('k, 'f) event_loop \<times> 'w \<Rightarrow>
    (('k, 'f) event_loop \<times> 'w) res" where
  "exec_all exec [] s = Inr s"
| "exec_all exec (f # fs) s = bind_res (exec f s) (exec_all exec fs)"

text \<open>
  The swapped vector is destroyed when the function returns, and with it the functors and what they
  captured: \<open>drop_all\<close> is what their destruction does.
\<close>

type_synonym ('k, 'f, 'w) drops = "'f list \<Rightarrow> ('k, 'f) event_loop \<times> 'w \<Rightarrow> (('k, 'f) event_loop \<times> 'w) res"

definition doPendingFunctors :: "('k, 'f, 'w) exec \<Rightarrow> ('k, 'f, 'w) drops \<Rightarrow> ('k, 'f) event_loop \<times> 'w \<Rightarrow>
    (('k, 'f) event_loop \<times> 'w) res" where
  "doPendingFunctors exec drop_all s =
     (let (functors, l1) = pending_swap (pending_begin (fst s)) in
      bind_res (exec_all exec functors (l1, snd s)) (\<lambda>(l2, w). drop_all functors (pending_end l2, w)))"

text \<open>
  One round of \<^verbatim>\<open>loop()\<close>: poll with the kernel's \<open>answer\<close>, let every active channel handle its events
  (\<open>handle\<close> is \<^verbatim>\<open>Channel::handleEvent\<close> of the channel at an address), then the queued functors.
\<close>

type_synonym ('k, 'f, 'w) handler = "nat \<Rightarrow> ('k, 'f) event_loop \<times> 'w \<Rightarrow> (('k, 'f) event_loop \<times> 'w) res"

fun handle_all :: "('k, 'f, 'w) handler \<Rightarrow> nat list \<Rightarrow> ('k, 'f) event_loop \<times> 'w \<Rightarrow>
    (('k, 'f) event_loop \<times> 'w) res" where
  "handle_all handle [] s = Inr s"
| "handle_all handle (c # cs) s = bind_res (handle c s) (handle_all handle cs)"

definition loop_iteration :: "('k, 'f, 'w) exec \<Rightarrow> ('k, 'f, 'w) drops \<Rightarrow> ('k, 'f, 'w) handler \<Rightarrow> (nat \<Rightarrow> int + kevent list) \<Rightarrow>
    ('k, 'f) event_loop \<times> 'w \<Rightarrow> (('k, 'f) event_loop \<times> 'w) res" where
  "loop_iteration exec drop_all handle answer s =
     bind_res (poll answer (loop_poller (fst s)) (loop_chans (fst s)) [])
       (\<lambda>(p, h, active).
         bind_res (handle_all handle active
             ((fst s)\<lparr>loop_poller := p, loop_chans := h, activeChannels := active, eventHandling := True\<rparr>, snd s))
           (\<lambda>(l2, w2). doPendingFunctors exec drop_all (l2\<lparr>eventHandling := False\<rparr>, w2)))"

text \<open>
  \<^verbatim>\<open>loop()\<close> against the sequence of the kernel's answers: the flag says whether the loop has left its
  \<^verbatim>\<open>while\<close>; when the answers run out first it is still running.
\<close>

fun loop_while :: "('k, 'f, 'w) exec \<Rightarrow> ('k, 'f, 'w) drops \<Rightarrow> ('k, 'f, 'w) handler \<Rightarrow> (nat \<Rightarrow> int + kevent list) list \<Rightarrow>
    ('k, 'f) event_loop \<times> 'w \<Rightarrow> (bool \<times> ('k, 'f) event_loop \<times> 'w) res" where
  "loop_while exec drop_all handle answers s =
     (if quit_flag (fst s) then Inr (True, s)
      else case answers of
          [] \<Rightarrow> Inr (False, s)
        | a # as \<Rightarrow> bind_res (loop_iteration exec drop_all handle a s) (loop_while exec drop_all handle as))"

declare loop_while.simps [simp del]

definition loop :: "('k, 'f, 'w) exec \<Rightarrow> ('k, 'f, 'w) drops \<Rightarrow> ('k, 'f, 'w) handler \<Rightarrow> nat \<Rightarrow> (nat \<Rightarrow> int + kevent list) list \<Rightarrow>
    ('k, 'f) event_loop \<times> 'w \<Rightarrow> (bool \<times> ('k, 'f) event_loop \<times> 'w) res" where
  "loop exec drop_all handle me answers s =
     bind_res (check (\<not> looping (fst s)) AssertFailed)
       (\<lambda>_. bind_res (assertInLoopThread me (fst s))
         (\<lambda>_. bind_res (loop_while exec drop_all handle answers ((fst s)\<lparr>looping := True, quit_flag := False\<rparr>, snd s))
           (\<lambda>(stopped, l, w). Inr (stopped, if stopped then l\<lparr>looping := False\<rparr> else l, w))))"

text \<open>
  Fire-and-forget coroutines: the functor that \<^verbatim>\<open>spawn\<close> runs in the loop thread, and the clean-up at
  the end of such a coroutine. \<open>resume\<close> and \<open>destroy\<close> act on coroutine frames.
\<close>

definition spawn_functor :: "(nat \<Rightarrow> ('k, 'f) event_loop \<times> 'w \<Rightarrow> (('k, 'f) event_loop \<times> 'w) res) \<Rightarrow> nat \<Rightarrow>
    ('k, 'f) event_loop \<times> 'w \<Rightarrow> (('k, 'f) event_loop \<times> 'w) res" where
  "spawn_functor resume h s = resume h ((fst s)\<lparr>spawnedTasks := insert h (spawnedTasks (fst s))\<rparr>, snd s)"

definition cleanupSpawnedTask :: "(nat \<Rightarrow> 'w \<Rightarrow> 'w res) \<Rightarrow> nat \<Rightarrow> ('k, 'f) event_loop \<times> 'w \<Rightarrow>
    (('k, 'f) event_loop \<times> 'w) res" where
  "cleanupSpawnedTask destroy h s =
     (if h \<in> spawnedTasks (fst s)
      then bind_res (destroy h (snd s))
             (\<lambda>w. Inr ((fst s)\<lparr>spawnedTasks := spawnedTasks (fst s) - {h}\<rparr>, w))
      else Inr s)"

text \<open>The callbacks of the wakeup channel.\<close>

definition wakeup_callbacks :: "(('k, 'f) event_loop \<times> 'w) channel_callbacks" where
  "wakeup_callbacks = Channel_setReadCallback (Some (\<lambda>(l, x). Inr (handleWakeup l, x))) no_channel_callbacks"

section \<open>Interleaving with other threads\<close>

text \<open>
  Where the loop thread is: before \<^verbatim>\<open>loop()\<close>, at the test of \<^verbatim>\<open>quit_\<close>, in the poll, handling events
  (the flag says whether the wakeup channel was reported and is still to be handled), having
  announced that it calls functors, running the swapped batch, or out of the loop.
\<close>

datatype loop_pc = Idle | Testing | Polling | Handling bool | Swapping | Calling | Stopped

text \<open>
  \<open>batch\<close> is the rest of the swapped vector, \<open>wakers\<close> the number of other threads between their
  push (or their setting of \<^verbatim>\<open>quit_\<close>) and their \<^verbatim>\<open>wakeup()\<close>, and \<open>in_call\<close> tells whether the round has called
  user code on the loop thread: the handler of a channel other than the wakeup channel, or a functor.
  Only then can the loop thread queue functors or quit. The last three fields are history: all
  functors ever pushed, all functors run, and whether the loop thread itself has queued a
  functor before entering the loop that is still pending.
\<close>

record ('k, 'f) loop_sys =
  el :: "('k, 'f) event_loop"
  pc :: loop_pc
  batch :: "'f list"
  wakers :: nat
  in_call :: bool
  pushed :: "'f list"
  ran :: "'f list"
  early :: bool

inductive loop_step :: "('k, 'f) loop_sys \<Rightarrow> ('k, 'f) loop_sys \<Rightarrow> bool" where
  other_push: "me \<noteq> threadId (el s) \<Longrightarrow>
     loop_step s (s\<lparr>el := queue_push f (el s), pushed := pushed s @ [f],
                    wakers := (if queue_needs_wakeup me (queue_push f (el s)) then Suc (wakers s) else wakers s)\<rparr>)"
| other_wakeup: "wakers s = Suc n \<Longrightarrow> loop_step s (s\<lparr>el := wakeup (el s), wakers := n\<rparr>)"
| other_quit: "me \<noteq> threadId (el s) \<Longrightarrow>
     loop_step s (s\<lparr>el := (el s)\<lparr>quit_flag := True\<rparr>, wakers := Suc (wakers s)\<rparr>)"
| enter: "pc s = Idle \<Longrightarrow>
     loop_step s (s\<lparr>el := (el s)\<lparr>looping := True, quit_flag := False\<rparr>, pc := Testing\<rparr>)"
| test_continue: "pc s = Testing \<Longrightarrow> \<not> quit_flag (el s) \<Longrightarrow> loop_step s (s\<lparr>pc := Polling\<rparr>)"
| test_stop: "pc s = Testing \<Longrightarrow> quit_flag (el s) \<Longrightarrow>
     loop_step s (s\<lparr>el := (el s)\<lparr>looping := False\<rparr>, pc := Stopped\<rparr>)"
| poll_woken: "pc s = Polling \<Longrightarrow> 0 < wakeup_words (el s) \<Longrightarrow>
     loop_step s (s\<lparr>el := (el s)\<lparr>eventHandling := True\<rparr>, pc := Handling True, in_call := others\<rparr>)"
| poll_other: "pc s = Polling \<Longrightarrow>
     loop_step s (s\<lparr>el := (el s)\<lparr>eventHandling := True\<rparr>, pc := Handling False, in_call := True\<rparr>)"
| poll_timeout: "pc s = Polling \<Longrightarrow>
     loop_step s (s\<lparr>el := (el s)\<lparr>eventHandling := True\<rparr>, pc := Handling False, in_call := False\<rparr>)"
| handle_wakeup: "pc s = Handling True \<Longrightarrow>
     loop_step s (s\<lparr>el := handleWakeup (el s), pc := Handling False\<rparr>)"
| loop_push: "pc s = Idle \<or> in_call s \<and> (pc s = Calling \<or> (\<exists>w. pc s = Handling w)) \<Longrightarrow>
     loop_step s (s\<lparr>el := queueInLoop (threadId (el s)) f (el s), pushed := pushed s @ [f],
                    early := (early s \<or> pc s = Idle)\<rparr>)"
| loop_quit: "in_call s \<Longrightarrow> pc s = Calling \<or> (\<exists>w. pc s = Handling w) \<Longrightarrow>
     loop_step s (s\<lparr>el := quit (threadId (el s)) (el s)\<rparr>)"
| begin_pending: "pc s = Handling False \<Longrightarrow>
     loop_step s (s\<lparr>el := pending_begin ((el s)\<lparr>eventHandling := False\<rparr>), pc := Swapping, in_call := False\<rparr>)"
| swap_pending: "pc s = Swapping \<Longrightarrow> pending_swap (el s) = (fs, l) \<Longrightarrow>
     loop_step s (s\<lparr>el := l, batch := fs, pc := Calling, early := False\<rparr>)"
| run_functor: "pc s = Calling \<Longrightarrow> batch s = f # fs \<Longrightarrow>
     loop_step s (s\<lparr>batch := fs, ran := ran s @ [f], in_call := True\<rparr>)"
| end_pending: "pc s = Calling \<Longrightarrow> batch s = [] \<Longrightarrow>
     loop_step s (s\<lparr>el := pending_end (el s), pc := Testing, in_call := False\<rparr>)"

inductive_cases loop_stepE: "loop_step s t"

text \<open>The state after construction, before \<^verbatim>\<open>loop()\<close>.\<close>

definition loop_start :: "('k, 'f) loop_sys \<Rightarrow> bool" where
  "loop_start s \<longleftrightarrow> pc s = Idle \<and> batch s = [] \<and> wakers s = 0 \<and> \<not> in_call s \<and> pushed s = [] \<and> ran s = [] \<and> \<not> early s
     \<and> pendingFunctors (el s) = [] \<and> wakeup_words (el s) = 0 \<and> \<not> quit_flag (el s)
     \<and> \<not> callingPendingFunctors (el s) \<and> \<not> looping (el s)"

definition awake :: "('k, 'f) loop_sys \<Rightarrow> bool" where
  "awake s \<longleftrightarrow> 0 < wakeup_words (el s) \<or> 0 < wakers s"

definition loop_inv :: "('k, 'f) loop_sys \<Rightarrow> bool" where
  "loop_inv s \<longleftrightarrow>
     (callingPendingFunctors (el s) \<longleftrightarrow> pc s = Swapping \<or> pc s = Calling)
     \<and> (batch s \<noteq> [] \<longrightarrow> pc s = Calling)
     \<and> pushed s = ran s @ batch s @ pendingFunctors (el s)
     \<and> (pc s \<in> {Idle, Testing, Polling, Calling} \<and> pendingFunctors (el s) \<noteq> [] \<and> \<not> early s \<longrightarrow> awake s)
     \<and> (pc s = Polling \<and> quit_flag (el s) \<longrightarrow> awake s)
     \<and> (pc s = Handling True \<longrightarrow> 0 < wakeup_words (el s))
     \<and> (early s \<longrightarrow> pendingFunctors (el s) \<noteq> [])
     \<and> (in_call s \<longrightarrow> pc s \<noteq> Swapping \<and> (pc s = Calling \<longrightarrow> ran s \<noteq> []))"


text \<open>The rounds of the loop without its test of \<^verbatim>\<open>quit_\<close>.\<close>

fun run_iterations :: "('k, 'f, 'w) exec \<Rightarrow> ('k, 'f, 'w) drops \<Rightarrow> ('k, 'f, 'w) handler \<Rightarrow> (nat \<Rightarrow> int + kevent list) list \<Rightarrow>
    ('k, 'f) event_loop \<times> 'w \<Rightarrow> (('k, 'f) event_loop \<times> 'w) res" where
  "run_iterations exec drop_all handle [] s = Inr s"
| "run_iterations exec drop_all handle (a # as) s =
     bind_res (loop_iteration exec drop_all handle a s) (run_iterations exec drop_all handle as)"

text \<open>A loop of thread 0 as the constructor leaves it (reading its wakeup descriptor 3), for examples.\<close>

definition sample_loop :: "(kregs, nat) event_loop" where
  "sample_loop =
     \<lparr>loop_id = 7, looping = False, quit_flag = False, eventHandling = False, callingPendingFunctors = False,
      threadId = 0,
      loop_poller = \<lparr>kqueue = [(3, EVFILT_READ) \<mapsto> 1], ev_capacity = 16, kqueueFd = 5, channels = [3 \<mapsto> 1]\<rparr>,
      loop_chans = [1 \<mapsto> enableReading_mask (Channel_ctor 7 3)], wakeup_chan = 1, wakeup_words = 0, wakeupFd = (3, 4),
      activeChannels = [], pendingFunctors = [], spawnedTasks = {}\<rparr>"

definition sample_sys :: "(kregs, nat) loop_sys" where
  "sample_sys = \<lparr>el = sample_loop, pc = Idle, batch = [], wakers = 0, in_call = False, pushed = [], ran = [], early = False\<rparr>"

definition sample_polling :: "(kregs, nat) loop_sys" where
  "sample_polling = sample_sys\<lparr>el := sample_loop\<lparr>looping := True, quit_flag := False\<rparr>, pc := Polling\<rparr>"

section \<open>Invariant of the interleaving\<close>

lemmas loop_op_defs = queue_push_def queueInLoop_def queue_needs_wakeup_def isInLoopThread_def wakeup_def
  handleWakeup_def quit_def pending_begin_def pending_swap_def pending_end_def

lemma loop_step_inv: "loop_inv s \<Longrightarrow> loop_step s t \<Longrightarrow> loop_inv t"
proof (rotate_tac, induction rule: loop_step.induct)
  case (loop_push s f)
  then show ?case by (cases "pc s") (simp_all add: loop_inv_def awake_def loop_op_defs)
next
  case (loop_quit s)
  then show ?case by (cases "pc s") (simp_all add: loop_inv_def awake_def loop_op_defs)
next
  case (swap_pending s fs l)
  then show ?case by (auto simp: loop_inv_def loop_op_defs)
qed (simp_all add: loop_inv_def awake_def loop_op_defs)

lemma loop_start_inv: "loop_start s \<Longrightarrow> loop_inv s"
  by (simp add: loop_start_def loop_inv_def)

interpretation reactor: invariant_machine loop_start loop_step loop_inv
  by unfold_locales (blast intro: loop_start_inv loop_step_inv)+


lemma sample_start: "loop_start sample_sys"
  by (simp add: loop_start_def sample_sys_def sample_loop_def)

lemmas loop_reachable_start = reachable_start [where start = loop_start and step = loop_step]
lemmas loop_reachable_step = reachable_step [where start = loop_start and step = loop_step]

lemma sample_polling_reachable: "reachable loop_start loop_step sample_polling"
proof -
  let ?s1 = "sample_sys\<lparr>el := (el sample_sys)\<lparr>looping := True, quit_flag := False\<rparr>, pc := Testing\<rparr>"
  have "loop_step sample_sys ?s1"
    by (rule enter) (simp add: sample_sys_def)
  then have "reachable loop_start loop_step ?s1"
    by (rule loop_reachable_step [OF loop_reachable_start [OF sample_start]])
  moreover have "loop_step ?s1 (?s1\<lparr>pc := Polling\<rparr>)"
    by (rule test_continue) simp_all
  moreover have "?s1\<lparr>pc := Polling\<rparr> = sample_polling"
    by (simp add: sample_sys_def sample_polling_def)
  ultimately show ?thesis
    by (metis loop_reachable_step)
qed

lemma sample_ctor:
  "EventLoop_ctor apply_changes 0 7 5 Map.empty 0 (3, 4) 1 Map.empty = Inr ([0 \<mapsto> 7], sample_loop)"
proof -
  have upd: "apply_changes Map.empty (update_changes (Suc 0) (enableReading_mask (Channel_ctor 7 3))) = [(3, EVFILT_READ) \<mapsto> Suc 0]"
    by (simp add: update_changes_def)
  show ?thesis
    by (simp add: EventLoop_ctor_def Poller_ctor_def updateChannel_def Poller_updateChannel_def upd sample_loop_def Let_def)
qed

section \<open>The loop\<close>

lemma loop_while_quit: "quit_flag (fst s) \<Longrightarrow> loop_while exec drop_all handle as s = Inr (True, s)"
  by (subst loop_while.simps) simp

lemma loop_while_Cons:
  "\<not> quit_flag (fst s) \<Longrightarrow>
     loop_while exec drop_all handle (a # as) s = bind_res (loop_iteration exec drop_all handle a s) (loop_while exec drop_all handle as)"
  by (subst loop_while.simps) simp

lemma loop_while_stops:
  assumes "run_iterations exec drop_all handle as s = Inr s'" and "quit_flag (fst s')"
    and "\<And>n t. n < length as \<Longrightarrow> run_iterations exec drop_all handle (take n as) s = Inr t \<Longrightarrow> \<not> quit_flag (fst t)"
  shows "loop_while exec drop_all handle (as @ rest) s = Inr (True, s')"
  using assms
proof (induction as arbitrary: s)
  case Nil
  then show ?case by (simp add: loop_while_quit)
next
  case (Cons a as)
  have nq: "\<not> quit_flag (fst s)"
    using Cons.prems(3) [of 0 s] by simp
  from Cons.prems(1) obtain t where t: "loop_iteration exec drop_all handle a s = Inr t" "run_iterations exec drop_all handle as t = Inr s'"
    by (auto elim: bind_res_InrE)
  have "\<not> quit_flag (fst u)" if "n < length as" "run_iterations exec drop_all handle (take n as) t = Inr u" for n u
    using Cons.prems(3) [of "Suc n" u] that t(1) by simp
  from Cons.IH [OF t(2) Cons.prems(2) this] show ?case
    using nq t(1) by (simp add: loop_while_Cons)
qed

section \<open>Properties\<close>

text \<open>C12. No lost wakeup: whatever the interleaving of the loop thread with other threads, if the loop
  thread is in its poll while functors are pending, then the wakeup pipe is readable or a thread
  is about to write to it, so the poll returns. The one exception is a functor that the loop thread
  queued itself before it entered \<^verbatim>\<open>loop()\<close>.\<close>

theorem no_lost_wakeup:
  assumes "reachable loop_start loop_step s" and "pc s = Polling" and "pendingFunctors (el s) \<noteq> []"
    and "\<not> early s"
  shows "0 < wakeup_words (el s) \<or> 0 < wakers s"
  using reactor.reachable_inv [OF assms(1)] assms(2-4) by (simp add: loop_inv_def awake_def)

theorem no_lost_wakeup_witness:
  "\<exists>s :: (kregs, nat) loop_sys. reachable loop_start loop_step s \<and> pc s = Polling
     \<and> pendingFunctors (el s) = [42] \<and> (0 < wakeup_words (el s) \<or> 0 < wakers s)"
proof -
  let ?s = "sample_polling\<lparr>el := queue_push 42 (el sample_polling), pushed := pushed sample_polling @ [42],
      wakers := (if queue_needs_wakeup 5 (queue_push 42 (el sample_polling)) then Suc (wakers sample_polling)
                 else wakers sample_polling)\<rparr>"
  have "loop_step sample_polling ?s"
    by (rule other_push) (simp add: sample_polling_def sample_sys_def sample_loop_def)
  then have r: "reachable loop_start loop_step ?s"
    by (rule loop_reachable_step [OF sample_polling_reachable])
  have f: "pc ?s = Polling" "pendingFunctors (el ?s) = [42]" "\<not> early ?s"
    by (simp_all add: sample_polling_def sample_sys_def sample_loop_def queue_push_def)
  from no_lost_wakeup [OF r f(1) _ f(3)] f r show ?thesis by fastforce
qed

text \<open>C13. Functors run in the order in which they were queued, each exactly once: in every reachable state
  the functors ever queued are those already run, then those of the batch being run, then those
  still pending.\<close>

theorem functors_in_order_once:
  assumes "reachable loop_start loop_step s"
  shows "pushed s = ran s @ batch s @ pendingFunctors (el s)"
  using reactor.reachable_inv [OF assms] by (simp add: loop_inv_def)

theorem functors_in_order_once_witness:
  "pushed sample_polling = ran sample_polling @ batch sample_polling @ pendingFunctors (el sample_polling)"
  by (rule functors_in_order_once [OF sample_polling_reachable])

text \<open>A \<^verbatim>\<open>quit()\<close> from another thread reaches a loop that is blocked in its poll: if \<^verbatim>\<open>quit_\<close> is set while
  the loop thread polls, the poll is going to return.\<close>

theorem quit_reaches_poll:
  assumes "reachable loop_start loop_step s" and "pc s = Polling" and "quit_flag (el s)"
  shows "0 < wakeup_words (el s) \<or> 0 < wakers s"
  using reactor.reachable_inv [OF assms(1)] assms(2,3) by (simp add: loop_inv_def awake_def)

theorem quit_reaches_poll_witness:
  "\<exists>s :: (kregs, nat) loop_sys. reachable loop_start loop_step s \<and> pc s = Polling \<and> quit_flag (el s)
     \<and> (0 < wakeup_words (el s) \<or> 0 < wakers s)"
proof -
  let ?s = "sample_polling\<lparr>el := (el sample_polling)\<lparr>quit_flag := True\<rparr>, wakers := Suc (wakers sample_polling)\<rparr>"
  have "loop_step sample_polling ?s"
    by (rule other_quit [of 5]) (simp add: sample_polling_def sample_sys_def sample_loop_def)
  then have r: "reachable loop_start loop_step ?s"
    by (rule loop_reachable_step [OF sample_polling_reachable])
  have f: "pc ?s = Polling" "quit_flag (el ?s)"
    by (simp_all add: sample_polling_def)
  from quit_reaches_poll [OF r f] f r show ?thesis by blast
qed

text \<open>C37. The loop stops: if the round after some number of polls is the first to end with \<^verbatim>\<open>quit_\<close> set, \<^verbatim>\<open>loop()\<close>
  returns after exactly those rounds, whatever the kernel would have reported later, and it is
  no longer \<^verbatim>\<open>looping_\<close>.\<close>

theorem loop_returns_after_quit:
  assumes "\<not> looping l" and "isInLoopThread me l"
    and "run_iterations exec drop_all handle as (l\<lparr>looping := True, quit_flag := False\<rparr>, w) = Inr (l', w')"
    and "quit_flag l'"
    and "\<And>n t. n < length as \<Longrightarrow>
           run_iterations exec drop_all handle (take n as) (l\<lparr>looping := True, quit_flag := False\<rparr>, w) = Inr t \<Longrightarrow>
           \<not> quit_flag (fst t)"
  shows "loop exec drop_all handle me (as @ rest) (l, w) = Inr (True, l'\<lparr>looping := False\<rparr>, w')"
  using assms(1,2) loop_while_stops [OF assms(3) _ assms(5)] assms(4)
  by (simp add: loop_def assertInLoopThread_def)

theorem loop_returns_after_quit_witness:
  "loop (\<lambda>f s. Inr s) (\<lambda>fs s. Inr s) (\<lambda>c s. Inr (quit 0 (fst s), snd s)) 0
     ([\<lambda>_. Inr [\<lparr>kev_filter = EVFILT_READ, EV_EOF = False, EV_ERROR = False, kev_udata = 1\<rparr>]] @ [\<lambda>_. Inl 4])
     (sample_loop, ())
   = Inr (True, (fst (projr (run_iterations (\<lambda>f s. Inr s) (\<lambda>fs s. Inr s) (\<lambda>c s. Inr (quit 0 (fst s), snd s))
        [\<lambda>_. Inr [\<lparr>kev_filter = EVFILT_READ, EV_EOF = False, EV_ERROR = False, kev_udata = 1\<rparr>]]
        (sample_loop\<lparr>looping := True, quit_flag := False\<rparr>, ()))))\<lparr>looping := False\<rparr>, ())"
proof -
  let ?run = "\<lambda>as. run_iterations (\<lambda>f s. Inr s) (\<lambda>fs s. Inr s) (\<lambda>c s. Inr (quit 0 (fst s), snd s)) as
        (sample_loop\<lparr>looping := True, quit_flag := False\<rparr>, ())"
  let ?as = "[\<lambda>_::nat. Inr [\<lparr>kev_filter = EVFILT_READ, EV_EOF = False, EV_ERROR = False, kev_udata = 1::nat\<rparr>]]"
  have run: "?run ?as = Inr (fst (projr (?run ?as)), ())" "quit_flag (fst (projr (?run ?as)))"
    by (simp_all add: loop_iteration_def poll_def sample_loop_def doPendingFunctors_def loop_op_defs Let_def)
  show ?thesis
    by (rule loop_returns_after_quit [OF _ _ run])
       (auto simp: sample_loop_def isInLoopThread_def)
qed

text \<open>A \<^verbatim>\<open>quit()\<close> that comes before \<^verbatim>\<open>loop()\<close> is forgotten: the loop runs as if it had never been called
  (here from the loop's own thread; from another thread the only trace is the byte in the pipe).\<close>

theorem early_quit_forgotten:
  assumes "isInLoopThread me l"
  shows "loop exec drop_all handle me answers (quit me l, w) = loop exec drop_all handle me answers (l, w)"
  using assms by (simp add: loop_def quit_def assertInLoopThread_def isInLoopThread_def)

theorem early_quit_forgotten_witness:
  "loop (\<lambda>f s. Inr s) (\<lambda>fs s. Inr s) (\<lambda>c s. Inr s) 0 [] (quit 0 sample_loop, ()) = Inr (False, sample_loop\<lparr>looping := True\<rparr>, ())"
  using early_quit_forgotten [of 0 sample_loop "\<lambda>f s. Inr s" "\<lambda>fs s. Inr s" "\<lambda>c s. Inr s" "[]" "()"]
  by (simp add: sample_loop_def isInLoopThread_def loop_def assertInLoopThread_def loop_while.simps)

text \<open>The exception of the wakeup rule is real: a functor the loop thread queues before \<^verbatim>\<open>loop()\<close> sends no
  wakeup, so the first poll can block with that functor pending, no byte in the pipe and nobody
  about to write one; it runs when the 10 second timeout or unrelated traffic ends the poll.\<close>

theorem early_functor_not_announced:
  "\<exists>s :: (kregs, nat) loop_sys. reachable loop_start loop_step s \<and> pc s = Polling
     \<and> pendingFunctors (el s) = [42] \<and> wakeup_words (el s) = 0 \<and> wakers s = 0"
proof -
  let ?s1 = "sample_sys\<lparr>el := queueInLoop (threadId (el sample_sys)) 42 (el sample_sys),
      pushed := pushed sample_sys @ [42], early := (early sample_sys \<or> pc sample_sys = Idle)\<rparr>"
  let ?s2 = "?s1\<lparr>el := (el ?s1)\<lparr>looping := True, quit_flag := False\<rparr>, pc := Testing\<rparr>"
  have "loop_step sample_sys ?s1"
    by (rule loop_push) (simp add: sample_sys_def)
  then have "reachable loop_start loop_step ?s1"
    by (rule loop_reachable_step [OF loop_reachable_start [OF sample_start]])
  moreover have "loop_step ?s1 ?s2"
    by (rule enter) (simp add: sample_sys_def)
  ultimately have "reachable loop_start loop_step ?s2"
    by (rule loop_reachable_step)
  moreover have "loop_step ?s2 (?s2\<lparr>pc := Polling\<rparr>)"
    by (rule test_continue) simp_all
  ultimately have "reachable loop_start loop_step (?s2\<lparr>pc := Polling\<rparr>)"
    by (rule loop_reachable_step)
  then show ?thesis
    by (rule exI [of _ "?s2\<lparr>pc := Polling\<rparr>", OF conjI]) (simp add: sample_sys_def sample_loop_def loop_op_defs)
qed

text \<open>One loop per thread: a constructor that returns found the thread's slot empty, fills it with the new
  loop, leaves the wakeup descriptor watched for reading, and makes every further constructor on
  the thread abort.\<close>

theorem one_loop_per_thread:
  fixes l :: "('k, 'f) event_loop"
  assumes "kqueue_documented kevent_change regs"
    and "EventLoop_ctor kevent_change me lid kq k pipe_ret fds c tls = Inr (tls', l)"
  shows "tls me = None \<and> getEventLoopOfCurrentThread me tls' = Some lid \<and> isInLoopThread me l
    \<and> (\<exists>ch. loop_chans l c = Some ch \<and> isReading ch \<and> ch_fd ch = fst fds \<and> watched (regs (kqueue (loop_poller l))) c ch)
    \<and> EventLoop_ctor kevent_change me lid2 kq2 k2 pipe_ret2 fds2 c2 tls' = (Inl Aborted :: (thread_locals \<times> ('k, 'f) event_loop) res)"
proof -
  let ?ch = "enableReading_mask (Channel_ctor lid (fst fds))"
  from assms(2) have "tls me = None" "tls' = tls(me \<mapsto> lid)" "threadId l = me" "loop_chans l = [c \<mapsto> ?ch]"
      "regs (kqueue (loop_poller l)) = apply_changes (regs k) (update_changes c ?ch)"
    using assms(1)
    by (auto simp: EventLoop_ctor_def Poller_ctor_def updateChannel_def Poller_updateChannel_def Let_def
        kqueue_documented_def res_simps split: if_splits)
  moreover have "watched (apply_changes (regs k) (update_changes c ?ch)) c ?ch"
    by (rule update_watched) simp
  ultimately show ?thesis
    by (auto simp: getEventLoopOfCurrentThread_def isInLoopThread_def EventLoop_ctor_def Poller_ctor_def)
qed

theorem one_loop_per_thread_witness:
  "EventLoop_ctor apply_changes 0 8 6 Map.empty 0 (8, 9) 2 [0 \<mapsto> 7] = (Inl Aborted :: (thread_locals \<times> (kregs, nat) event_loop) res)"
  using one_loop_per_thread [OF _ sample_ctor, of "\<lambda>r. r" 8 6 Map.empty 0 "(8, 9)" 2]
  by (simp add: kqueue_documented_def)

text \<open>A loop gives back what it took: the destructor of a loop fresh from its constructor closes the pipe and the
  queue that the constructor opened, each once, leaves its thread free for another loop, and the kernel
  no longer watches the wakeup descriptor.\<close>

theorem loop_closes_what_it_opened:
  fixes l :: "('k, 'f) event_loop"
  assumes "kqueue_documented kevent_change regs" and "EventLoop_ctor kevent_change me lid kq k pipe_ret fds c tls = Inr (tls', l)"
  shows "\<exists>l'. EventLoop_dtor kevent_change me tls' l = Inr (tls, l', [fst fds, snd fds, kq])
    \<and> regs (kqueue (loop_poller l')) (fst fds, f) = None"
proof -
  let ?ch = "enableReading_mask (Channel_ctor lid (fst fds))"
  let ?off = "disableAll_mask ?ch"
  let ?r = "apply_changes (apply_changes (regs k) (update_changes c ?ch)) (update_changes c ?off)"
  have w: "watched (apply_changes (regs k) (update_changes c ?ch)) c ?ch" by (rule update_watched) simp
  have "watched ?r c ?off" by (rule update_watched) (use w in \<open>simp add: watched_def\<close>)
  then have none: "?r (fst fds, g) = None" for g by (cases g) (simp_all add: watched_def)
  from assms show ?thesis
    by (auto simp: EventLoop_ctor_def EventLoop_dtor_def Poller_ctor_def Poller_dtor_def updateChannel_def removeChannel_def Poller_updateChannel_def
        Poller_removeChannel_def Let_def kqueue_documented_def res_simps none fun_upd_idem split: if_splits)
qed

end
