(* ===== verification/TcpConnection.thy ===== *)
theory TcpConnection
  imports Buffer Socket EventLoop
begin

text \<open>
  One TCP connection: \<^verbatim>\<open>include/hayai/net/TcpConnection.h\<close> and \<^verbatim>\<open>src/net/TcpConnection.cc\<close>. The connection is
  a record with its two buffers and its channel; everything it does to the outside (bytes written,
  interest changes, callbacks, functors queued on its loop) is appended to a trace. User callbacks
  are arbitrary fallible functions on that state, so they may call back into the connection.
\<close>

section \<open>State\<close>

datatype conn_state = Connecting | Connected | Disconnecting | Disconnected

text \<open>The states in the order in which a connection goes through them.\<close>

instantiation conn_state :: linorder
begin

fun conn_rank :: "conn_state \<Rightarrow> nat" where
  "conn_rank Connecting = 0"
| "conn_rank Connected = 1"
| "conn_rank Disconnecting = 2"
| "conn_rank Disconnected = 3"

definition less_eq_conn_state :: "conn_state \<Rightarrow> conn_state \<Rightarrow> bool" where
  "less_eq_conn_state a b \<longleftrightarrow> conn_rank a \<le> conn_rank b"

definition less_conn_state :: "conn_state \<Rightarrow> conn_state \<Rightarrow> bool" where
  "less_conn_state a b \<longleftrightarrow> conn_rank a < conn_rank b"

instance
proof
  fix a b :: conn_state
  show "a \<le> b \<Longrightarrow> b \<le> a \<Longrightarrow> a = b"
    by (cases a; cases b) (simp_all add: less_eq_conn_state_def)
qed (auto simp: less_eq_conn_state_def less_conn_state_def)

end

record tcp_conn =
  conn_loop :: nat
  conn_thread :: nat
  conn_name :: string
  conn_socket :: socket
  conn_chan :: channel
  conn_state :: conn_state
  localAddr :: sockaddr_in
  peerAddr :: sockaddr_in
  inputBuffer :: buffer
  outputBuffer :: buffer

text \<open>
  Functors queued on the connection's loop: its own when called from another thread, and the
  server's call of \<^verbatim>\<open>connectDestroyed\<close>.
\<close>

datatype conn_task = SendTask string | ShutdownTask | CloseTask | DestroyTask

text \<open>
  What happens, in order: a message reaches \<^verbatim>\<open>sendInLoop\<close>, bytes are written to the socket, a message is
  dropped after a fatal error, the interest changes (with the new reading and writing flags), all
  interest is dropped, the write side is shut down, a callback is invoked, a functor is queued, the
  channel is removed from the poller. \<open>StateTested\<close> and \<open>LateSet\<close> mark the two halves of a \<^verbatim>\<open>shutdown\<close> or
  \<^verbatim>\<open>forceClose\<close> on another thread: it found the state it asks for, and later it wrote
  \<open>Disconnecting\<close> over the state given.
\<close>

datatype conn_event =
    SendReq string
  | Wrote string
  | Dropped string
  | Interest bool bool
  | ChanDisabled
  | ShutdownWr
  | CbConnection conn_state
  | CbMessage
  | CbClose
  | CbWriteComplete
  | Queued conn_task
  | ChanRemoved
  | StateTested conn_task
  | LateSet conn_state

record conn_world =
  conn :: tcp_conn
  trace :: "conn_event list"

text \<open>The user callbacks; \<open>None\<close> is an empty \<^verbatim>\<open>std::function\<close>.\<close>

record conn_cbs =
  connectionCb :: "(conn_world \<Rightarrow> conn_world res) option"
  messageCb :: "(conn_world \<Rightarrow> conn_world res) option"
  writeCompleteCb :: "(conn_world \<Rightarrow> conn_world res) option"
  closeCb :: "(conn_world \<Rightarrow> conn_world res) option"

definition emit :: "conn_event \<Rightarrow> conn_world \<Rightarrow> conn_world" where
  "emit e w = w\<lparr>trace := trace w @ [e]\<rparr>"

definition set_state :: "conn_state \<Rightarrow> conn_world \<Rightarrow> conn_world" where
  "set_state st w = w\<lparr>conn := (conn w)\<lparr>conn_state := st\<rparr>\<rparr>"

definition set_chan :: "channel \<Rightarrow> conn_world \<Rightarrow> conn_world" where
  "set_chan ch w = w\<lparr>conn := (conn w)\<lparr>conn_chan := ch\<rparr>\<rparr>"

definition set_out :: "buffer \<Rightarrow> conn_world \<Rightarrow> conn_world" where
  "set_out b w = w\<lparr>conn := (conn w)\<lparr>outputBuffer := b\<rparr>\<rparr>"

definition set_in :: "buffer \<Rightarrow> conn_world \<Rightarrow> conn_world" where
  "set_in b w = w\<lparr>conn := (conn w)\<lparr>inputBuffer := b\<rparr>\<rparr>"

text \<open>A change of the interest mask together with the \<^verbatim>\<open>update()\<close> it triggers.\<close>

definition update_interest :: "channel \<Rightarrow> conn_world \<Rightarrow> conn_world" where
  "update_interest ch w = emit (Interest (isReading ch) (isWriting ch)) (set_chan ch w)"

definition disable_all :: "conn_world \<Rightarrow> conn_world" where
  "disable_all w = emit ChanDisabled (update_interest (disableAll_mask (conn_chan (conn w))) w)"

definition conn_in_loop :: "nat \<Rightarrow> conn_world \<Rightarrow> bool" where
  "conn_in_loop me w \<longleftrightarrow> me = conn_thread (conn w)"

definition conn_assert_loop :: "nat \<Rightarrow> conn_world \<Rightarrow> unit res" where
  "conn_assert_loop me w = check (conn_in_loop me w) Aborted"

section \<open>Operations\<close>

definition TcpConnection_ctor :: "nat \<Rightarrow> nat \<Rightarrow> string \<Rightarrow> int \<Rightarrow> sockaddr_in \<Rightarrow> sockaddr_in \<Rightarrow> tcp_conn" where
  "TcpConnection_ctor lp tid name fd laddr paddr =
     \<lparr>conn_loop = lp, conn_thread = tid, conn_name = name, conn_socket = Socket_ctor fd,
      conn_chan = Channel_ctor lp fd, conn_state = Connecting, localAddr = laddr, peerAddr = paddr,
      inputBuffer = Buffer_default, outputBuffer = Buffer_default\<rparr>"

definition TcpConnection_dtor :: "tcp_conn \<Rightarrow> syscall list res" where
  "TcpConnection_dtor c =
     bind_res (check (conn_state c = Disconnected) AssertFailed) (\<lambda>_. Inr (Socket_dtor (conn_socket c)))"

definition connected :: "tcp_conn \<Rightarrow> bool" where
  "connected c \<longleftrightarrow> conn_state c = Connected"

definition localAddress :: "tcp_conn \<Rightarrow> sockaddr_in" where
  "localAddress c = localAddr c"

definition peerAddress :: "tcp_conn \<Rightarrow> sockaddr_in" where
  "peerAddress c = peerAddr c"

definition TcpConnection_name :: "tcp_conn \<Rightarrow> string" where
  "TcpConnection_name c = conn_name c"

definition TcpConnection_getLoop :: "tcp_conn \<Rightarrow> nat" where
  "TcpConnection_getLoop c = conn_loop c"

text \<open>A new connection has no callbacks; they are set one by one.\<close>

definition no_cbs :: conn_cbs where
  "no_cbs = \<lparr>connectionCb = None, messageCb = None, writeCompleteCb = None, closeCb = None\<rparr>"

definition setConnectionCallback :: "(conn_world \<Rightarrow> conn_world res) option \<Rightarrow> conn_cbs \<Rightarrow> conn_cbs" where
  "setConnectionCallback cb cbs = cbs\<lparr>connectionCb := cb\<rparr>"

definition setMessageCallback :: "(conn_world \<Rightarrow> conn_world res) option \<Rightarrow> conn_cbs \<Rightarrow> conn_cbs" where
  "setMessageCallback cb cbs = cbs\<lparr>messageCb := cb\<rparr>"

definition setCloseCallback :: "(conn_world \<Rightarrow> conn_world res) option \<Rightarrow> conn_cbs \<Rightarrow> conn_cbs" where
  "setCloseCallback cb cbs = cbs\<lparr>closeCb := cb\<rparr>"

definition setWriteCompleteCallback :: "(conn_world \<Rightarrow> conn_world res) option \<Rightarrow> conn_cbs \<Rightarrow> conn_cbs" where
  "setWriteCompleteCallback cb cbs = cbs\<lparr>writeCompleteCb := cb\<rparr>"

text \<open>
  \<open>wr\<close> is \<^verbatim>\<open>write(2)\<close> on the connection's descriptor: an error number or the count of bytes taken.
\<close>

definition EWOULDBLOCK :: int where
  "EWOULDBLOCK = 35"

definition EPIPE :: int where
  "EPIPE = 32"

definition ECONNRESET :: int where
  "ECONNRESET = 54"

type_synonym write_fun = "char list \<Rightarrow> int + nat"

definition write_documented :: "write_fun \<Rightarrow> bool" where
  "write_documented wr \<longleftrightarrow> (\<forall>d n. wr d = Inr n \<longrightarrow> n \<le> length d)"

text \<open>The direct write: number of bytes written, fatal error, and the trace.\<close>

definition try_write :: "write_fun \<Rightarrow> string \<Rightarrow> conn_world \<Rightarrow> nat \<times> bool \<times> conn_world" where
  "try_write wr message w =
     (if \<not> isWriting (conn_chan (conn w)) \<and> readableBytes (outputBuffer (conn w)) = 0
      then case wr message of
          Inr n \<Rightarrow> (n, False, emit (Wrote (take n message)) w)
        | Inl e \<Rightarrow> (0, e \<noteq> EWOULDBLOCK \<and> (e = EPIPE \<or> e = ECONNRESET), w)
      else (0, False, w))"

definition sendInLoop :: "write_fun \<Rightarrow> nat \<Rightarrow> string \<Rightarrow> conn_world \<Rightarrow> conn_world res" where
  "sendInLoop wr me message w =
     bind_res (conn_assert_loop me w)
       (\<lambda>_. let (nwrote, faultError, w1) = try_write wr message (emit (SendReq message) w);
                remaining = size_sub (length message) nwrote in
          if \<not> faultError \<and> 0 < remaining
          then bind_res (append (outputBuffer (conn w1)) (take remaining (drop nwrote message)))
                 (\<lambda>b. let w2 = set_out b w1 in
                   Inr (if \<not> isWriting (conn_chan (conn w2))
                        then update_interest (enableWriting_mask (conn_chan (conn w2))) w2 else w2))
          else Inr (if faultError then emit (Dropped message) w1 else w1))"

definition send :: "write_fun \<Rightarrow> nat \<Rightarrow> string \<Rightarrow> conn_world \<Rightarrow> conn_world res" where
  "send wr me message w =
     (if conn_state (conn w) = Connected
      then if conn_in_loop me w then sendInLoop wr me message w
           else Inr (emit (Queued (SendTask message)) w)
      else Inr w)"

definition shutdownInLoop :: "nat \<Rightarrow> conn_world \<Rightarrow> conn_world res" where
  "shutdownInLoop me w =
     bind_res (conn_assert_loop me w)
       (\<lambda>_. Inr (if \<not> isWriting (conn_chan (conn w)) then emit ShutdownWr w else w))"

definition handleError :: "conn_world \<Rightarrow> conn_world" where
  "handleError w = w"

text \<open>An optional callback is skipped when empty; a required one throws.\<close>

definition call_optional :: "conn_event \<Rightarrow> (conn_world \<Rightarrow> conn_world res) option \<Rightarrow> conn_world \<Rightarrow> conn_world res" where
  "call_optional e cb w = (case cb of Some f \<Rightarrow> f (emit e w) | None \<Rightarrow> Inr w)"

definition call_required :: "conn_event \<Rightarrow> (conn_world \<Rightarrow> conn_world res) option \<Rightarrow> conn_world \<Rightarrow> conn_world res" where
  "call_required e cb w = (case cb of Some f \<Rightarrow> f (emit e w) | None \<Rightarrow> Inl BadFunctionCall)"

definition handleClose :: "conn_cbs \<Rightarrow> nat \<Rightarrow> conn_world \<Rightarrow> conn_world res" where
  "handleClose cbs me w =
     bind_res (conn_assert_loop me w)
       (\<lambda>_. let w1 = disable_all (set_state Disconnected w) in
          bind_res (call_optional (CbConnection (conn_state (conn w1))) (connectionCb cbs) w1)
            (\<lambda>w2. call_required CbClose (closeCb cbs) w2))"

text \<open>The saved error number is never read back; its initial value does not matter.\<close>

definition handleRead :: "conn_cbs \<Rightarrow> (nat list \<Rightarrow> readv_result) \<Rightarrow> nat \<Rightarrow> conn_world \<Rightarrow> conn_world res" where
  "handleRead cbs readv me w =
     bind_res (conn_assert_loop me w)
       (\<lambda>_. bind_res (readFd readv (inputBuffer (conn w)) 0)
         (\<lambda>(n, savedErrno, b). let w1 = set_in b w in
            if 0 < n then call_required CbMessage (messageCb cbs) w1
            else if n = 0 then handleClose cbs me w1
            else Inr (handleError w1)))"

definition handleWrite :: "write_fun \<Rightarrow> nat \<Rightarrow> conn_world \<Rightarrow> conn_world res" where
  "handleWrite wr me w =
     bind_res (conn_assert_loop me w)
       (\<lambda>_. if isWriting (conn_chan (conn w))
            then bind_res (peek (outputBuffer (conn w)) (readableBytes (outputBuffer (conn w))))
              (\<lambda>data. case wr data of
                  Inr n \<Rightarrow>
                    if 0 < n
                    then bind_res (retrieve (outputBuffer (conn w)) n)
                      (\<lambda>b. let w1 = set_out b (emit (Wrote (take n data)) w) in
                         if readableBytes b = 0
                         then let w2 = update_interest (disableWriting_mask (conn_chan (conn w1))) w1 in
                           if conn_state (conn w2) = Disconnecting then shutdownInLoop me w2 else Inr w2
                         else Inr w1)
                    else Inr w
                | Inl e \<Rightarrow> Inr w)
            else Inr w)"

text \<open>\<open>self\<close> is the address of the shared object the channel is tied to.\<close>

definition connectEstablished :: "conn_cbs \<Rightarrow> nat \<Rightarrow> nat \<Rightarrow> conn_world \<Rightarrow> conn_world res" where
  "connectEstablished cbs self me w =
     bind_res (conn_assert_loop me w)
       (\<lambda>_. bind_res (check (conn_state (conn w) = Connecting) AssertFailed)
         (\<lambda>_. let w1 = set_state Connected w;
                  w2 = set_chan (tie (conn_chan (conn w1)) self) w1;
                  w3 = update_interest (enableReading_mask (conn_chan (conn w2))) w2 in
            call_optional (CbConnection (conn_state (conn w3))) (connectionCb cbs) w3))"

definition connectDestroyed :: "conn_cbs \<Rightarrow> nat \<Rightarrow> conn_world \<Rightarrow> conn_world res" where
  "connectDestroyed cbs me w =
     bind_res (conn_assert_loop me w)
       (\<lambda>_. bind_res
          (if conn_state (conn w) = Connected
           then let w1 = disable_all w in
             call_optional (CbConnection (conn_state (conn w1))) (connectionCb cbs) w1
           else Inr w)
          (\<lambda>w2. let w3 = set_state Disconnected w2 in
             Inr (if 0 \<le> index (conn_chan (conn w3)) then emit ChanRemoved w3 else w3)))"

definition shutdown :: "nat \<Rightarrow> conn_world \<Rightarrow> conn_world res" where
  "shutdown me w =
     (if conn_state (conn w) = Connected
      then let w1 = set_state Disconnecting w in
        if conn_in_loop me w1 then shutdownInLoop me w1 else Inr (emit (Queued ShutdownTask) w1)
      else Inr w)"

definition forceClose :: "conn_cbs \<Rightarrow> nat \<Rightarrow> conn_world \<Rightarrow> conn_world res" where
  "forceClose cbs me w =
     (if conn_state (conn w) = Connected \<or> conn_state (conn w) = Disconnecting
      then let w1 = set_state Disconnecting w in
        if conn_in_loop me w1 then handleClose cbs me w1 else Inr (emit (Queued CloseTask) w1)
      else Inr w)"

text \<open>
  \<^verbatim>\<open>state_\<close> is a plain member without a lock, and \<^verbatim>\<open>shutdown\<close> and \<^verbatim>\<open>forceClose\<close> may be called on any thread. On a
  thread other than the loop's, the loop may run between the test of the state, the assignment and the
  queueing of the functor. The parts, for the operation that will queue \<open>t\<close>; the third is
  \<open>emit (Queued t)\<close>, as in the definitions above.
\<close>

fun close_test :: "conn_task \<Rightarrow> conn_world \<Rightarrow> bool" where
  "close_test ShutdownTask w = (conn_state (conn w) = Connected)"
| "close_test CloseTask w = (conn_state (conn w) = Connected \<or> conn_state (conn w) = Disconnecting)"
| "close_test _ w = False"

definition test_state :: "conn_task \<Rightarrow> conn_world \<Rightarrow> conn_world res" where
  "test_state t w = Inr (if close_test t w then emit (StateTested t) w else w)"

definition late_set :: "conn_task \<Rightarrow> conn_world \<Rightarrow> conn_world res" where
  "late_set t w =
     Inr (if StateTested t \<in> set (trace w)
          then emit (LateSet (conn_state (conn w))) (set_state Disconnecting w) else w)"

text \<open>With nothing in between, the parts are the whole, up to the marks.\<close>

lemma close_parts:
  assumes "\<not> conn_in_loop me w" and "close_test t w"
  shows "bind_res (test_state t w) (late_set t) =
      Inr (emit (LateSet (conn_state (conn w))) (set_state Disconnecting (emit (StateTested t) w)))"
    and "t = ShutdownTask \<Longrightarrow> shutdown me w = Inr (emit (Queued t) (set_state Disconnecting w))"
    and "t = CloseTask \<Longrightarrow> forceClose cbs me w = Inr (emit (Queued t) (set_state Disconnecting w))"
  using assms by (auto simp: test_state_def late_set_def emit_def shutdown_def forceClose_def conn_in_loop_def set_state_def)

text \<open>A queued functor when the loop runs it.\<close>

fun run_task :: "conn_cbs \<Rightarrow> write_fun \<Rightarrow> nat \<Rightarrow> conn_task \<Rightarrow> conn_world \<Rightarrow> conn_world res" where
  "run_task cbs wr me (SendTask msg) w = sendInLoop wr me msg w"
| "run_task cbs wr me ShutdownTask w = shutdownInLoop me w"
| "run_task cbs wr me CloseTask w = handleClose cbs me w"
| "run_task cbs wr me DestroyTask w = connectDestroyed cbs me w"

text \<open>The callbacks the constructor installs on the channel.\<close>

definition conn_channel_callbacks :: "conn_cbs \<Rightarrow> write_fun \<Rightarrow> (nat list \<Rightarrow> readv_result) \<Rightarrow> nat \<Rightarrow>
    conn_world channel_callbacks" where
  "conn_channel_callbacks cbs wr readv me =
     Channel_setErrorCallback (Some (\<lambda>w. Inr (handleError w)))
       (Channel_setCloseCallback (Some (handleClose cbs me))
         (Channel_setWriteCallback (Some (handleWrite wr me))
           (Channel_setReadCallback (Some (handleRead cbs readv me)) no_channel_callbacks)))"

definition handle_event :: "conn_cbs \<Rightarrow> write_fun \<Rightarrow> (nat list \<Rightarrow> readv_result) \<Rightarrow> (nat \<Rightarrow> bool) \<Rightarrow> nat \<Rightarrow> 32 word \<Rightarrow>
    conn_world \<Rightarrow> conn_world res" where
  "handle_event cbs wr readv alive me r w =
     handleEvent alive (setRevents (conn_chan (conn w)) r) (conn_channel_callbacks cbs wr readv me) w"

section \<open>What callbacks may do and how a connection runs\<close>

text \<open>
  User code is any composition, chosen by looking at the state, of calls of the public operations,
  of retrieving received bytes and of queueing functors on the loop. The callbacks that run inside a
  nested \<open>forceClose\<close> are of the same kind. The parts of a \<open>shutdown\<close> or \<open>forceClose\<close> that another thread is
  executing are among them, each on its own, so they come between the operations of the loop and
  between the calls of a callback.
\<close>

definition cb_list :: "conn_cbs \<Rightarrow> (conn_world \<Rightarrow> conn_world res) set" where
  "cb_list cbs = set_option (connectionCb cbs) \<union> set_option (messageCb cbs) \<union> set_option (closeCb cbs)"

fun task_ok :: "conn_task \<Rightarrow> bool" where
  "task_ok (SendTask msg) = (length msg \<le> vec_max)"
| "task_ok _ = True"

inductive api_fun :: "(conn_world \<Rightarrow> conn_world res) \<Rightarrow> bool" where
  api_skip: "api_fun Inr"
| api_seq: "api_fun f \<Longrightarrow> api_fun g \<Longrightarrow> api_fun (\<lambda>w. bind_res (f w) g)"
| api_choose: "(\<And>w. api_fun (F w)) \<Longrightarrow> api_fun (\<lambda>w. F w w)"
| api_send: "write_documented wr \<Longrightarrow> length msg \<le> vec_max \<Longrightarrow> api_fun (send wr me msg)"
| api_shutdown: "api_fun (shutdown me)"
| api_forceClose: "(\<And>f. f \<in> cb_list cbs \<Longrightarrow> api_fun f) \<Longrightarrow> api_fun (forceClose cbs me)"
| api_take: "api_fun (\<lambda>w. bind_res (retrieve (inputBuffer (conn w)) n) (\<lambda>b. Inr (set_in b w)))"
| api_takeall: "(\<And>msg. length msg \<le> vec_max \<Longrightarrow> api_fun (k msg)) \<Longrightarrow>
    api_fun (\<lambda>w. bind_res (retrieveAllAsString (inputBuffer (conn w))) (\<lambda>(msg, b). k msg (set_in b w)))"
| api_queue: "task_ok t \<Longrightarrow> api_fun (\<lambda>w. Inr (emit (Queued t) w))"
| api_test: "api_fun (test_state t)"
| api_late: "api_fun (late_set t)"

definition cbs_ok :: "conn_cbs \<Rightarrow> bool" where
  "cbs_ok cbs \<longleftrightarrow> (\<forall>f \<in> cb_list cbs. api_fun f)"

definition conn_start :: "conn_world \<Rightarrow> bool" where
  "conn_start w \<longleftrightarrow> (\<exists>lp tid name fd laddr paddr. w = \<lparr>conn = TcpConnection_ctor lp tid name fd laddr paddr, trace = []\<rparr>)"

text \<open>
  One step: the server establishes the connection, user code on any thread calls it, the loop
  dispatches an event of the channel, or the loop runs a functor queued before.
\<close>

inductive conn_step :: "conn_world \<Rightarrow> conn_world \<Rightarrow> bool" where
  step_established: "cbs_ok cbs \<Longrightarrow> connectEstablished cbs self me w = Inr w' \<Longrightarrow> conn_step w w'"
| step_api: "api_fun f \<Longrightarrow> f w = Inr w' \<Longrightarrow> conn_step w w'"
| step_event: "cbs_ok cbs \<Longrightarrow> write_documented wr \<Longrightarrow> readv_documented readv \<Longrightarrow>
    handle_event cbs wr readv alive me r w = Inr w' \<Longrightarrow> conn_step w w'"
| step_task: "cbs_ok cbs \<Longrightarrow> write_documented wr \<Longrightarrow> task_ok t \<Longrightarrow> Queued t \<in> set (trace w) \<Longrightarrow>
    run_task cbs wr me t w = Inr w' \<Longrightarrow> conn_step w w'"

section \<open>Invariant\<close>

fun sent :: "conn_event list \<Rightarrow> string" where
  "sent [] = []"
| "sent (SendReq m # tr) = m @ sent tr"
| "sent (_ # tr) = sent tr"

fun written :: "conn_event list \<Rightarrow> string" where
  "written [] = []"
| "written (Wrote m # tr) = m @ written tr"
| "written (_ # tr) = written tr"

fun no_drop :: "conn_event list \<Rightarrow> bool" where
  "no_drop [] = True"
| "no_drop (Dropped m # tr) = False"
| "no_drop (_ # tr) = no_drop tr"

text \<open>
  Whether a thread tested the state for a \<open>shutdown\<close> or \<open>forceClose\<close>, and whether no such thread wrote its
  \<open>Disconnecting\<close> over \<open>Disconnected\<close>.
\<close>

fun tested :: "conn_event list \<Rightarrow> bool" where
  "tested [] = False"
| "tested (StateTested t # tr) = True"
| "tested (_ # tr) = tested tr"

fun no_late :: "conn_event list \<Rightarrow> bool" where
  "no_late [] = True"
| "no_late (LateSet st # tr) = (st \<noteq> Disconnected \<and> no_late tr)"
| "no_late (_ # tr) = no_late tr"

text \<open>
  Whenever the write side is shut down on a connection whose interest was never dropped and that
  lost no message, everything sent before has been written; \<open>p\<close> is the trace so far.
\<close>

fun fin_from :: "conn_event list \<Rightarrow> conn_event list \<Rightarrow> bool" where
  "fin_from p [] = True"
| "fin_from p (e # tr) =
     ((e = ShutdownWr \<longrightarrow> ChanDisabled \<notin> set p \<longrightarrow> no_drop p \<longrightarrow> written p = sent p) \<and> fin_from (p @ [e]) tr)"

abbreviation fin_ok :: "conn_event list \<Rightarrow> bool" where
  "fin_ok tr \<equiv> fin_from [] tr"

definition conn_inv :: "conn_world \<Rightarrow> bool" where
  "conn_inv w \<longleftrightarrow>
     buf_inv (inputBuffer (conn w)) \<and> buf_inv (outputBuffer (conn w)) \<and> index (conn_chan (conn w)) = -1 \<and>
     (isWriting (conn_chan (conn w)) \<longrightarrow> content (outputBuffer (conn w)) \<noteq> []) \<and>
     (ChanDisabled \<notin> set (trace w) \<longrightarrow> content (outputBuffer (conn w)) \<noteq> [] \<longrightarrow> isWriting (conn_chan (conn w))) \<and>
     (no_drop (trace w) \<longrightarrow> written (trace w) @ content (outputBuffer (conn w)) = sent (trace w)) \<and>
     fin_ok (trace w) \<and> CbWriteComplete \<notin> set (trace w) \<and> ChanRemoved \<notin> set (trace w) \<and>
     (no_late (trace w) \<or> tested (trace w) \<and> Disconnecting \<le> conn_state (conn w))"

text \<open>
  How one state of a connection may follow another: the frame of every operation. The state moves
  forward unless a thread overwrote \<open>Disconnected\<close> on the way.
\<close>

definition state_follows :: "conn_event list \<Rightarrow> conn_state \<Rightarrow> conn_state \<Rightarrow> bool" where
  "state_follows tr st st' \<longleftrightarrow> st \<le> st' \<or> \<not> no_late tr \<and> st' = Disconnecting"

definition conn_evolves :: "conn_world \<Rightarrow> conn_world \<Rightarrow> bool" where
  "conn_evolves w w' \<longleftrightarrow>
     (\<exists>tr. trace w' = trace w @ tr \<and> state_follows tr (conn_state (conn w)) (conn_state (conn w'))) \<and>
     conn_loop (conn w') = conn_loop (conn w) \<and> conn_thread (conn w') = conn_thread (conn w) \<and>
     conn_name (conn w') = conn_name (conn w) \<and> conn_socket (conn w') = conn_socket (conn w)"

definition conn_ok :: "conn_world \<Rightarrow> conn_world \<Rightarrow> bool" where
  "conn_ok w w' \<longleftrightarrow> (conn_inv w \<longrightarrow> conn_inv w' \<and> conn_evolves w w')"

lemma sent_append [simp]: "sent (tr @ tr') = sent tr @ sent tr'"
  by (induction tr rule: sent.induct) simp_all

lemma written_append [simp]: "written (tr @ tr') = written tr @ written tr'"
  by (induction tr rule: written.induct) simp_all

lemma no_drop_append [simp]: "no_drop (tr @ tr') \<longleftrightarrow> no_drop tr \<and> no_drop tr'"
  by (induction tr rule: no_drop.induct) simp_all

lemma tested_append [simp]: "tested (tr @ tr') \<longleftrightarrow> tested tr \<or> tested tr'"
  by (induction tr rule: tested.induct) simp_all

lemma tested_iff: "tested tr \<longleftrightarrow> (\<exists>t. StateTested t \<in> set tr)"
  by (induction tr rule: tested.induct) auto

lemma no_late_append [simp]: "no_late (tr @ tr') \<longleftrightarrow> no_late tr \<and> no_late tr'"
  by (induction tr rule: no_late.induct) simp_all

lemma no_late_iff: "no_late tr \<longleftrightarrow> LateSet Disconnected \<notin> set tr"
  by (induction tr rule: no_late.induct) auto

lemma state_follows_refl [simp]: "state_follows tr st st"
  by (simp add: state_follows_def)

lemma state_follows_trans:
  "state_follows tr a b \<Longrightarrow> state_follows tr' b c \<Longrightarrow> state_follows (tr @ tr') a c"
  by (cases a; cases b; cases c) (auto simp: state_follows_def less_eq_conn_state_def)

lemma fin_from_append [simp]: "fin_from p (tr @ tr') \<longleftrightarrow> fin_from p tr \<and> fin_from (p @ tr) tr'"
  by (induction tr arbitrary: p) auto

lemma conn_ok_refl [simp, intro]: "conn_ok w w"
  by (simp add: conn_ok_def conn_evolves_def)

lemma conn_okI: "(conn_inv w \<Longrightarrow> conn_inv w') \<Longrightarrow> (conn_inv w \<Longrightarrow> conn_evolves w w') \<Longrightarrow> conn_ok w w'"
  by (simp add: conn_ok_def)

lemma conn_ok_trans: "conn_ok u v \<Longrightarrow> conn_ok v w \<Longrightarrow> conn_ok u w"
  unfolding conn_ok_def conn_evolves_def by (metis append_assoc state_follows_trans)

lemma conn_state_order [simp]:
  "st \<le> Disconnected" "Connecting \<le> st" "Connected \<le> Disconnecting" "Connecting \<le> Connected"
  by (cases st; simp add: less_eq_conn_state_def)+

lemmas world_defs = emit_def set_state_def set_chan_def set_out_def set_in_def update_interest_def disable_all_def

lemma world_simps [simp]:
  "conn (emit e w) = conn w" "trace (emit e w) = trace w @ [e]"
  "conn_chan (conn (set_out b w)) = conn_chan (conn w)" "outputBuffer (conn (set_out b w)) = b"
  "conn_state (conn (set_out b w)) = conn_state (conn w)" "trace (set_out b w) = trace w"
  "conn_thread (conn (set_out b w)) = conn_thread (conn w)"
  by (simp_all add: emit_def set_out_def)

section \<open>Every operation keeps the invariant\<close>

text \<open>Events that neither move bytes nor end the output.\<close>

fun quiet :: "conn_event \<Rightarrow> bool" where
  "quiet (SendReq m) = False"
| "quiet (Wrote m) = False"
| "quiet (Dropped m) = False"
| "quiet ShutdownWr = False"
| "quiet CbWriteComplete = False"
| "quiet ChanRemoved = False"
| "quiet (LateSet st) = False"
| "quiet _ = True"

lemma quietD:
  "quiet e \<Longrightarrow> sent [e] = [] \<and> written [e] = [] \<and> no_drop [e] \<and> e \<noteq> ShutdownWr \<and> e \<noteq> CbWriteComplete \<and> e \<noteq> ChanRemoved \<and> no_late [e]"
  by (cases e) simp_all

lemma emit_ok:
  assumes "quiet e"
  shows "conn_ok w (emit e w)"
  using quietD [OF assms] by (auto simp: conn_ok_def conn_evolves_def conn_inv_def emit_def simp del: sent.simps written.simps no_drop.simps)

lemma set_state_ok: "conn_state (conn w) \<le> st \<Longrightarrow> conn_ok w (set_state st w)"
  by (auto simp: conn_ok_def conn_evolves_def conn_inv_def set_state_def state_follows_def intro: order_trans)

lemma late_set_ok: "late_set t w = Inr w' \<Longrightarrow> conn_ok w w'"
proof (cases "StateTested t \<in> set (trace w)")
  case True
  moreover assume "late_set t w = Inr w'"
  ultimately have w': "w' = emit (LateSet (conn_state (conn w))) (set_state Disconnecting w)" and "tested (trace w)"
    by (auto simp: late_set_def tested_iff)
  then show ?thesis
    by (cases "conn_state (conn w)") (simp_all add: conn_ok_def conn_evolves_def conn_inv_def world_defs state_follows_def less_eq_conn_state_def)
qed (simp add: late_set_def)

lemma set_in_ok: "(buf_inv (inputBuffer (conn w)) \<Longrightarrow> buf_inv b) \<Longrightarrow> conn_ok w (set_in b w)"
  by (simp add: conn_ok_def conn_evolves_def conn_inv_def set_in_def)

lemma disable_all_ok: "conn_ok w (disable_all w)"
  by (auto simp: conn_ok_def conn_evolves_def conn_inv_def world_defs)

lemma tie_simps [simp]: "isWriting (tie ch obj) = isWriting ch" "index (tie ch obj) = index ch"
  by (simp_all add: tie_def isWriting_def)

lemma enableReading_ok: "conn_ok w (update_interest (enableReading_mask (tie (conn_chan (conn w)) obj)) w)"
  by (auto simp: conn_ok_def conn_evolves_def conn_inv_def world_defs)

text \<open>The first half of \<open>sendInLoop\<close>, up to the decision whether something is left to buffer.\<close>

lemma try_write_cases:
  assumes "write_documented wr"
  obtains (buffered) "try_write wr m w = (0, False, w)"
      "isWriting (conn_chan (conn w)) \<or> readableBytes (outputBuffer (conn w)) \<noteq> 0 \<or> (\<exists>e. wr m = Inl e)"
    | (direct) n where "try_write wr m w = (n, False, emit (Wrote (take n m)) w)" "n \<le> length m" "wr m = Inr n"
      "\<not> isWriting (conn_chan (conn w))" "readableBytes (outputBuffer (conn w)) = 0"
    | (fatal) "try_write wr m w = (0, True, w)"
proof (cases "\<not> isWriting (conn_chan (conn w)) \<and> readableBytes (outputBuffer (conn w)) = 0")
  case True
  then show thesis
    using assms that by (cases "wr m") (auto simp: try_write_def write_documented_def)
next
  case False
  then show thesis using that by (auto simp: try_write_def)
qed

text \<open>Bytes that are left are appended to the output and writing is switched on if it was off.\<close>

lemma buffered_rest_ok:
  assumes len: "length d \<le> vec_max" and d: "d \<noteq> []" and app: "append (outputBuffer (conn w)) d = Inr b"
    and v: "conn v = conn w" "trace v = trace w @ SendReq m # tr" "set tr \<subseteq> {Wrote k}" "written tr @ d = m"
    and idle: "conn_inv w \<Longrightarrow> tr \<noteq> [] \<Longrightarrow> content (outputBuffer (conn w)) = []"
  shows "conn_ok w (if isWriting (conn_chan (conn w)) then set_out b v
                    else update_interest (enableWriting_mask (conn_chan (conn w))) (set_out b v))"
proof (rule conn_okI)
  have tr: "sent tr = []" "no_drop tr" "no_late tr" "fin_from p tr" "ChanDisabled \<notin> set tr" "CbWriteComplete \<notin> set tr" "ChanRemoved \<notin> set tr" for p
    using v(3) by (induction tr arbitrary: p) auto
  assume inv: "conn_inv w"
  then have b: "buf_inv b \<and> content b = content (outputBuffer (conn w)) @ d"
    by (intro append_sound [OF _ len app]) (simp add: conn_inv_def)
  have out: "written (trace w) @ written tr @ content (outputBuffer (conn w)) @ d = sent (trace w) @ m" if "no_drop (trace w)"
  proof -
    have "written (trace w) @ content (outputBuffer (conn w)) = sent (trace w)"
      using inv that unfolding conn_inv_def by blast
    then show ?thesis
      using idle [OF inv] v(4) by (cases "tr = []") (simp_all flip: v(4) append_assoc)
  qed
  show "conn_inv (if isWriting (conn_chan (conn w)) then set_out b v
                  else update_interest (enableWriting_mask (conn_chan (conn w))) (set_out b v))"
    (is "conn_inv ?w")
  proof -
    have "trace ?w = trace w @ SendReq m # tr @ (if isWriting (conn_chan (conn w)) then [] else [Interest (isReading (conn_chan (conn w))) True])"
      "outputBuffer (conn ?w) = b" "inputBuffer (conn ?w) = inputBuffer (conn w)"
      "isWriting (conn_chan (conn ?w))" "index (conn_chan (conn ?w)) = index (conn_chan (conn w))"
      "conn_state (conn ?w) = conn_state (conn w)"
      by (simp_all add: world_defs v(1,2))
    moreover have "buf_inv (inputBuffer (conn w)) \<and> index (conn_chan (conn w)) = -1 \<and> fin_ok (trace w) \<and>
        CbWriteComplete \<notin> set (trace w) \<and> ChanRemoved \<notin> set (trace w) \<and>
        (no_late (trace w) \<or> tested (trace w) \<and> Disconnecting \<le> conn_state (conn w))"
      using inv unfolding conn_inv_def by blast
    ultimately show ?thesis
      using b d tr out by (simp add: conn_inv_def) blast
  qed
next
  show "conn_evolves w (if isWriting (conn_chan (conn w)) then set_out b v
                  else update_interest (enableWriting_mask (conn_chan (conn w))) (set_out b v))"
    by (simp add: conn_evolves_def world_defs v(1,2))
qed

lemma sendInLoop_ok:
  assumes doc: "write_documented wr" and len: "length m \<le> vec_max" and ret: "sendInLoop wr me m w = Inr w'"
  shows "conn_ok w w'"
  using doc
proof (cases rule: try_write_cases [where m = m and w = "emit (SendReq m) w"])
  case buffered
  show ?thesis
  proof (cases "m = []")
    case True
    then have "w' = emit (SendReq []) w"
      using ret buffered by (auto simp: sendInLoop_def res_simps size_simps)
    then show ?thesis
      by (simp add: conn_ok_def conn_evolves_def conn_inv_def)
  next
    case False
    with ret buffered len obtain b where b: "append (outputBuffer (conn w)) m = Inr b"
      "w' = (if isWriting (conn_chan (conn w)) then set_out b (emit (SendReq m) w)
             else update_interest (enableWriting_mask (conn_chan (conn w))) (set_out b (emit (SendReq m) w)))"
      by (auto simp: sendInLoop_def res_simps size_simps Let_def)
    show ?thesis
      unfolding b(2) by (rule buffered_rest_ok [OF len False b(1), of _ m "[]"]) simp_all
  qed
next
  case (direct n)
  have idle: "conn_inv w \<Longrightarrow> content (outputBuffer (conn w)) = []"
    using direct readableBytes_0_iff [of "outputBuffer (conn w)"] by (simp add: conn_inv_def)
  show ?thesis
  proof (cases "n = length m")
    case True
    then show ?thesis
      using ret direct len readableBytes_0_iff [of "outputBuffer (conn w)"]
      by (auto simp: sendInLoop_def res_simps size_simps conn_ok_def conn_evolves_def conn_inv_def world_defs)
  next
    case False
    with ret direct len obtain b where b: "append (outputBuffer (conn w)) (drop n m) = Inr b"
      "w' = (if isWriting (conn_chan (conn w)) then set_out b (emit (Wrote (take n m)) (emit (SendReq m) w))
             else update_interest (enableWriting_mask (conn_chan (conn w))) (set_out b (emit (Wrote (take n m)) (emit (SendReq m) w))))"
      by (auto simp: sendInLoop_def res_simps size_simps Let_def split: if_splits)
    show ?thesis
      unfolding b(2) using len False direct(2) idle
      by (intro buffered_rest_ok [OF _ _ b(1), of _ m "[Wrote (take n m)]" "take n m"]) simp_all
  qed
next
  case fatal
  then show ?thesis
    using ret by (auto simp: sendInLoop_def res_simps conn_ok_def conn_evolves_def conn_inv_def world_defs)
qed

lemma send_ok: "write_documented wr \<Longrightarrow> length m \<le> vec_max \<Longrightarrow> send wr me m w = Inr w' \<Longrightarrow> conn_ok w w'"
  by (auto simp: send_def intro: sendInLoop_ok emit_ok split: if_splits)

lemma shutdownInLoop_ok: "shutdownInLoop me w = Inr w' \<Longrightarrow> conn_ok w w'"
  by (cases "isWriting (conn_chan (conn w))")
     (auto simp: shutdownInLoop_def res_simps conn_ok_def conn_evolves_def conn_inv_def world_defs)

lemma shutdown_ok: "shutdown me w = Inr w' \<Longrightarrow> conn_ok w w'"
  using set_state_ok [of w Disconnecting]
  by (auto simp: shutdown_def Let_def split: if_splits
      intro: conn_ok_trans [OF _ shutdownInLoop_ok] conn_ok_trans [OF _ emit_ok])

text \<open>The event handlers, given what the callbacks they invoke do.\<close>

lemma call_ok:
  assumes "\<And>f u v. cb = Some f \<Longrightarrow> f u = Inr v \<Longrightarrow> conn_ok u v"
    and "e = CbMessage \<or> e = CbClose \<or> (\<exists>st. e = CbConnection st)"
  shows "call_optional e cb w = Inr w' \<Longrightarrow> conn_ok w w'" and "call_required e cb w = Inr w' \<Longrightarrow> conn_ok w w'"
  using assms emit_ok [of e w]
  by (auto simp: call_optional_def call_required_def split: option.splits intro: conn_ok_trans)

lemma handleClose_ok:
  assumes cbs: "\<And>f u v. f \<in> cb_list cbs \<Longrightarrow> f u = Inr v \<Longrightarrow> conn_ok u v" and ret: "handleClose cbs me w = Inr w'"
  shows "conn_ok w w'"
proof -
  let ?w1 = "disable_all (set_state Disconnected w)"
  obtain w2 where w2: "call_optional (CbConnection (conn_state (conn ?w1))) (connectionCb cbs) ?w1 = Inr w2"
      "call_required CbClose (closeCb cbs) w2 = Inr w'"
    using ret by (auto simp: handleClose_def res_simps Let_def)
  have "conn_ok w ?w1"
    using conn_ok_trans [OF set_state_ok disable_all_ok] by simp
  moreover have "conn_ok ?w1 w2" "conn_ok w2 w'"
    using call_ok(1) [OF _ _ w2(1)] call_ok(2) [OF _ _ w2(2)] cbs by (auto simp: cb_list_def)
  ultimately show ?thesis by (blast intro: conn_ok_trans)
qed

lemma forceClose_ok:
  assumes cbs: "\<And>f u v. f \<in> cb_list cbs \<Longrightarrow> f u = Inr v \<Longrightarrow> conn_ok u v" and ret: "forceClose cbs me w = Inr w'"
  shows "conn_ok w w'"
proof (cases "conn_state (conn w) = Connected \<or> conn_state (conn w) = Disconnecting")
  case True
  then have "conn_ok w (set_state Disconnecting w)"
    by (auto intro!: set_state_ok)
  with True ret handleClose_ok [of cbs me "set_state Disconnecting w" w', OF cbs] show ?thesis
    by (auto simp: forceClose_def Let_def split: if_splits intro: conn_ok_trans conn_ok_trans [OF _ emit_ok])
next
  case False
  then show ?thesis using ret by (simp add: forceClose_def)
qed

lemma api_fun_ok: "api_fun f \<Longrightarrow> f w = Inr w' \<Longrightarrow> conn_ok w w'"
proof (induction arbitrary: w w' rule: api_fun.induct)
  case (api_seq f g)
  from api_seq.prems obtain v where "f w = Inr v" "g v = Inr w'"
    by (rule bind_res_InrE)
  with api_seq.IH show ?case by (blast intro: conn_ok_trans)
next
  case (api_send wr msg me)
  then show ?case by (blast intro: send_ok)
next
  case (api_shutdown me)
  then show ?case by (rule shutdown_ok)
next
  case (api_forceClose cbs me)
  then show ?case by (blast intro: forceClose_ok)
next
  case (api_take n)
  then show ?case using retrieve_sound by (auto simp: res_simps intro!: set_in_ok)
next
  case (api_takeall k)
  have "conn_ok w w'" if inv: "conn_inv w"
  proof -
    let ?b = "inputBuffer (conn w)"
    have b: "buf_inv ?b" using inv by (simp add: conn_inv_def)
    with api_takeall.prems have k: "k (content ?b) (set_in (retrieveAll ?b) w) = Inr w'"
      by (simp add: retrieveAllAsString_ok)
    have "length (content ?b) \<le> vec_max" using length_content [OF b] buf_invD [OF b] by simp
    from conn_ok_trans [OF set_in_ok api_takeall.IH [OF this k]] show ?thesis by simp
  qed
  then show ?case by (auto simp: conn_ok_def)
next
  case (api_queue t)
  then show ?case by (auto intro: emit_ok)
next
  case (api_test t)
  then show ?case by (auto simp: test_state_def intro: emit_ok split: if_splits)
next
  case (api_late t)
  then show ?case by (rule late_set_ok)
qed auto

lemma cbs_ok_call: "cbs_ok cbs \<Longrightarrow> f \<in> cb_list cbs \<Longrightarrow> f u = Inr v \<Longrightarrow> conn_ok u v"
  by (auto simp: cbs_ok_def intro: api_fun_ok)

lemma handleRead_ok:
  assumes cbs: "cbs_ok cbs" and doc: "readv_documented readv" and ret: "handleRead cbs readv me w = Inr w'"
  shows "conn_ok w w'"
proof -
  obtain n e b where rd: "readFd readv (inputBuffer (conn w)) 0 = Inr (n, e, b)"
    and w': "(if 0 < n then call_required CbMessage (messageCb cbs) (set_in b w)
              else if n = 0 then handleClose cbs me (set_in b w)
              else Inr (handleError (set_in b w))) = Inr w'"
    using ret by (auto simp: handleRead_def res_simps Let_def)
  have "conn_ok w (set_in b w)"
    using readFd_sound [OF _ doc rd] by (intro set_in_ok) simp
  moreover have "conn_ok (set_in b w) w'"
    using w' cbs_ok_call [OF cbs] handleClose_ok [of cbs me "set_in b w" w']
      call_ok(2) [of "messageCb cbs" CbMessage "set_in b w" w']
    by (auto simp: handleError_def cb_list_def split: if_splits)
  ultimately show ?thesis by (rule conn_ok_trans)
qed

text \<open>What one writable event does when the kernel takes \<open>n\<close> bytes.\<close>

lemma handleWrite_takes:
  assumes inv: "conn_inv w" and me: "conn_in_loop me w" and on: "isWriting (conn_chan (conn w))"
    and wr: "wr (content (outputBuffer (conn w))) = Inr n" "0 < n" "n \<le> length (content (outputBuffer (conn w)))"
  shows "\<exists>b. buf_inv b \<and> content b = drop n (content (outputBuffer (conn w))) \<and>
     handleWrite wr me w =
       (let w1 = set_out b (emit (Wrote (take n (content (outputBuffer (conn w))))) w) in
        if content b = []
        then let w2 = update_interest (disableWriting_mask (conn_chan (conn w))) w1 in
             Inr (if conn_state (conn w) = Disconnecting then emit ShutdownWr w2 else w2)
        else Inr w1)"
proof -
  have out: "buf_inv (outputBuffer (conn w))" using inv by (simp add: conn_inv_def)
  from retrieve_ok [OF out wr(3)] obtain b where b: "retrieve (outputBuffer (conn w)) n = Inr b" "buf_inv b"
      "content b = drop n (content (outputBuffer (conn w)))"
    by blast
  have "conn_thread (conn w) = me" using me by (simp add: conn_in_loop_def)
  with b wr on out show ?thesis
    by (intro exI [of _ b])
       (simp add: handleWrite_def conn_assert_loop_def conn_in_loop_def Let_def readableBytes_0_iff shutdownInLoop_def
         update_interest_def set_chan_def)
qed

lemma handleWrite_ok:
  assumes doc: "write_documented wr" and ret: "handleWrite wr me w = Inr w'"
  shows "conn_ok w w'"
proof (cases "conn_inv w \<and> isWriting (conn_chan (conn w)) \<and> (\<exists>n. wr (content (outputBuffer (conn w))) = Inr n \<and> 0 < n)")
  case True
  let ?out = "content (outputBuffer (conn w))"
  have me: "conn_in_loop me w"
    using ret by (auto simp: handleWrite_def conn_assert_loop_def res_simps)
  obtain n where inv: "conn_inv w" and n: "isWriting (conn_chan (conn w))" "wr ?out = Inr n" "0 < n" "n \<le> length ?out"
    using True doc by (auto simp: write_documented_def)
  from handleWrite_takes [where wr = wr, OF inv me n] ret obtain b where b: "buf_inv b" "content b = drop n ?out" and
    w': "Inr w' = (let w1 = set_out b (emit (Wrote (take n ?out)) w) in
      if content b = []
      then let w2 = update_interest (disableWriting_mask (conn_chan (conn w))) w1 in
           Inr (if conn_state (conn w) = Disconnecting then emit ShutdownWr w2 else w2)
      else Inr w1 :: conn_world res)"
    by metis
  show ?thesis
    using inv n b w'
    by (cases "content b = []"; cases "conn_state (conn w) = Disconnecting")
       (simp_all add: conn_ok_def conn_evolves_def conn_inv_def world_defs Let_def)
next
  case False
  have "w' = w" if "conn_inv w"
    using that False ret
    by (cases "wr (content (outputBuffer (conn w)))") (auto simp: handleWrite_def conn_inv_def res_simps split: if_splits)
  then show ?thesis by (auto intro: conn_okI simp: conn_evolves_def)
qed

lemma connectEstablished_ok:
  assumes cbs: "cbs_ok cbs" and ret: "connectEstablished cbs self me w = Inr w'"
  shows "conn_ok w w'"
proof -
  let ?w1 = "set_state Connected w"
  let ?w3 = "update_interest (enableReading_mask (tie (conn_chan (conn ?w1)) self)) ?w1"
  have st: "conn_state (conn w) = Connecting"
    and cb: "call_optional (CbConnection (conn_state (conn ?w3))) (connectionCb cbs) ?w3 = Inr w'"
    using ret by (auto simp: connectEstablished_def res_simps Let_def set_chan_def update_interest_def)
  have "conn_ok w ?w3"
    using conn_ok_trans [OF set_state_ok enableReading_ok] st by simp
  moreover have "conn_ok ?w3 w'"
    using call_ok(1) [OF _ _ cb] cbs_ok_call [OF cbs] by (auto simp: cb_list_def)
  ultimately show ?thesis by (rule conn_ok_trans)
qed

lemma connectDestroyed_ok:
  assumes cbs: "cbs_ok cbs" and ret: "connectDestroyed cbs me w = Inr w'"
  shows "conn_ok w w'"
proof -
  obtain w2 where w2: "(if conn_state (conn w) = Connected then let w1 = disable_all w in
        call_optional (CbConnection (conn_state (conn w1))) (connectionCb cbs) w1
      else Inr w) = Inr w2"
    and w': "(let w3 = set_state Disconnected w2 in Inr (if 0 \<le> index (conn_chan (conn w3)) then emit ChanRemoved w3 else w3)) = (Inr w' :: conn_world res)"
    using ret by (auto simp: connectDestroyed_def bind_res_eq_Inr)
  have "conn_ok w w2"
  proof (cases "conn_state (conn w) = Connected")
    case True
    then have "conn_ok (disable_all w) w2"
      using w2 call_ok(1) [of "connectionCb cbs" _ "disable_all w" w2] cbs_ok_call [OF cbs]
      by (auto simp: cb_list_def Let_def)
    with disable_all_ok show ?thesis by (rule conn_ok_trans)
  qed (use w2 in simp)
  moreover have "conn_ok w2 w'"
  proof (cases "conn_inv w2")
    case True
    then have "w' = set_state Disconnected w2"
      using w' by (simp add: Let_def conn_inv_def set_state_def)
    then show ?thesis using set_state_ok [of w2 Disconnected] by simp
  qed (simp add: conn_ok_def)
  ultimately show ?thesis by (rule conn_ok_trans)
qed

lemma handle_event_ok:
  assumes "cbs_ok cbs" "write_documented wr" "readv_documented readv" "handle_event cbs wr readv alive me r w = Inr w'"
  shows "conn_ok w w'"
proof -
  note handlers = handleRead_ok [OF assms(1,3)] handleWrite_ok [OF assms(2)] handleClose_ok [OF cbs_ok_call [OF assms(1)]]
  have call: "conn_ok u v" if "call_if P cb u = Inr v"
    "cb = Some (handleRead cbs readv me) \<or> cb = Some (handleWrite wr me) \<or> cb = Some (handleClose cbs me)
       \<or> cb = Some (\<lambda>w. Inr (handleError w))" for P cb u v
    using that handlers by (auto simp: call_if_def handleError_def split: if_splits)
  show ?thesis
    using assms(4)
    by (auto simp: handle_event_def handleEvent_def handleEventWithGuard_def conn_channel_callbacks_def res_simps
        split: if_splits option.splits intro: conn_ok_trans dest!: call)
qed

lemma run_task_ok:
  assumes "cbs_ok cbs" "write_documented wr" "task_ok t" "run_task cbs wr me t w = Inr w'"
  shows "conn_ok w w'"
  using assms handleClose_ok [OF cbs_ok_call [OF assms(1)]]
  by (cases t) (auto intro: sendInLoop_ok shutdownInLoop_ok connectDestroyed_ok)

lemma conn_step_ok: "conn_step w w' \<Longrightarrow> conn_ok w w'"
  by (induction rule: conn_step.induct)
     (blast intro: connectEstablished_ok api_fun_ok handle_event_ok run_task_ok)+

lemma conn_start_inv: "conn_start w \<Longrightarrow> conn_inv w"
  by (auto simp: conn_start_def conn_inv_def TcpConnection_ctor_def)

interpretation connection: invariant_machine conn_start conn_step conn_inv
  using conn_step_ok by unfold_locales (auto simp: conn_ok_def intro: conn_start_inv)

lemma conn_steps_ok: "conn_step\<^sup>*\<^sup>* w w' \<Longrightarrow> conn_ok w w'"
  by (induction rule: rtranclp_induct) (auto intro: conn_ok_trans conn_step_ok)

lemma sendInLoop_outcome:
  assumes inv: "conn_inv w" and me: "conn_in_loop me w" and doc: "write_documented wr"
    and idle: "\<not> isWriting (conn_chan (conn w))" "content (outputBuffer (conn w)) = []"
    and size: "writerIndex (outputBuffer (conn w)) + length m \<le> vec_max"
  shows "\<exists>w'. sendInLoop wr me m w = Inr w' \<and> conn_inv w' \<and>
    (case wr m of
       Inr n \<Rightarrow> written (trace w') = written (trace w) @ take n m \<and> content (outputBuffer (conn w')) = drop n m
                \<and> isWriting (conn_chan (conn w')) = (n < length m)
     | Inl e \<Rightarrow> written (trace w') = written (trace w) \<and>
         (if e = EPIPE \<or> e = ECONNRESET
          then content (outputBuffer (conn w')) = [] \<and> \<not> isWriting (conn_chan (conn w'))
          else content (outputBuffer (conn w')) = m \<and> isWriting (conn_chan (conn w')) = (m \<noteq> [])))"
proof -
  have out: "buf_inv (outputBuffer (conn w))" and idx: "readableBytes (outputBuffer (conn w)) = 0"
    using inv idle by (simp_all add: conn_inv_def readableBytes_0_iff)
  have len: "length m \<le> vec_max" using size by simp
  have app: "\<exists>b. append (outputBuffer (conn w)) (drop n m) = Inr b \<and> content b = drop n m" for n
    using append_to_empty [OF out idle(2), of "drop n m"] size by fastforce
  obtain w' where w': "sendInLoop wr me m w = Inr w'" and res: "case wr m of
       Inr n \<Rightarrow> written (trace w') = written (trace w) @ take n m \<and> content (outputBuffer (conn w')) = drop n m
                \<and> isWriting (conn_chan (conn w')) = (n < length m)
     | Inl e \<Rightarrow> written (trace w') = written (trace w) \<and>
         (if e = EPIPE \<or> e = ECONNRESET
          then content (outputBuffer (conn w')) = [] \<and> \<not> isWriting (conn_chan (conn w'))
          else content (outputBuffer (conn w')) = m \<and> isWriting (conn_chan (conn w')) = (m \<noteq> []))"
  proof (cases "wr m")
    case (Inl e)
    then show ?thesis
      using that me idle idx size app [of 0]
      by (cases "e = EPIPE \<or> e = ECONNRESET"; cases "m = []")
         (auto simp: sendInLoop_def try_write_def conn_assert_loop_def size_simps Let_def update_interest_def set_chan_def
           EPIPE_def ECONNRESET_def EWOULDBLOCK_def)
  next
    case (Inr n)
    moreover have "n \<le> length m" using doc Inr by (auto simp: write_documented_def)
    ultimately show ?thesis
      using that me idle idx size app [of n]
      by (cases "n = length m")
         (auto simp: sendInLoop_def try_write_def conn_assert_loop_def size_simps Let_def update_interest_def set_chan_def)
  qed
  moreover have "conn_inv w'"
    using sendInLoop_ok [OF doc len w'] inv by (simp add: conn_ok_def)
  ultimately show ?thesis by blast
qed

section \<open>Sample connection\<close>

definition sample_addr :: sockaddr_in where
  "sample_addr = InetAddress_port 7 False"

definition sample_conn :: conn_world where
  "sample_conn = \<lparr>conn = TcpConnection_ctor 1 7 ''s#1'' 5 sample_addr sample_addr, trace = []\<rparr>"

definition silent_cbs :: conn_cbs where
  "silent_cbs = \<lparr>connectionCb = Some Inr, messageCb = Some Inr, writeCompleteCb = Some Inr, closeCb = Some Inr\<rparr>"

definition take_all :: write_fun where
  "take_all d = Inr (length d)"

definition sample_established :: conn_world where
  "sample_established =
     (let ch = conn_chan (conn sample_conn) in
      \<lparr>conn = (conn sample_conn)\<lparr>conn_state := Connected, conn_chan := enableReading_mask (tie ch 3)\<rparr>,
       trace = [Interest True False, CbConnection Connected]\<rparr>)"

definition sample_finished :: conn_world where
  "sample_finished =
     sample_established\<lparr>conn := (conn sample_established)\<lparr>conn_state := Disconnecting\<rparr>,
       trace := trace sample_established @ [SendReq ''hi'', Wrote ''hi'', ShutdownWr]\<rparr>"

lemma silent_cbs_ok: "cbs_ok silent_cbs"
  by (auto simp: cbs_ok_def cb_list_def silent_cbs_def intro: api_skip)

lemma take_all_documented: "write_documented take_all"
  by (simp add: write_documented_def take_all_def)

lemma sample_fields:
  "conn_thread (conn sample_established) = 7" "conn_state (conn sample_established) = Connected"
  "outputBuffer (conn sample_established) = Buffer_default" "inputBuffer (conn sample_established) = Buffer_default"
  "\<not> isWriting (conn_chan (conn sample_established))" "trace sample_established = [Interest True False, CbConnection Connected]"
  "tied (conn_chan (conn sample_established))" "tie_obj (conn_chan (conn sample_established)) = Some 3"
  by (simp_all add: sample_established_def sample_conn_def TcpConnection_ctor_def Let_def)
     (simp_all add: tie_def enableReading_mask_def)

lemma sample_established_step: "conn_step sample_conn sample_established"
proof (rule step_established [OF silent_cbs_ok])
  show "connectEstablished silent_cbs 3 7 sample_conn = Inr sample_established"
    by (simp add: connectEstablished_def conn_assert_loop_def conn_in_loop_def call_optional_def silent_cbs_def
        sample_established_def sample_conn_def TcpConnection_ctor_def Let_def world_defs)
qed

lemma sample_finished_step: "conn_step sample_established sample_finished"
proof (rule step_api)
  show "api_fun (\<lambda>w. bind_res (send take_all 7 ''hi'' w) (shutdown 7))"
    by (intro api_seq api_send api_shutdown take_all_documented) simp
  have "readableBytes Buffer_default = 0"
    by (simp add: readableBytes_0_iff)
  then show "bind_res (send take_all 7 ''hi'' sample_established) (shutdown 7) = Inr sample_finished"
    by (simp add: send_def sendInLoop_def try_write_def shutdown_def shutdownInLoop_def conn_assert_loop_def
        conn_in_loop_def take_all_def sample_fields sample_finished_def world_defs size_simps Let_def)
qed

lemma sample_reachable:
  "reachable conn_start conn_step sample_established" "reachable conn_start conn_step sample_finished"
proof -
  have "conn_start sample_conn"
    unfolding conn_start_def sample_conn_def by blast
  then have "reachable conn_start conn_step sample_conn"
    by (rule reachable_start)
  then show est: "reachable conn_start conn_step sample_established"
    using sample_established_step by (rule reachable_step)
  show "reachable conn_start conn_step sample_finished"
    by (rule reachable_step [OF est sample_finished_step])
qed

lemma sample_pending:
  "\<exists>w. conn_inv w \<and> conn_in_loop 7 w \<and> content (outputBuffer (conn w)) = ''yai'' \<and> isWriting (conn_chan (conn w))"
proof -
  have inv: "conn_inv sample_established"
    by (rule connection.reachable_inv [OF sample_reachable(1)])
  let ?half = "(\<lambda>d. Inr (length d div 2)) :: write_fun"
  have half: "write_documented ?half" by (simp add: write_documented_def)
  from sendInLoop_outcome [of sample_established 7 ?half "''hayai''", OF inv _ half]
  obtain w where w: "sendInLoop ?half 7 ''hayai'' sample_established = Inr w" "conn_inv w"
      "content (outputBuffer (conn w)) = ''yai''" "isWriting (conn_chan (conn w))"
    by (auto simp: sample_fields conn_in_loop_def Buffer_default_fields kCheapPrepend_def)
  have "conn_evolves sample_established w"
    using sendInLoop_ok [OF half _ w(1)] inv by (simp add: conn_ok_def)
  then have "conn_in_loop 7 w"
    by (simp add: conn_in_loop_def conn_evolves_def sample_fields)
  with w show ?thesis by blast
qed

section \<open>Properties\<close>

text \<open>C1. Output order and completeness, in every reachable state of a connection and whatever its callbacks do:
  as long as no message was dropped by a fatal write error, the bytes written so far followed by the
  bytes in the output buffer are exactly the messages sent, in order; and until the interest is
  dropped, the channel waits for writability exactly when there is something to write.\<close>

theorem output_stream:
  assumes "reachable conn_start conn_step w" and "no_drop (trace w)"
  shows "written (trace w) @ content (outputBuffer (conn w)) = sent (trace w)
    \<and> (ChanDisabled \<in> set (trace w) \<or> isWriting (conn_chan (conn w)) = (content (outputBuffer (conn w)) \<noteq> []))"
  using connection.reachable_inv [OF assms(1)] assms(2) by (auto simp: conn_inv_def)

theorem output_stream_witness:
  "reachable conn_start conn_step sample_finished \<and> no_drop (trace sample_finished)
   \<and> written (trace sample_finished) @ content (outputBuffer (conn sample_finished)) = sent (trace sample_finished)"
proof -
  have "no_drop (trace sample_finished)"
    by (simp add: sample_finished_def sample_fields)
  with output_stream [OF sample_reachable(2) this] sample_reachable(2) show ?thesis by simp
qed

text \<open>C16. A graceful shutdown loses nothing: whenever the write side of the socket is shut down, on a connection
  whose interest had not been dropped and that had lost no message, every byte sent before has been
  written.\<close>

theorem fin_after_flush:
  assumes "reachable conn_start conn_step w" and "trace w = p @ ShutdownWr # s"
    and "ChanDisabled \<notin> set p" and "no_drop p"
  shows "written p = sent p"
proof -
  have "fin_ok (p @ ShutdownWr # s)"
    using connection.reachable_inv [OF assms(1)] assms(2) by (simp add: conn_inv_def)
  with assms(3,4) show ?thesis by simp
qed

theorem fin_after_flush_witness:
  "trace sample_finished = [Interest True False, CbConnection Connected, SendReq ''hi'', Wrote ''hi''] @ ShutdownWr # []
   \<and> written [Interest True False, CbConnection Connected, SendReq ''hi'', Wrote ''hi'']
     = sent [Interest True False, CbConnection Connected, SendReq ''hi'', Wrote ''hi'']"
proof -
  have tr: "trace sample_finished
      = [Interest True False, CbConnection Connected, SendReq ''hi'', Wrote ''hi''] @ ShutdownWr # []"
    by (simp add: sample_finished_def sample_fields)
  from fin_after_flush [OF sample_reachable(2) tr] tr show ?thesis by simp
qed

text \<open>C24. The state of a connection moves forward through Connecting, Connected, Disconnecting and Disconnected,
  whatever events, calls and callbacks come in whatever order, with one exception: a \<^verbatim>\<open>shutdown\<close> or
  \<^verbatim>\<open>forceClose\<close> on another thread that passed its test of the state and was overtaken by a close sets
  Disconnected back to Disconnecting. The identity of the connection (loop, thread, name, socket)
  never changes.\<close>

theorem state_moves_forward:
  assumes "reachable conn_start conn_step w" and "conn_step\<^sup>*\<^sup>* w w'"
  shows "(conn_state (conn w) \<le> conn_state (conn w') \<or>
      conn_state (conn w) = Disconnected \<and> conn_state (conn w') = Disconnecting
        \<and> (\<exists>tr t. trace w' = trace w @ tr \<and> LateSet Disconnected \<in> set tr \<and> StateTested t \<in> set (trace w')))
    \<and> conn_thread (conn w') = conn_thread (conn w)
    \<and> conn_loop (conn w') = conn_loop (conn w) \<and> conn_name (conn w') = conn_name (conn w)
    \<and> conn_socket (conn w') = conn_socket (conn w)"
proof -
  have ev: "conn_evolves w w'" "conn_inv w'"
    using conn_steps_ok [OF assms(2)] connection.reachable_inv [OF assms(1)] by (simp_all add: conn_ok_def)
  then obtain tr where tr: "trace w' = trace w @ tr" "state_follows tr (conn_state (conn w)) (conn_state (conn w'))"
    by (auto simp: conn_evolves_def)
  have "conn_state (conn w) = Disconnected \<and> conn_state (conn w') = Disconnecting \<and> LateSet Disconnected \<in> set tr"
    if "\<not> conn_state (conn w) \<le> conn_state (conn w')"
    using that tr(2) by (cases "conn_state (conn w)") (auto simp: state_follows_def no_late_iff less_eq_conn_state_def)
  moreover have "\<exists>t. StateTested t \<in> set (trace w')" if "LateSet Disconnected \<in> set tr"
    using ev(2) that tr(1) by (auto simp: conn_inv_def no_late_iff tested_iff)
  ultimately show ?thesis
    using tr(1) ev(1) by (auto simp: conn_evolves_def)
qed

theorem state_moves_forward_witness:
  "conn_state (conn sample_established) \<le> conn_state (conn sample_finished)
   \<and> conn_name (conn sample_finished) = conn_name (conn sample_established)"
  using state_moves_forward [OF sample_reachable(1) r_into_rtranclp [of conn_step, OF sample_finished_step]]
  by (auto simp: sample_fields)

text \<open>The exception happens: the state of a reachable connection goes back.\<close>

lemma state_can_go_back:
  "\<exists>w w'. reachable conn_start conn_step w \<and> conn_step w w' \<and> conn_state (conn w) = Disconnected \<and> conn_state (conn w') = Disconnecting"
proof -
  let ?w1 = "emit (StateTested ShutdownTask) sample_established"
  have "test_state ShutdownTask sample_established = Inr ?w1" by (simp add: test_state_def sample_fields)
  then have r1: "reachable conn_start conn_step ?w1"
    using reachable_step [OF sample_reachable(1)] step_api [OF api_test] by blast
  obtain w2 where w2: "forceClose silent_cbs 7 ?w1 = Inr w2" "conn_state (conn w2) = Disconnected" "StateTested ShutdownTask \<in> set (trace w2)"
    by (simp add: forceClose_def handleClose_def conn_assert_loop_def conn_in_loop_def call_optional_def
        call_required_def silent_cbs_def sample_fields world_defs Let_def)
  have "conn_step ?w1 w2"
    using step_api [OF api_forceClose w2(1)] silent_cbs_ok by (simp add: cbs_ok_def)
  then have r2: "reachable conn_start conn_step w2" by (rule reachable_step [OF r1])
  let ?w3 = "emit (LateSet Disconnected) (set_state Disconnecting w2)"
  have "late_set ShutdownTask w2 = Inr ?w3" using w2(2,3) by (simp add: late_set_def)
  then have "conn_step w2 ?w3" using step_api [OF api_late] by blast
  with r2 w2(2) show ?thesis by (intro exI [of _ w2] exI [of _ ?w3]) (simp add: set_state_def)
qed

text \<open>Every outcome of \<^verbatim>\<open>sendInLoop\<close> on a connection with nothing pending: it never faults; what the kernel
  takes is written at once and the rest is buffered with write interest switched on; after
  \<^verbatim>\<open>EPIPE\<close> or \<^verbatim>\<open>ECONNRESET\<close> the message is dropped without any report, after any other error it is
  buffered whole.\<close>

theorem sendInLoop_flushed:
  assumes inv: "conn_inv w" and me: "conn_in_loop me w" and doc: "write_documented wr"
    and idle: "\<not> isWriting (conn_chan (conn w))" "content (outputBuffer (conn w)) = []"
    and size: "writerIndex (outputBuffer (conn w)) + length m \<le> vec_max"
  shows "\<exists>w'. sendInLoop wr me m w = Inr w' \<and> conn_inv w' \<and>
    (case wr m of
       Inr n \<Rightarrow> written (trace w') = written (trace w) @ take n m \<and> content (outputBuffer (conn w')) = drop n m
                \<and> isWriting (conn_chan (conn w')) = (n < length m)
     | Inl e \<Rightarrow> written (trace w') = written (trace w) \<and>
         (if e = EPIPE \<or> e = ECONNRESET
          then content (outputBuffer (conn w')) = [] \<and> \<not> isWriting (conn_chan (conn w'))
          else content (outputBuffer (conn w')) = m \<and> isWriting (conn_chan (conn w')) = (m \<noteq> [])))"
  using sendInLoop_outcome [OF assms] .

theorem sendInLoop_flushed_witness:
  "\<exists>w'. sendInLoop (\<lambda>d. Inr (length d div 2)) 7 ''hayai'' sample_established = Inr w'
     \<and> content (outputBuffer (conn w')) = ''yai'' \<and> isWriting (conn_chan (conn w'))"
  using sendInLoop_flushed [of sample_established 7 "\<lambda>d. Inr (length d div 2)" "''hayai''"]
    connection.reachable_inv [OF sample_reachable(1)]
  by (auto simp: sample_fields conn_in_loop_def write_documented_def Buffer_default_fields kCheapPrepend_def)

text \<open>
  A run of writable events with their kernel answers; \<open>progress\<close> is a kernel that takes at least one
  byte each time.
\<close>

fun writable_events :: "write_fun list \<Rightarrow> nat \<Rightarrow> conn_world \<Rightarrow> conn_world res" where
  "writable_events [] me w = Inr w"
| "writable_events (wr # wrs) me w = bind_res (handleWrite wr me w) (writable_events wrs me)"

definition progress :: "write_fun \<Rightarrow> bool" where
  "progress wr \<longleftrightarrow> (\<forall>d. d \<noteq> [] \<longrightarrow> (\<exists>n. wr d = Inr n \<and> 0 < n \<and> n \<le> length d))"

lemma handleWrite_off: "\<not> isWriting (conn_chan (conn w)) \<Longrightarrow> conn_in_loop me w \<Longrightarrow> handleWrite wr me w = Inr w"
  by (simp add: handleWrite_def conn_assert_loop_def)

lemma writable_events_off:
  "\<not> isWriting (conn_chan (conn w)) \<Longrightarrow> conn_in_loop me w \<Longrightarrow> writable_events wrs me w = Inr w"
  by (induction wrs) (simp_all add: handleWrite_off)

lemma handleWrite_progress:
  assumes inv: "conn_inv w" and me: "conn_in_loop me w" and on: "isWriting (conn_chan (conn w))" and pr: "progress wr"
  shows "\<exists>w1. handleWrite wr me w = Inr w1 \<and> conn_inv w1 \<and> conn_in_loop me w1 \<and> conn_state (conn w1) = conn_state (conn w)
    \<and> length (content (outputBuffer (conn w1))) < length (content (outputBuffer (conn w)))
    \<and> (isWriting (conn_chan (conn w1)) \<or> content (outputBuffer (conn w1)) = []
        \<and> (conn_state (conn w) = Disconnecting \<longrightarrow> ShutdownWr \<in> set (trace w1)))"
proof -
  let ?out = "content (outputBuffer (conn w))"
  have "?out \<noteq> []" using inv on by (simp add: conn_inv_def)
  with pr obtain n where n: "wr ?out = Inr n" "0 < n" "n \<le> length ?out"
    by (auto simp: progress_def)
  define wr' where "wr' = (\<lambda>d. if d = ?out then Inr n else Inl 0 :: int + nat)"
  have doc: "write_documented wr'"
    using n by (simp add: write_documented_def wr'_def)
  have wr': "wr' ?out = Inr n" by (simp add: wr'_def)
  from handleWrite_takes [where wr = wr, OF inv me on n] obtain b where
    b: "content b = drop n ?out" and eq: "handleWrite wr me w =
       (let w1 = set_out b (emit (Wrote (take n ?out)) w) in
        if content b = []
        then let w2 = update_interest (disableWriting_mask (conn_chan (conn w))) w1 in
             Inr (if conn_state (conn w) = Disconnecting then emit ShutdownWr w2 else w2)
        else Inr w1)"
    by blast
  have "handleWrite wr me w = handleWrite wr' me w"
    using inv n wr' by (simp add: handleWrite_def conn_inv_def)
  then have ok: "conn_inv w1" if "handleWrite wr me w = Inr w1" for w1
    using handleWrite_ok [OF doc, of me w w1] that inv by (simp add: conn_ok_def)
  show ?thesis
    using ok b n me on unfolding eq
    by (auto simp: Let_def conn_in_loop_def update_interest_def set_chan_def)
qed

text \<open>C23. Pending output drains: if the kernel takes at least one byte per writable event, then after at most as
  many events as there are bytes pending the buffer is empty, write interest is off, nothing faulted,
  and a shutdown that was waiting for the output has been carried out.\<close>

theorem pending_output_drains:
  assumes "conn_inv w" and "conn_in_loop me w" and "isWriting (conn_chan (conn w))"
    and "list_all progress wrs" and "length (content (outputBuffer (conn w))) \<le> length wrs"
  shows "\<exists>w'. writable_events wrs me w = Inr w' \<and> content (outputBuffer (conn w')) = [] \<and> \<not> isWriting (conn_chan (conn w'))
    \<and> (conn_state (conn w) \<noteq> Disconnecting \<or> ShutdownWr \<in> set (trace w'))"
  using assms
proof (induction wrs arbitrary: w)
  case Nil
  then show ?case by (simp add: conn_inv_def)
next
  case (Cons wr wrs)
  from handleWrite_progress [OF Cons.prems(1-3)] Cons.prems(4) obtain w1 where w1: "handleWrite wr me w = Inr w1"
      "conn_inv w1" "conn_in_loop me w1" "conn_state (conn w1) = conn_state (conn w)"
      "length (content (outputBuffer (conn w1))) < length (content (outputBuffer (conn w)))"
      "isWriting (conn_chan (conn w1)) \<or> content (outputBuffer (conn w1)) = []
        \<and> (conn_state (conn w) = Disconnecting \<longrightarrow> ShutdownWr \<in> set (trace w1))"
    by auto
  show ?case
  proof (cases "isWriting (conn_chan (conn w1))")
    case True
    with Cons.IH [OF w1(2,3) True] Cons.prems(4,5) w1 show ?thesis by simp
  next
    case False
    with w1 show ?thesis by (auto simp: writable_events_off)
  qed
qed

theorem pending_output_drains_witness:
  "\<exists>w w'. content (outputBuffer (conn w)) = ''yai'' \<and> writable_events (replicate 3 (\<lambda>d. Inr 1)) 7 w = Inr w'
     \<and> content (outputBuffer (conn w')) = []"
proof -
  obtain w where w: "conn_inv w" "conn_in_loop 7 w" "content (outputBuffer (conn w)) = ''yai''" "isWriting (conn_chan (conn w))"
    using sample_pending by blast
  have "list_all progress (replicate 3 (\<lambda>d. Inr 1))"
    by (simp add: eval_nat_numeral progress_def Suc_le_eq)
  with pending_output_drains [OF w(1,2,4), of "replicate 3 (\<lambda>d. Inr 1)"] w(3) show ?thesis by auto
qed

text \<open>What the read event of a peer that closed its side does: the poller reports it with the close and the
  read bit set, so \<^verbatim>\<open>handleClose\<close> runs before the descriptor is read. Bytes that were still to be
  read are delivered to the message callback after the close callback; when there are none,
  \<^verbatim>\<open>handleClose\<close> runs a second time and both callbacks are invoked twice.\<close>

theorem eof_event_order:
  assumes "conn_in_loop me w" and "tied (conn_chan (conn w))" and "tie_obj (conn_chan (conn w)) = Some obj" and "alive obj"
    and "readFd readv (inputBuffer (conn w)) 0 = Inr (n, e, b)" and "0 \<le> n"
  shows "\<exists>w'. handle_event silent_cbs wr readv alive me (kReadEvent OR kCloseEvent) w = Inr w'
    \<and> conn_state (conn w') = Disconnected
    \<and> trace w' = trace w @ [Interest False False, ChanDisabled, CbConnection Disconnected, CbClose]
        @ (if n = 0 then [Interest False False, ChanDisabled, CbConnection Disconnected, CbClose] else [CbMessage])"
  using assms
  by (auto simp: handle_event_def handleEvent_def handleEventWithGuard_def setRevents_def conn_channel_callbacks_def
      call_if_def event_masks handleClose_def handleRead_def silent_cbs_def call_optional_def call_required_def
      conn_assert_loop_def conn_in_loop_def world_defs Let_def)

theorem eof_event_order_witness:
  "\<exists>w'. handle_event silent_cbs take_all (\<lambda>_. Inr []) (\<lambda>_. True) 7 (kReadEvent OR kCloseEvent) sample_established = Inr w'
     \<and> trace w' = trace sample_established @ [Interest False False, ChanDisabled, CbConnection Disconnected, CbClose,
         Interest False False, ChanDisabled, CbConnection Disconnected, CbClose]"
proof -
  have "readFd (\<lambda>_. Inr []) (inputBuffer (conn sample_established)) 0 = Inr (0, 0, Buffer_default)"
    by (simp add: sample_fields readFd_def vec_write_def size_add_def Buffer_default_fields kCheapPrepend_def)
  from eof_event_order [of 7 sample_established 3 "\<lambda>_. True" "\<lambda>_. Inr []" 0 0 Buffer_default take_all, OF _ _ _ _ this]
  show ?thesis
    by (auto simp: sample_fields conn_in_loop_def)
qed

text \<open>What \<^verbatim>\<open>connectDestroyed\<close> does on any connection that got there: a connection still connected is told so by
  a connection callback that sees the state Connected, only then does it become Disconnected; and the
  channel is never removed from the poller, since its index is never set.\<close>

theorem connectDestroyed_effect:
  assumes "reachable conn_start conn_step w" and "conn_in_loop me w"
  shows "\<exists>w'. connectDestroyed silent_cbs me w = Inr w' \<and> conn_state (conn w') = Disconnected
    \<and> trace w' = trace w @ (if conn_state (conn w) = Connected
         then [Interest False False, ChanDisabled, CbConnection Connected] else [])
    \<and> ChanRemoved \<notin> set (trace w')"
  using assms(2) connection.reachable_inv [OF assms(1)]
  by (auto simp: connectDestroyed_def silent_cbs_def call_optional_def conn_assert_loop_def conn_in_loop_def
      world_defs Let_def conn_inv_def)

theorem connectDestroyed_effect_witness:
  "\<exists>w'. connectDestroyed silent_cbs 7 sample_established = Inr w' \<and> conn_state (conn w') = Disconnected
    \<and> trace w' = [Interest True False, CbConnection Connected, Interest False False, ChanDisabled, CbConnection Connected]"
  using connectDestroyed_effect [OF sample_reachable(1), of 7] by (auto simp: sample_fields conn_in_loop_def)

text \<open>The callback for completed writes is never invoked, in any reachable state: code that waits for it waits
  forever.\<close>

theorem writeComplete_never_called:
  assumes "reachable conn_start conn_step w"
  shows "CbWriteComplete \<notin> set (trace w) \<and> index (conn_chan (conn w)) = -1"
  using connection.reachable_inv [OF assms] by (simp add: conn_inv_def)

theorem writeComplete_never_called_witness:
  "written (trace sample_finished) = ''hi'' \<and> writeCompleteCb silent_cbs \<noteq> None \<and> CbWriteComplete \<notin> set (trace sample_finished)"
  using writeComplete_never_called [OF sample_reachable(2)] by (simp add: sample_finished_def sample_fields silent_cbs_def)

text \<open>A message sent from another thread can be processed after the connection was closed, since only \<^verbatim>\<open>send\<close>
  and not \<^verbatim>\<open>sendInLoop\<close> looks at the state: a closed connection can end up waiting for writability
  again.\<close>

theorem closed_connection_can_rearm:
  "\<exists>w. reachable conn_start conn_step w \<and> conn_state (conn w) = Disconnected \<and> isWriting (conn_chan (conn w))"
proof -
  let ?w1 = "emit (Queued (SendTask ''late'')) sample_established"
  have "conn_step sample_established ?w1"
  proof (rule step_api)
    show "api_fun (send take_all 8 ''late'')" by (intro api_send take_all_documented) simp
    show "send take_all 8 ''late'' sample_established = Inr ?w1" by (simp add: send_def conn_in_loop_def sample_fields)
  qed
  then have r1: "reachable conn_start conn_step ?w1" by (rule reachable_step [OF sample_reachable(1)])
  obtain w2 where w2: "forceClose silent_cbs 7 ?w1 = Inr w2" "conn_state (conn w2) = Disconnected"
      "Queued (SendTask ''late'') \<in> set (trace w2)" "conn_in_loop 7 w2" "\<not> isWriting (conn_chan (conn w2))"
      "outputBuffer (conn w2) = Buffer_default"
    by (simp add: forceClose_def handleClose_def conn_assert_loop_def conn_in_loop_def call_optional_def
        call_required_def silent_cbs_def sample_fields world_defs Let_def)
  have "conn_step ?w1 w2"
    using step_api [OF api_forceClose w2(1)] silent_cbs_ok by (simp add: cbs_ok_def)
  then have r2: "reachable conn_start conn_step w2" by (rule reachable_step [OF r1])
  let ?block = "(\<lambda>d. Inl EWOULDBLOCK) :: write_fun"
  have doc: "write_documented ?block" by (simp add: write_documented_def)
  have "\<exists>w3. sendInLoop ?block 7 ''late'' w2 = Inr w3 \<and> conn_inv w3 \<and> isWriting (conn_chan (conn w3))"
    using sendInLoop_outcome [of w2 7 ?block "''late''", OF connection.reachable_inv [OF r2] w2(4) doc w2(5)] w2(6)
    by (auto simp: Buffer_default_fields kCheapPrepend_def EWOULDBLOCK_def EPIPE_def ECONNRESET_def)
  then obtain w3 where w3: "sendInLoop ?block 7 ''late'' w2 = Inr w3" "isWriting (conn_chan (conn w3))" by blast
  have step: "conn_step w2 w3"
    by (rule step_task [OF silent_cbs_ok doc _ w2(3), of 7]) (simp_all add: w3(1))
  have "conn_state (conn w3) = Disconnected"
    using w3(1) w2(2,5) by (auto simp: sendInLoop_def try_write_def bind_res_eq_Inr Let_def update_interest_def set_chan_def size_simps split: if_splits)
  with reachable_step [OF r2 step] w3(2) show ?thesis by blast
qed

end
