(* ===== verification/AsyncConnection.thy ===== *)
theory AsyncConnection
  imports Mailbox TcpConnection
begin

text \<open>
  The awaitable connection: \<^verbatim>\<open>include/hayai/coro/AsyncConnection.h\<close> and \<^verbatim>\<open>src/coro/AsyncConnection.cc\<close>. Objects
  have addresses, since the callbacks they install on the connection capture \<^verbatim>\<open>this\<close>. Each operation
  runs under the object's mutex in one step; what it queues on the loop is the list of coroutine
  handles to resume.
\<close>

section \<open>State\<close>

record async_conn =
  ac_conn :: "nat option"
  ac_loop :: "nat option"
  recvCoroutine :: "nat option"
  receivedData :: buffer
  sendCoroutine :: "nat option"

text \<open>
  \<open>acs\<close> are the live objects, \<open>msg_cb\<close> and \<open>wc_cb\<close> the object whose callbacks a connection holds,
  \<open>resumes\<close> the handles queued for resumption, \<open>sends\<close> the calls of \<^verbatim>\<open>TcpConnection::send\<close>.
\<close>

record async_world =
  acs :: "nat \<Rightarrow> async_conn option"
  msg_cb :: "nat \<Rightarrow> nat option"
  wc_cb :: "nat \<Rightarrow> nat option"
  resumes :: "nat list"
  sends :: "(nat \<times> string) list"

definition put_ac :: "nat \<Rightarrow> async_conn option \<Rightarrow> async_world \<Rightarrow> async_world" where
  "put_ac a x W = W\<lparr>acs := (acs W)(a := x)\<rparr>"

definition with_ac :: "nat \<Rightarrow> async_world \<Rightarrow> (async_conn \<Rightarrow> 'r res) \<Rightarrow> 'r res" where
  "with_ac a W f = (case acs W a of None \<Rightarrow> Inl UseAfterFree | Some x \<Rightarrow> f x)"

text \<open>\<^verbatim>\<open>loop_->queueInLoop\<close> with the resumption of a handle.\<close>

definition queue_resume :: "async_conn \<Rightarrow> nat \<Rightarrow> async_world \<Rightarrow> async_world res" where
  "queue_resume x h W = (case ac_loop x of None \<Rightarrow> Inl NullDeref | Some l \<Rightarrow> Inr (W\<lparr>resumes := resumes W @ [h]\<rparr>))"

section \<open>Construction, moves, destruction\<close>

definition bindCallbacks :: "nat \<Rightarrow> async_world \<Rightarrow> async_world" where
  "bindCallbacks a W =
     (case acs W a of
        None \<Rightarrow> W
      | Some x \<Rightarrow> (case ac_conn x of
            None \<Rightarrow> W
          | Some c \<Rightarrow> W\<lparr>msg_cb := (msg_cb W)(c \<mapsto> a), wc_cb := (wc_cb W)(c \<mapsto> a)\<rparr>))"

text \<open>The connection comes with its loop.\<close>

definition AsyncConnection_ctor :: "nat \<Rightarrow> (nat \<times> nat) option \<Rightarrow> async_world \<Rightarrow> async_world" where
  "AsyncConnection_ctor a cl W =
     bindCallbacks a (put_ac a (Some \<lparr>ac_conn = map_option fst cl, ac_loop = map_option snd cl, recvCoroutine = None,
       receivedData = Buffer_default, sendCoroutine = None\<rparr>) W)"

text \<open>
  The implicit moves of the members: the shared pointer is emptied, a \<^verbatim>\<open>std::optional\<close> keeps its value,
  the buffer is left as \<open>Buffer_move\<close> leaves it.
\<close>

definition moved_from :: "async_conn \<Rightarrow> async_conn" where
  "moved_from x = x\<lparr>ac_conn := None, ac_loop := None, receivedData := snd (Buffer_move (receivedData x))\<rparr>"

definition AsyncConnection_move :: "nat \<Rightarrow> nat \<Rightarrow> async_world \<Rightarrow> async_world res" where
  "AsyncConnection_move dst src W =
     with_ac src W (\<lambda>x. Inr (bindCallbacks dst (put_ac src (Some (moved_from x))
       (put_ac dst (Some (x\<lparr>receivedData := fst (Buffer_move (receivedData x))\<rparr>)) W))))"

definition AsyncConnection_move_assign :: "nat \<Rightarrow> nat \<Rightarrow> async_world \<Rightarrow> async_world res" where
  "AsyncConnection_move_assign dst src W =
     (if dst = src then Inr W else with_ac dst W (\<lambda>_. AsyncConnection_move dst src W))"

definition AsyncConnection_dtor :: "nat \<Rightarrow> async_world \<Rightarrow> async_world res" where
  "AsyncConnection_dtor a W = with_ac a W (\<lambda>_. Inr (put_ac a None W))"

section \<open>Callbacks\<close>

definition onMessage :: "nat \<Rightarrow> buffer \<Rightarrow> async_world \<Rightarrow> (buffer \<times> async_world) res" where
  "onMessage a buf W =
     with_ac a W (\<lambda>x. bind_res (peek buf (readableBytes buf))
       (\<lambda>bytes. bind_res (append (receivedData x) bytes)
         (\<lambda>rd. let buf' = retrieveAll buf; x1 = x\<lparr>receivedData := rd\<rparr> in
            case recvCoroutine x1 of
              None \<Rightarrow> Inr (buf', put_ac a (Some x1) W)
            | Some h \<Rightarrow> let x2 = x1\<lparr>recvCoroutine := None\<rparr> in
                bind_res (queue_resume x2 h (put_ac a (Some x2) W)) (\<lambda>W'. Inr (buf', W')))))"

definition onWriteComplete :: "nat \<Rightarrow> async_world \<Rightarrow> async_world res" where
  "onWriteComplete a W =
     with_ac a W (\<lambda>x. case sendCoroutine x of
         None \<Rightarrow> Inr W
       | Some h \<Rightarrow> let x1 = x\<lparr>sendCoroutine := None\<rparr> in queue_resume x1 h (put_ac a (Some x1) W))"

text \<open>The connection \<open>c\<close> invokes the message callback it holds.\<close>

definition message_arrives :: "nat \<Rightarrow> buffer \<Rightarrow> async_world \<Rightarrow> (buffer \<times> async_world) res" where
  "message_arrives c buf W = (case msg_cb W c of None \<Rightarrow> Inl BadFunctionCall | Some a \<Rightarrow> onMessage a buf W)"

section \<open>Awaiters\<close>

definition recv_await_ready :: "nat \<Rightarrow> async_world \<Rightarrow> bool res" where
  "recv_await_ready a W = with_ac a W (\<lambda>x. Inr (0 < readableBytes (receivedData x)))"

definition recv_await_suspend :: "nat \<Rightarrow> nat \<Rightarrow> async_world \<Rightarrow> async_world res" where
  "recv_await_suspend a h W =
     with_ac a W (\<lambda>x. if 0 < readableBytes (receivedData x) then queue_resume x h W
                      else Inr (put_ac a (Some (x\<lparr>recvCoroutine := Some h\<rparr>)) W))"

definition recv_await_resume :: "nat \<Rightarrow> async_world \<Rightarrow> (buffer \<times> async_world) res" where
  "recv_await_resume a W =
     with_ac a W (\<lambda>x. Inr (fst (Buffer_move (receivedData x)), put_ac a (Some (x\<lparr>receivedData := Buffer_default\<rparr>)) W))"

definition send_await_ready :: "nat \<Rightarrow> async_world \<Rightarrow> bool" where
  "send_await_ready a W = False"

definition send_await_suspend :: "nat \<Rightarrow> nat \<Rightarrow> string \<Rightarrow> async_world \<Rightarrow> async_world res" where
  "send_await_suspend a h data W =
     with_ac a W (\<lambda>x. case ac_conn x of
         None \<Rightarrow> Inl NullDeref
       | Some c \<Rightarrow> Inr ((put_ac a (Some (x\<lparr>sendCoroutine := Some h\<rparr>)) W)\<lparr>sends := sends W @ [(c, data)]\<rparr>))"

section \<open>Accessors\<close>

text \<open>\<open>conns\<close> are the connection objects; a wrapper without a connection answers with defaults.\<close>

definition of_conn :: "(nat \<Rightarrow> tcp_conn option) \<Rightarrow> async_conn \<Rightarrow> 'r \<Rightarrow> (tcp_conn \<Rightarrow> 'r) \<Rightarrow> 'r res" where
  "of_conn conns x d f =
     (case ac_conn x of
        None \<Rightarrow> Inr d
      | Some c \<Rightarrow> (case conns c of None \<Rightarrow> Inl UseAfterFree | Some k \<Rightarrow> Inr (f k)))"

definition AsyncConnection_localAddr :: "(nat \<Rightarrow> tcp_conn option) \<Rightarrow> async_conn \<Rightarrow> sockaddr_in res" where
  "AsyncConnection_localAddr conns x = of_conn conns x (InetAddress_port 0 False) localAddress"

definition AsyncConnection_peerAddr :: "(nat \<Rightarrow> tcp_conn option) \<Rightarrow> async_conn \<Rightarrow> sockaddr_in res" where
  "AsyncConnection_peerAddr conns x = of_conn conns x (InetAddress_port 0 False) peerAddress"

definition AsyncConnection_connected :: "(nat \<Rightarrow> tcp_conn option) \<Rightarrow> async_conn \<Rightarrow> bool res" where
  "AsyncConnection_connected conns x = of_conn conns x False connected"

definition AsyncConnection_name :: "(nat \<Rightarrow> tcp_conn option) \<Rightarrow> async_conn \<Rightarrow> string res" where
  "AsyncConnection_name conns x = of_conn conns x [] TcpConnection_name"

section \<open>The receiving side is a mailbox\<close>

definition recv_good :: "nat \<Rightarrow> async_world \<Rightarrow> bool" where
  "recv_good a W \<longleftrightarrow> (\<exists>x. acs W a = Some x \<and> buf_inv (receivedData x) \<and> ac_loop x \<noteq> None)"

definition recv_items :: "nat \<Rightarrow> async_world \<Rightarrow> char list" where
  "recv_items a W = (case acs W a of None \<Rightarrow> [] | Some x \<Rightarrow> content (receivedData x))"

definition recv_waiter :: "nat \<Rightarrow> async_world \<Rightarrow> nat option" where
  "recv_waiter a W = (case acs W a of None \<Rightarrow> None | Some x \<Rightarrow> recvCoroutine x)"

text \<open>A message: the bytes are in the connection's input buffer when its callback runs.\<close>

definition recv_deliver :: "nat \<Rightarrow> char list \<Rightarrow> async_world \<Rightarrow> async_world res" where
  "recv_deliver a d W =
     bind_res (check (length d \<le> vec_max) LengthError)
       (\<lambda>_. bind_res (append Buffer_default d) (\<lambda>b. bind_res (onMessage a b W) (\<lambda>(b', W'). Inr W')))"

definition recv_grab :: "nat \<Rightarrow> async_world \<Rightarrow> (char list \<times> async_world) res" where
  "recv_grab a W = bind_res (recv_await_resume a W) (\<lambda>(b, W'). Inr (content b, W'))"

definition pop_resume :: "async_world \<Rightarrow> async_world" where
  "pop_resume W = W\<lparr>resumes := tl (resumes W)\<rparr>"

lemma onMessage_content:
  assumes x: "acs W a = Some x" "buf_inv (receivedData x)" and buf: "buf_inv b" "length (content b) \<le> vec_max"
    and ret: "onMessage a b W = Inr (b', W')"
  shows "content b' = []" "\<exists>rd. buf_inv rd \<and> content rd = content (receivedData x) @ content b
      \<and> acs W' = (acs W)(a \<mapsto> x\<lparr>receivedData := rd, recvCoroutine := None\<rparr>)
      \<and> resumes W' = resumes W @ (case recvCoroutine x of None \<Rightarrow> [] | Some h \<Rightarrow> [h])"
proof -
  from ret x buf obtain rd where rd: "append (receivedData x) (content b) = Inr rd"
    by (auto simp: onMessage_def with_ac_def res_simps)
  have rd': "buf_inv rd \<and> content rd = content (receivedData x) @ content b"
    by (rule append_sound [OF x(2) buf(2) rd])
  show "content b' = []"
    using ret x buf rd by (auto simp: onMessage_def with_ac_def res_simps Let_def split: option.splits)
  show "\<exists>rd. buf_inv rd \<and> content rd = content (receivedData x) @ content b
      \<and> acs W' = (acs W)(a \<mapsto> x\<lparr>receivedData := rd, recvCoroutine := None\<rparr>)
      \<and> resumes W' = resumes W @ (case recvCoroutine x of None \<Rightarrow> [] | Some h \<Rightarrow> [h])"
    using ret x buf rd rd'
    by (intro exI [of _ rd])
       (auto simp: onMessage_def with_ac_def res_simps Let_def put_ac_def queue_resume_def split: option.splits)
qed

lemma recv_deliver_law:
  assumes good: "recv_good a W" and ret: "recv_deliver a d W = Inr W'"
  shows "recv_good a W' \<and> recv_items a W' = recv_items a W @ d \<and> recv_waiter a W' = None
    \<and> resumes W' = resumes W @ (case recv_waiter a W of None \<Rightarrow> [] | Some h \<Rightarrow> [h])"
proof -
  obtain x where x: "acs W a = Some x" "buf_inv (receivedData x)" "ac_loop x \<noteq> None"
    using good by (auto simp: recv_good_def)
  obtain b b' where b: "length d \<le> vec_max" "append Buffer_default d = Inr b" "onMessage a b W = Inr (b', W')"
    using ret by (auto simp: recv_deliver_def res_simps)
  have "buf_inv b" "content b = d"
    using append_sound [OF Buffer_default_inv b(1,2)] by simp_all
  with onMessage_content(2) [OF x(1,2) _ _ b(3)] b(1) x show ?thesis
    by (auto simp: recv_good_def recv_items_def recv_waiter_def)
qed

lemma recv_suspend_law:
  assumes "recv_good a W" and "recv_await_suspend a h W = Inr W'"
  shows "recv_good a W' \<and> recv_items a W' = recv_items a W \<and>
    (if recv_items a W = [] then recv_waiter a W' = Some h \<and> resumes W' = resumes W
     else recv_waiter a W' = recv_waiter a W \<and> resumes W' = resumes W @ [h])"
  using assms
  by (auto simp: recv_good_def recv_items_def recv_waiter_def recv_await_suspend_def with_ac_def queue_resume_def put_ac_def
      readableBytes_content split: if_splits)

lemma recv_grab_law:
  assumes "recv_good a W" and "recv_items a W \<noteq> []"
  shows "\<exists>xs W'. recv_grab a W = Inr (xs, W') \<and> xs \<noteq> [] \<and> recv_items a W = xs @ recv_items a W' \<and> recv_good a W'
    \<and> recv_waiter a W' = recv_waiter a W \<and> resumes W' = resumes W"
  using assms
  by (auto simp: recv_grab_def recv_await_resume_def with_ac_def recv_good_def recv_items_def recv_waiter_def put_ac_def
      Buffer_move_def)

interpretation receiver: mailbox "recv_good a" "recv_items a" "recv_waiter a" resumes "\<lambda>d. d" "recv_deliver a"
    "recv_await_suspend a" "recv_grab a" pop_resume for a
proof unfold_locales
  show "recv_good a (pop_resume s) \<and> recv_items a (pop_resume s) = recv_items a s
      \<and> recv_waiter a (pop_resume s) = recv_waiter a s \<and> resumes (pop_resume s) = tl (resumes s)" if "recv_good a s" for s
    using that by (simp add: pop_resume_def recv_good_def recv_items_def recv_waiter_def)
qed (fact recv_deliver_law recv_suspend_law recv_grab_law)+

section \<open>Properties\<close>

abbreviation recv_reachable :: "nat \<Rightarrow> (async_world, char) mbox \<Rightarrow> bool" where
  "recv_reachable a \<equiv> reachable (mbox_start (recv_good a) (recv_items a) (recv_waiter a) resumes)
     (mbox_step (recv_items a) resumes (\<lambda>d. d) (recv_deliver a) (recv_await_suspend a) (recv_grab a) pop_resume)"

definition sample_async :: async_world where
  "sample_async = AsyncConnection_ctor 0 (Some (3, 1)) \<lparr>acs = (\<lambda>_. None), msg_cb = (\<lambda>_. None), wc_cb = (\<lambda>_. None), resumes = [], sends = []\<rparr>"

definition sample_mbox :: "(async_world, char) mbox" where
  "sample_mbox = \<lparr>box = sample_async, phase = NotWaiting, produced = [], consumed = []\<rparr>"

lemma sample_async_fields:
  "acs sample_async = [0 \<mapsto> \<lparr>ac_conn = Some 3, ac_loop = Some 1, recvCoroutine = None, receivedData = Buffer_default, sendCoroutine = None\<rparr>]"
  "resumes sample_async = []" "msg_cb sample_async = [3 \<mapsto> 0]"
  by (auto simp: sample_async_def AsyncConnection_ctor_def bindCallbacks_def put_ac_def)

lemma sample_parked_then_data:
  "\<exists>m m'. recv_reachable 0 m \<and> phase m = Parked 5 \<and> recv_items 0 (box m) = [] \<and> produced m' = ''hi'' \<and> phase m' = Parked 5
     \<and> mbox_step (recv_items 0) resumes (\<lambda>d. d) (recv_deliver 0) (recv_await_suspend 0) (recv_grab 0) pop_resume m m'"
proof -
  note R = reachable_step [where start = "mbox_start (recv_good 0) (recv_items 0) (recv_waiter 0) resumes" and
      step = "mbox_step (recv_items 0) resumes (\<lambda>d. d) (recv_deliver 0) (recv_await_suspend 0) (recv_grab 0) pop_resume"]
  have r0: "recv_reachable 0 sample_mbox"
    by (rule reachable_start)
       (simp add: mbox_start_def sample_mbox_def recv_good_def recv_items_def recv_waiter_def sample_async_fields)
  have it: "recv_items 0 sample_async = []" by (simp add: recv_items_def sample_async_fields)
  have r1: "recv_reachable 0 (sample_mbox\<lparr>phase := Checked 5\<rparr>)"
    by (rule R [OF r0], rule mb_check) (simp_all add: sample_mbox_def it)
  define W where "W = put_ac 0 (Some (the (acs sample_async 0)\<lparr>recvCoroutine := Some 5\<rparr>)) sample_async"
  have r2: "recv_reachable 0 (sample_mbox\<lparr>phase := Checked 5, box := W, phase := Parked 5\<rparr>)"
    by (rule R [OF r1], rule mb_suspend)
       (simp_all add: sample_mbox_def recv_await_suspend_def with_ac_def sample_async_fields readableBytes_content W_def)
  obtain b where b: "append Buffer_default ''hi'' = Inr b" "buf_inv b" "content b = ''hi''"
    using append_to_empty [of Buffer_default "''hi''"] by (auto simp: Buffer_default_fields kCheapPrepend_def)
  then have "\<exists>W'. recv_deliver 0 ''hi'' W = Inr W'"
    by (auto simp: recv_deliver_def onMessage_def with_ac_def W_def put_ac_def sample_async_fields queue_resume_def Let_def)
  then obtain W' where "recv_deliver 0 ''hi'' W = Inr W'" by blast
  then have "mbox_step (recv_items 0) resumes (\<lambda>d. d) (recv_deliver 0) (recv_await_suspend 0) (recv_grab 0) pop_resume
      (sample_mbox\<lparr>phase := Checked 5, box := W, phase := Parked 5\<rparr>)
      (sample_mbox\<lparr>phase := Checked 5, box := W, phase := Parked 5, box := W', produced := ''hi''\<rparr>)"
    using mb_deliver [where d = "''hi''" and s = W' and payload = "\<lambda>d. d" and deliver = "recv_deliver 0" and
        m = "sample_mbox\<lparr>phase := Checked 5, box := W, phase := Parked 5\<rparr>"] by (simp add: sample_mbox_def)
  moreover have "recv_items 0 W = []"
    by (simp add: W_def put_ac_def recv_items_def sample_async_fields)
  ultimately show ?thesis
    using r2
    by (intro exI [of _ "sample_mbox\<lparr>phase := Checked 5, box := W, phase := Parked 5\<rparr>"]
        exI [of _ "sample_mbox\<lparr>phase := Checked 5, box := W, phase := Parked 5, box := W', produced := ''hi''\<rparr>"]) simp
qed

lemma sample_parked: "\<exists>m. recv_reachable 0 m \<and> phase m = Parked 5 \<and> produced m = ''hi''"
proof -
  obtain m m' where m: "recv_reachable 0 m" "produced m' = ''hi''" "phase m' = Parked 5"
      "mbox_step (recv_items 0) resumes (\<lambda>d. d) (recv_deliver 0) (recv_await_suspend 0) (recv_grab 0) pop_resume m m'"
    using sample_parked_then_data by blast
  from m(1,4) have "recv_reachable 0 m'" by (rule reachable_step)
  with m(2,3) show ?thesis by blast
qed

text \<open>C18. Receiving loses and reorders nothing and never sleeps over data, for one receiving coroutine whose test,
  suspension and resumption interleave in any way with arriving messages: the bytes received so far,
  followed by the bytes buffered, are the bytes that arrived; and when the coroutine is suspended, either
  nothing has arrived and its handle is stored, or its resumption is queued exactly once and will
  return at least one byte.\<close>

theorem recv_in_order_and_woken:
  assumes "recv_reachable a m"
  shows "consumed m @ recv_items a (box m) = produced m \<and>
    (case phase m of
       Parked h \<Rightarrow> if recv_items a (box m) = [] then recv_waiter a (box m) = Some h \<and> resumes (box m) = []
                   else resumes (box m) = [h] \<and> (\<exists>xs s. recv_grab a (pop_resume (box m)) = Inr (xs, s) \<and> xs \<noteq> [])
     | _ \<Rightarrow> True)"
proof (cases "phase m")
  case (Parked h)
  then show ?thesis
    using receiver.delivered_in_order [OF assms] receiver.never_stuck_with_items [OF assms Parked] by auto
qed (use receiver.delivered_in_order [OF assms] in simp_all)


theorem recv_in_order_and_woken_witness:
  "\<exists>m. recv_reachable 0 m \<and> phase m = Parked 5 \<and> consumed m @ recv_items 0 (box m) = ''hi''"
proof -
  obtain m where m: "recv_reachable 0 m" "phase m = Parked 5" "produced m = ''hi''"
    using sample_parked by blast
  with recv_in_order_and_woken [OF m(1)] show ?thesis by auto
qed

text \<open>Only arriving data resumes a receiver: from a state in which the coroutine is suspended and nothing is
  buffered, the only possible step is the arrival of at least one byte, so closing the connection never
  ends a pending receive, and no receive ever returns an empty buffer.\<close>

theorem only_data_resumes_recv:
  assumes "recv_reachable a m" and "phase m = Parked h" and "recv_items a (box m) = []"
    and "mbox_step (recv_items a) resumes (\<lambda>d. d) (recv_deliver a) (recv_await_suspend a) (recv_grab a) pop_resume m m'"
  shows "phase m' = Parked h \<and> consumed m' = consumed m \<and> (\<exists>d. d \<noteq> [] \<and> produced m' = produced m @ d)"
proof -
  have "resumes (box m) = []"
    using receiver.never_stuck_with_items [OF assms(1,2)] assms(3) by simp
  with assms(4,2) show ?thesis
    by (induction rule: mbox_step.induct) auto
qed

theorem only_data_resumes_recv_witness:
  "\<exists>m m'. recv_reachable 0 m \<and> phase m = Parked 5 \<and> recv_items 0 (box m) = [] \<and> consumed m' = consumed m \<and> produced m' = ''hi''
     \<and> mbox_step (recv_items 0) resumes (\<lambda>d. d) (recv_deliver 0) (recv_await_suspend 0) (recv_grab 0) pop_resume m m'"
proof -
  obtain m m' where m: "recv_reachable 0 m" "phase m = Parked 5" "recv_items 0 (box m) = []" "produced m' = ''hi''"
      "mbox_step (recv_items 0) resumes (\<lambda>d. d) (recv_deliver 0) (recv_await_suspend 0) (recv_grab 0) pop_resume m m'"
    using sample_parked_then_data by blast
  with only_data_resumes_recv [OF m(1,2,3,5)] show ?thesis by blast
qed

text \<open>C34. Callbacks follow moves but outlive the object: after a move the connection's messages go to the new object
  and the old one holds no connection; after the destruction of the object that holds a connection its
  callback is still installed, and the next message accesses the destroyed object.\<close>

theorem callbacks_follow_moves_and_dangle:
  assumes "dst \<noteq> src" and "acs W src = Some x" and "ac_conn x = Some c" and "AsyncConnection_move dst src W = Inr W1"
    and "AsyncConnection_dtor dst W1 = Inr W2"
  shows "message_arrives c b W1 = onMessage dst b W1 \<and> (\<exists>y. acs W1 src = Some y \<and> ac_conn y = None)
    \<and> (\<exists>y. acs W1 dst = Some y \<and> ac_conn y = Some c \<and> content (receivedData y) = content (receivedData x)
          \<and> recvCoroutine y = recvCoroutine x)
    \<and> message_arrives c b W2 = Inl UseAfterFree"
  using assms
  by (auto simp: AsyncConnection_move_def AsyncConnection_dtor_def with_ac_def bindCallbacks_def put_ac_def moved_from_def
      Buffer_move_def message_arrives_def onMessage_def)

theorem callbacks_follow_moves_and_dangle_witness:
  "\<exists>W1 W2. AsyncConnection_move 1 0 sample_async = Inr W1 \<and> AsyncConnection_dtor 1 W1 = Inr W2
     \<and> message_arrives 3 Buffer_default W2 = Inl UseAfterFree"
proof -
  obtain W1 W2 where W: "AsyncConnection_move 1 0 sample_async = Inr W1" "AsyncConnection_dtor 1 W1 = Inr W2"
    by (auto simp: AsyncConnection_move_def AsyncConnection_dtor_def with_ac_def sample_async_fields bindCallbacks_def put_ac_def)
  with callbacks_follow_moves_and_dangle [OF _ _ _ W, of _ 3 Buffer_default] show ?thesis
    by (auto simp: sample_async_fields)
qed

end
