(* ===== verification/AsyncServer.thy ===== *)
theory AsyncServer
  imports AsyncConnection
begin

text \<open>
  The awaitable server: \<^verbatim>\<open>include/hayai/coro/AsyncServer.h\<close> and \<^verbatim>\<open>src/coro/AsyncServer.cc\<close>. Accepted connections are
  wrapped at once and wait in a queue for a coroutine that accepts. \<open>as_world\<close> holds the wrappers; the
  queue holds their addresses.
\<close>

section \<open>State and operations\<close>

record async_server =
  as_world :: async_world
  next_addr :: nat
  pendingConnections :: "nat list"
  acceptCoroutine :: "nat option"
  as_resumes :: "nat list"

text \<open>
  \<open>c\<close> is the connection and \<open>l\<close> its loop. The wrapper is built on the stack, moved into the queue, and
  the empty one on the stack is destroyed at the end.
\<close>

definition onConnection :: "nat \<times> nat \<Rightarrow> async_server \<Rightarrow> async_server res" where
  "onConnection cl S =
     (let tmp = next_addr S; elem = Suc tmp;
          W1 = AsyncConnection_ctor tmp (Some cl) (as_world S) in
      bind_res (AsyncConnection_move elem tmp W1)
        (\<lambda>W2. let S1 = S\<lparr>as_world := W2, next_addr := Suc elem, pendingConnections := pendingConnections S @ [elem]\<rparr>;
                  S2 = (case acceptCoroutine S1 of
                          None \<Rightarrow> S1
                        | Some h \<Rightarrow> S1\<lparr>acceptCoroutine := None, as_resumes := as_resumes S1 @ [h]\<rparr>) in
           bind_res (AsyncConnection_dtor tmp (as_world S2)) (\<lambda>W3. Inr (S2\<lparr>as_world := W3\<rparr>))))"

text \<open>The connection callback: \<open>is_connected\<close> is what \<^verbatim>\<open>conn->connected()\<close> says.\<close>

definition connection_callback :: "bool \<Rightarrow> nat \<times> nat \<Rightarrow> async_server \<Rightarrow> async_server res" where
  "connection_callback is_connected cl S = (if is_connected then onConnection cl S else Inr S)"

definition accept_await_ready :: "async_server \<Rightarrow> bool" where
  "accept_await_ready S \<longleftrightarrow> pendingConnections S \<noteq> []"

definition accept_await_suspend :: "nat \<Rightarrow> async_server \<Rightarrow> async_server res" where
  "accept_await_suspend h S =
     Inr (if pendingConnections S \<noteq> [] then S\<lparr>as_resumes := as_resumes S @ [h]\<rparr>
          else S\<lparr>acceptCoroutine := Some h\<rparr>)"

text \<open>The result is a wrapper at a new address; the emptied front element is destroyed.\<close>

definition accept_await_resume :: "async_server \<Rightarrow> (nat \<times> async_server) res" where
  "accept_await_resume S =
     (case pendingConnections S of
        [] \<Rightarrow> Inl (RuntimeError ''No pending connection (shouldn't happen)'')
      | front # rest \<Rightarrow>
          let res = next_addr S in
          bind_res (AsyncConnection_move res front (as_world S))
            (\<lambda>W1. bind_res (AsyncConnection_dtor front W1)
              (\<lambda>W2. Inr (res, S\<lparr>as_world := W2, next_addr := Suc res, pendingConnections := rest\<rparr>))))"

section \<open>The accepting side is a mailbox\<close>

definition conn_of :: "async_world \<Rightarrow> nat \<Rightarrow> nat option" where
  "conn_of W a = (case acs W a of None \<Rightarrow> None | Some x \<Rightarrow> ac_conn x)"

definition accept_items :: "async_server \<Rightarrow> nat list" where
  "accept_items S = map (\<lambda>a. the (conn_of (as_world S) a)) (pendingConnections S)"

definition accept_good :: "async_server \<Rightarrow> bool" where
  "accept_good S \<longleftrightarrow> distinct (pendingConnections S) \<and>
     (\<forall>a \<in> set (pendingConnections S). a < next_addr S \<and> conn_of (as_world S) a \<noteq> None)"

definition accept_grab :: "async_server \<Rightarrow> (nat list \<times> async_server) res" where
  "accept_grab S =
     bind_res (accept_await_resume S) (\<lambda>(a, S'). Inr ([the (conn_of (as_world S') a)], S'))"

definition pop_accept :: "async_server \<Rightarrow> async_server" where
  "pop_accept S = S\<lparr>as_resumes := tl (as_resumes S)\<rparr>"

lemma conn_of_ctor: "conn_of (AsyncConnection_ctor a (Some cl) W) b = (if b = a then Some (fst cl) else conn_of W b)"
  by (simp add: conn_of_def AsyncConnection_ctor_def bindCallbacks_def put_ac_def)

lemma conn_of_move:
  "AsyncConnection_move dst src W = Inr W' \<Longrightarrow> dst \<noteq> src \<Longrightarrow>
     conn_of W' b = (if b = dst then conn_of W src else if b = src then None else conn_of W b)"
  by (auto simp: conn_of_def AsyncConnection_move_def with_ac_def bindCallbacks_def put_ac_def moved_from_def
      split: option.splits)

lemma conn_of_dtor: "AsyncConnection_dtor a W = Inr W' \<Longrightarrow> conn_of W' b = (if b = a then None else conn_of W b)"
  by (auto simp: conn_of_def AsyncConnection_dtor_def with_ac_def put_ac_def split: option.splits)

lemma onConnection_law:
  assumes good: "accept_good S" and ret: "onConnection cl S = Inr S'"
  shows "accept_good S' \<and> accept_items S' = accept_items S @ [fst cl] \<and> acceptCoroutine S' = None
    \<and> as_resumes S' = as_resumes S @ (case acceptCoroutine S of None \<Rightarrow> [] | Some h \<Rightarrow> [h])"
proof -
  let ?t = "next_addr S"
  obtain W2 W3 where W: "AsyncConnection_move (Suc ?t) ?t (AsyncConnection_ctor ?t (Some cl) (as_world S)) = Inr W2"
      "AsyncConnection_dtor ?t W2 = Inr W3"
    and S': "as_world S' = W3" "next_addr S' = Suc (Suc ?t)" "pendingConnections S' = pendingConnections S @ [Suc ?t]"
      "acceptCoroutine S' = None" "as_resumes S' = as_resumes S @ (case acceptCoroutine S of None \<Rightarrow> [] | Some h \<Rightarrow> [h])"
    using ret by (cases "acceptCoroutine S") (auto simp: onConnection_def res_simps Let_def)
  have "conn_of W3 b = (if b = Suc ?t then Some (fst cl) else if b = ?t then None else conn_of (as_world S) b)" for b
    using conn_of_dtor [OF W(2)] conn_of_move [OF W(1)] conn_of_ctor [of ?t cl "as_world S"] by auto
  with good S' show ?thesis
    by (auto simp: accept_good_def accept_items_def)
qed

lemma accept_grab_law:
  assumes good: "accept_good S" and ne: "accept_items S \<noteq> []"
  shows "\<exists>xs S'. accept_grab S = Inr (xs, S') \<and> xs \<noteq> [] \<and> accept_items S = xs @ accept_items S' \<and> accept_good S'
    \<and> acceptCoroutine S' = acceptCoroutine S \<and> as_resumes S' = as_resumes S"
proof -
  obtain a rest where p: "pendingConnections S = a # rest"
    using ne by (cases "pendingConnections S") (auto simp: accept_items_def)
  have a: "a < next_addr S" "conn_of (as_world S) a \<noteq> None" "a \<notin> set rest" "distinct rest"
    using good p by (auto simp: accept_good_def)
  obtain W1 where W1: "AsyncConnection_move (next_addr S) a (as_world S) = Inr W1"
    using a(2) by (auto simp: AsyncConnection_move_def with_ac_def conn_of_def split: option.splits)
  obtain W2 where W2: "AsyncConnection_dtor a W1 = Inr W2"
    using W1 a(1) by (auto simp: AsyncConnection_move_def AsyncConnection_dtor_def with_ac_def bindCallbacks_def put_ac_def
        split: option.splits)
  let ?S' = "S\<lparr>as_world := W2, next_addr := Suc (next_addr S), pendingConnections := rest\<rparr>"
  have c: "conn_of W2 b = (if b = next_addr S then conn_of (as_world S) a else if b = a then None else conn_of (as_world S) b)" for b
    using conn_of_dtor [OF W2] conn_of_move [OF W1] a(1) by auto
  have "accept_grab S = Inr ([the (conn_of (as_world S) a)], ?S')"
    using p W1 W2 c by (simp add: accept_grab_def accept_await_resume_def Let_def)
  moreover have "accept_good ?S'" "map (\<lambda>b. the (conn_of W2 b)) rest = map (\<lambda>b. the (conn_of (as_world S) b)) rest"
    using good p c a by (auto simp: accept_good_def)
  ultimately show ?thesis
    using p by (auto simp: accept_items_def)
qed

interpretation acceptor: mailbox accept_good accept_items acceptCoroutine as_resumes "\<lambda>cl. [fst cl]" onConnection
    accept_await_suspend accept_grab pop_accept
proof unfold_locales
  show "accept_good s' \<and> accept_items s' = accept_items s \<and>
      (if accept_items s = [] then acceptCoroutine s' = Some h \<and> as_resumes s' = as_resumes s
       else acceptCoroutine s' = acceptCoroutine s \<and> as_resumes s' = as_resumes s @ [h])"
    if "accept_good s" "accept_await_suspend h s = Inr s'" for s h s'
    using that by (auto simp: accept_await_suspend_def accept_good_def accept_items_def)
  show "accept_good (pop_accept s) \<and> accept_items (pop_accept s) = accept_items s
      \<and> acceptCoroutine (pop_accept s) = acceptCoroutine s \<and> as_resumes (pop_accept s) = tl (as_resumes s)" if "accept_good s" for s
    using that by (simp add: pop_accept_def accept_good_def accept_items_def)
qed (fact onConnection_law accept_grab_law)+

section \<open>Properties\<close>

abbreviation accept_reachable :: "(async_server, nat) mbox \<Rightarrow> bool" where
  "accept_reachable \<equiv> reachable (mbox_start accept_good accept_items acceptCoroutine as_resumes)
     (mbox_step accept_items as_resumes (\<lambda>cl. [fst cl]) onConnection accept_await_suspend accept_grab pop_accept)"

definition sample_async_server :: async_server where
  "sample_async_server = \<lparr>as_world = \<lparr>acs = (\<lambda>_. None), msg_cb = (\<lambda>_. None), wc_cb = (\<lambda>_. None), resumes = [], sends = []\<rparr>,
     next_addr = 0, pendingConnections = [], acceptCoroutine = None, as_resumes = []\<rparr>"

definition sample_accept_mbox :: "(async_server, nat) mbox" where
  "sample_accept_mbox = \<lparr>box = sample_async_server, phase = NotWaiting, produced = [], consumed = []\<rparr>"

lemma onConnection_succeeds: "\<exists>S'. onConnection cl S = Inr S'"
  by (cases "acceptCoroutine S")
     (auto simp: onConnection_def AsyncConnection_ctor_def AsyncConnection_move_def AsyncConnection_dtor_def with_ac_def
       bindCallbacks_def put_ac_def Let_def)

lemma sample_two_accepted: "\<exists>m. accept_reachable m \<and> produced m = [3, 4]"
proof -
  note R = reachable_step [where start = "mbox_start accept_good accept_items acceptCoroutine as_resumes" and
      step = "mbox_step accept_items as_resumes (\<lambda>cl. [fst cl]) onConnection accept_await_suspend accept_grab pop_accept"]
  have r0: "accept_reachable sample_accept_mbox"
    by (rule reachable_start) (simp add: mbox_start_def sample_accept_mbox_def sample_async_server_def accept_good_def accept_items_def)
  obtain S1 where S1: "onConnection (3, 1) (box sample_accept_mbox) = Inr S1" using onConnection_succeeds by blast
  obtain S2 where S2: "onConnection (4, 1) S1 = Inr S2" using onConnection_succeeds by blast
  note D = mb_deliver [where payload = "\<lambda>cl. [fst cl]" and deliver = onConnection and items = accept_items and
      wakeups = as_resumes and suspend = accept_await_suspend and grab = accept_grab and pop = pop_accept]
  let ?m1 = "sample_accept_mbox\<lparr>box := S1, produced := [3]\<rparr>"
  have "accept_reachable ?m1"
    using R [OF r0 D [where d = "(3, 1)" and s = S1]] S1 by (simp add: sample_accept_mbox_def)
  then have "accept_reachable (?m1\<lparr>box := S2, produced := [3, 4]\<rparr>)"
    using R [OF _ D [where d = "(4, 1)" and s = S2 and m = ?m1]] S2 by simp
  then show ?thesis by (intro exI [of _ "?m1\<lparr>box := S2, produced := [3, 4]\<rparr>"]) simp
qed

text \<open>C19. Accepting loses and reorders nothing and never sleeps over a connection, for one accepting coroutine: the
  connections handed out so far, followed by those in the queue, are the established ones in their
  order; a suspended acceptor with a connection waiting has its resumption queued, and that
  resumption hands out a connection, so the exception for an empty queue is never thrown.\<close>

theorem accept_in_order_and_woken:
  assumes "accept_reachable m"
  shows "consumed m @ accept_items (box m) = produced m \<and>
    (case phase m of
       Parked h \<Rightarrow> if accept_items (box m) = [] then acceptCoroutine (box m) = Some h \<and> as_resumes (box m) = []
                   else as_resumes (box m) = [h] \<and> (\<exists>xs S. accept_grab (pop_accept (box m)) = Inr (xs, S) \<and> xs \<noteq> [])
     | _ \<Rightarrow> True)"
proof (cases "phase m")
  case (Parked h)
  then show ?thesis
    using acceptor.delivered_in_order [OF assms] acceptor.never_stuck_with_items [OF assms Parked] by auto
qed (use acceptor.delivered_in_order [OF assms] in simp_all)

theorem accept_in_order_and_woken_witness:
  "\<exists>m. accept_reachable m \<and> consumed m @ accept_items (box m) = [3, 4]"
proof -
  obtain m where m: "accept_reachable m" "produced m = [3, 4]" using sample_two_accepted by blast
  with accept_in_order_and_woken [OF m(1)] show ?thesis by auto
qed

text \<open>Two coroutines that accept at the same time: the second one to suspend replaces the first one's handle,
  and after the next connection only the second is resumed; the handle of the first is nowhere.\<close>

theorem second_acceptor_replaces_first:
  assumes "pendingConnections S = []" and "h1 \<noteq> h2" and "h1 \<notin> set (as_resumes S)"
    and "accept_await_suspend h1 S = Inr S1" and "accept_await_suspend h2 S1 = Inr S2" and "onConnection cl S2 = Inr S3"
  shows "acceptCoroutine S3 = None \<and> as_resumes S3 = as_resumes S @ [h2] \<and> h1 \<notin> set (as_resumes S3)"
  using assms by (auto simp: accept_await_suspend_def onConnection_def res_simps Let_def)

theorem second_acceptor_replaces_first_witness:
  "\<exists>S3. onConnection (3, 1) (sample_async_server\<lparr>acceptCoroutine := Some 6\<rparr>) = Inr S3 \<and> as_resumes S3 = [6]"
proof -
  obtain S3 where S3: "onConnection (3, 1) (sample_async_server\<lparr>acceptCoroutine := Some 6\<rparr>) = Inr S3"
    using onConnection_succeeds by blast
  with second_acceptor_replaces_first [of sample_async_server 5 6 "sample_async_server\<lparr>acceptCoroutine := Some 5\<rparr>"
      "sample_async_server\<lparr>acceptCoroutine := Some 6\<rparr>" "(3, 1)" S3]
  show ?thesis by (simp add: accept_await_suspend_def sample_async_server_def)
qed

end
