(* ===== verification/Acceptor.thy ===== *)
theory Acceptor
  imports Socket Poller
begin

text \<open>
  The listening socket: \<^verbatim>\<open>include/hayai/net/Acceptor.h\<close> and \<^verbatim>\<open>src/net/Accpetor.cc\<close>. Every operation yields
  the system calls it makes and its result; an exception in the constructor destroys the members
  that are already built.
\<close>

section \<open>State and operations\<close>

record acceptor =
  acc_loop :: nat
  acc_tid :: nat
  acceptSocket :: socket
  acceptChannel :: channel
  listenAddr :: sockaddr_in
  listening :: bool

text \<open>Sequencing of operations that make system calls.\<close>

definition bind_sys :: "'a sys \<Rightarrow> ('a \<Rightarrow> 'b sys) \<Rightarrow> 'b sys" where
  "bind_sys m f =
     (case m of
        (cs, Inl e) \<Rightarrow> (cs, Inl e)
      | (cs, Inr x) \<Rightarrow> (case f x of (cs', r) \<Rightarrow> (cs @ cs', r)))"

text \<open>The body of the constructor, with the destruction of the socket when it throws.\<close>

definition cleanup_on_throw :: "syscall list \<Rightarrow> 'a sys \<Rightarrow> 'a sys" where
  "cleanup_on_throw dtor m = (case m of (cs, Inl e) \<Rightarrow> (cs @ dtor, Inl e) | (cs, Inr x) \<Rightarrow> (cs, Inr x))"

definition Acceptor_ctor :: "kernel \<Rightarrow> nat \<Rightarrow> nat \<Rightarrow> sockaddr_in \<Rightarrow> bool \<Rightarrow> acceptor sys" where
  "Acceptor_ctor k lp tid addr reuseport =
     bind_sys (createTcpSocket k)
       (\<lambda>s. cleanup_on_throw (Socket_dtor s)
          (bind_sys (setReuseAddr k s True)
            (\<lambda>_. bind_sys (setReusePort k s reuseport)
              (\<lambda>_. bind_sys (Socket_bind k s addr)
                (\<lambda>_. ([], Inr \<lparr>acc_loop = lp, acc_tid = tid, acceptSocket = s, acceptChannel = Channel_ctor lp (sockfd s),
                             listenAddr = addr, listening = False\<rparr>))))))"

text \<open>
  The body of the destructor on the poller of the loop: \<^verbatim>\<open>disableAll()\<close> drops all interest and hands the channel to
  the poller once more, \<^verbatim>\<open>remove()\<close> takes it out. The poller asserts that it knows the channel it is to remove;
  whatever it held before, it does.
\<close>

definition acceptor_unregister :: "('k \<Rightarrow> kchange list \<Rightarrow> 'k) \<Rightarrow> 'k poller \<Rightarrow> nat \<Rightarrow> acceptor \<Rightarrow> 'k poller res" where
  "acceptor_unregister kevent_change p c a =
     (let ch = disableAll_mask (acceptChannel a) in
      Poller_removeChannel kevent_change (Poller_updateChannel kevent_change p c ch) ch)"

lemma acceptor_unregister_ok:
  "\<exists>p'. acceptor_unregister kevent_change p c a = Inr p' \<and> channels p' = (channels p)(ch_fd (acceptChannel a) := None)"
  by (simp add: acceptor_unregister_def Poller_removeChannel_def Poller_updateChannel_def Let_def)

text \<open>Since that part always succeeds, what remains of the destruction is that the socket closes.\<close>

definition Acceptor_dtor :: "acceptor \<Rightarrow> syscall list res" where
  "Acceptor_dtor a = Inr (Socket_dtor (acceptSocket a))"

text \<open>The flag is set before the call that may throw, so the new state is part of both outcomes.\<close>

definition Acceptor_listen :: "kernel \<Rightarrow> nat \<Rightarrow> acceptor \<Rightarrow> syscall list \<times> acceptor \<times> unit res" where
  "Acceptor_listen k me a =
     (if me \<noteq> acc_tid a then ([], a, Inl Aborted)
      else let a1 = a\<lparr>listening := True\<rparr> in
        case Socket_listen k (acceptSocket a1) of
          (cs, Inl e) \<Rightarrow> (cs, a1, Inl e)
        | (cs, Inr _) \<Rightarrow> (cs, a1\<lparr>acceptChannel := enableReading_mask (acceptChannel a1)\<rparr>, Inr ()))"

text \<open>\<open>cb\<close> is the callback for new connections, acting on a state of its owner's.\<close>

definition Acceptor_handleRead :: "kernel \<Rightarrow> nat \<Rightarrow> (int \<Rightarrow> sockaddr_in \<Rightarrow> 's \<Rightarrow> 's sys) option \<Rightarrow> acceptor \<Rightarrow> 's \<Rightarrow> 's sys" where
  "Acceptor_handleRead k me cb a s =
     (if me \<noteq> acc_tid a then ([], Inl Aborted)
      else let (cs, connfd, peer) = Socket_accept k (acceptSocket a) (InetAddress_port 0 False) in
        if 0 \<le> connfd
        then (case cb of
                Some f \<Rightarrow> (case f connfd peer s of (cs', r) \<Rightarrow> (cs @ cs', r))
              | None \<Rightarrow> (cs @ [SysClose connfd], Inr s))
        else (cs, Inr s))"

section \<open>Lemmas\<close>

lemma bind_sys_simps [simp]:
  "bind_sys (cs, Inl e) f = (cs, Inl e)"
  "bind_sys (cs, Inr x) f = (cs @ fst (f x), snd (f x))"
  by (simp_all add: bind_sys_def split: prod.splits)

lemma cleanup_simps [simp]:
  "cleanup_on_throw d (cs, Inl e) = (cs @ d, Inl e)" "cleanup_on_throw d (cs, Inr x) = (cs, Inr x)"
  by (simp_all add: cleanup_on_throw_def)

lemma bind_sys_check:
  "bind_sys (sys_check k c what) f =
     (if ret k c < 0 then ([c], Inl (SystemError (errno k c) what)) else (c # fst (f ()), snd (f ())))"
  by (simp add: sys_check_def)

lemmas acceptor_setup = createTcpSocket_def setReuseAddr_def setReusePort_def Socket_bind_def bind_sys_check

definition sample_kernel :: kernel where
  "sample_kernel = \<lparr>ret = (\<lambda>c. case c of SysSocket \<Rightarrow> 4 | SysAccept _ \<Rightarrow> 9 | SysBind _ _ \<Rightarrow> -1 | _ \<Rightarrow> 0),
     errno = (\<lambda>_. 48), addr_of = (\<lambda>_. InetAddress_port 5 True)\<rparr>"

section \<open>Properties\<close>

text \<open>C35. Construction of an acceptor makes its calls in a fixed order: create the socket, set its two options, bind it. Either
  it made all of them and every one succeeded, so that the descriptor is open, owned and bound to the
  address, not yet listening and without interest; or the calls before some call succeeded, that call
  failed, its error is thrown, nothing after it was called but the \<^verbatim>\<open>close\<close> of a descriptor that had been created. The
  descriptor's status flags are never set, so the listening socket stays blocking.\<close>

theorem Acceptor_ctor_outcome:
  assumes "Acceptor_ctor k lp tid addr reuseport = (cs, r)"
  shows "let fd = ret k SysSocket;
      calls = [SysSocket, SysSetsockopt fd SO_REUSEADDR 1, SysSetsockopt fd SO_REUSEPORT (if reuseport then 1 else 0), SysBind fd addr];
      succeeded = takeWhile (\<lambda>c. 0 \<le> ret k c) calls in
    (case r of
      Inr a \<Rightarrow> cs = calls \<and> list_all (\<lambda>c. 0 \<le> ret k c) cs \<and> sockfd (acceptSocket a) = fd \<and> closed_fds cs = {#} \<and> \<not> listening a
               \<and> isNoneEvent (acceptChannel a) \<and> ch_fd (acceptChannel a) = fd \<and> listenAddr a = addr \<and> acc_tid a = tid
    | Inl e \<Rightarrow> succeeded \<noteq> calls \<and> cs = succeeded @ calls ! length succeeded # (if succeeded = [] then [] else [SysClose fd])
               \<and> ret k (calls ! length succeeded) < 0 \<and> (\<exists>what. e = SystemError (errno k (calls ! length succeeded)) what)
               \<and> closed_fds cs = (if fd < 0 then {#} else {# fd #}))
    \<and> (\<forall>fd flags. SysSetFlags fd flags \<notin> set cs)"
proof -
  let ?fd = "ret k SysSocket"
  have sign: "\<not> x < 0 \<longleftrightarrow> 0 \<le> x" for x :: int by linarith
  show ?thesis
    using assms
    by (cases "?fd < 0"; cases "ret k (SysSetsockopt ?fd SO_REUSEADDR 1) < 0";
        cases "ret k (SysSetsockopt ?fd SO_REUSEPORT (if reuseport then 1 else 0)) < 0"; cases "ret k (SysBind ?fd addr) < 0")
       (auto simp: Acceptor_ctor_def acceptor_setup Socket_ctor_def Socket_dtor_def Socket_close_def sign Let_def)
qed

theorem Acceptor_ctor_outcome_witness:
  "\<exists>what. Acceptor_ctor sample_kernel 1 0 (InetAddress_port 80 False) True =
     ([SysSocket, SysSetsockopt 4 SO_REUSEADDR 1, SysSetsockopt 4 SO_REUSEPORT 1, SysBind 4 (InetAddress_port 80 False), SysClose 4],
      Inl (SystemError 48 what))"
proof -
  obtain cs r where c: "Acceptor_ctor sample_kernel 1 0 (InetAddress_port 80 False) True = (cs, r)"
    by fastforce
  moreover have "\<exists>e. r = Inl e"
    using c by (auto simp: Acceptor_ctor_def acceptor_setup Socket_ctor_def sample_kernel_def)
  ultimately show ?thesis
    using Acceptor_ctor_outcome [OF c] by (auto simp: sample_kernel_def Let_def)
qed

text \<open>What a readable listening socket does: each accepted descriptor is made non-blocking and then handed to
  the callback exactly once, with the peer's address, or closed when there is no callback; a failed
  \<^verbatim>\<open>accept\<close> changes nothing; on any other thread than the loop's it aborts before any call.\<close>

theorem Acceptor_handleRead_outcome:
  "Acceptor_handleRead k me cb a s =
     (let acc = SysAccept (sockfd (acceptSocket a)); fd = ret k acc;
          pre = [acc, SysGetFlags fd, SysSetFlags fd (ret k (SysGetFlags fd) OR O_NONBLOCK)] in
      if me \<noteq> acc_tid a then ([], Inl Aborted)
      else if fd < 0 then ([acc], Inr s)
      else if cb = None then (pre @ [SysClose fd], Inr s)
      else (pre @ fst (the cb fd (addr_of k acc) s), snd (the cb fd (addr_of k acc) s)))"
  by (auto simp: Acceptor_handleRead_def Socket_accept_def setSockAddr_def Let_def split: option.splits prod.splits)

end
