(* ===== verification/EventLoopThread.thy ===== *)
theory EventLoopThread
  imports EventLoop
begin

text \<open>
  \<^verbatim>\<open>include/hayai/net/EventLoopThread.h\<close> and \<^verbatim>\<open>src/net/EventLoopThread.cc\<close>: one owner thread that starts a
  worker, waits for its loop and later destroys the object, and the worker that creates the
  loop, publishes it under the mutex and runs it. The two threads interleave in a step relation;
  the part of the loop that matters here is its \<^verbatim>\<open>quit_\<close> flag, which \<^verbatim>\<open>loop()\<close> clears on entry.
\<close>

section \<open>State and steps\<close>

text \<open>
  The worker: not started, in \<^verbatim>\<open>threadFunc\<close> before and after constructing the local loop, after the
  locked assignment to \<^verbatim>\<open>loop_\<close>, inside \<^verbatim>\<open>loop()\<close>, finished.
\<close>

datatype worker_pc = NotStarted | Starting | Created nat | Published | InLoop | Finished

text \<open>
  The owner: constructed, waiting in \<^verbatim>\<open>startLoop\<close>, returned from it with a pointer, in the
  destructor's \<^verbatim>\<open>join\<close>, past the join (members still to be destroyed), destroyed.
\<close>

datatype owner_pc = Fresh | Waiting | Returned "nat option" | Joining | Joined | Gone

record loop_thread =
  lt_loop :: "nat option"
  lt_worker :: worker_pc
  lt_owner :: owner_pc
  lt_quit :: bool
  lt_tls :: thread_locals
  owner_tid :: nat
  worker_tid :: nat

definition loop_thread_start :: "loop_thread \<Rightarrow> bool" where
  "loop_thread_start s \<longleftrightarrow> lt_loop s = None \<and> lt_worker s = NotStarted \<and> lt_owner s = Fresh \<and> \<not> lt_quit s
     \<and> owner_tid s \<noteq> worker_tid s \<and> lt_tls s (worker_tid s) = None"

inductive loop_thread_step :: "loop_thread \<Rightarrow> loop_thread \<Rightarrow> bool" where
  start_thread: "lt_owner s = Fresh \<Longrightarrow> lt_worker s = NotStarted \<Longrightarrow>
     loop_thread_step s (s\<lparr>lt_owner := Waiting, lt_worker := Starting\<rparr>)"
| create_loop: "lt_worker s = Starting \<Longrightarrow> lt_tls s (worker_tid s) = None \<Longrightarrow>
     loop_thread_step s (s\<lparr>lt_worker := Created lid, lt_tls := (lt_tls s)(worker_tid s \<mapsto> lid)\<rparr>)"
| publish: "lt_worker s = Created lid \<Longrightarrow>
     loop_thread_step s (s\<lparr>lt_worker := Published, lt_loop := Some lid\<rparr>)"
| wait_done: "lt_owner s = Waiting \<Longrightarrow> lt_loop s \<noteq> None \<Longrightarrow>
     loop_thread_step s (s\<lparr>lt_owner := Returned (lt_loop s)\<rparr>)"
| enter_loop: "lt_worker s = Published \<Longrightarrow>
     loop_thread_step s (s\<lparr>lt_worker := InLoop, lt_quit := False\<rparr>)"
| destroy_quit: "lt_owner s = Returned r \<Longrightarrow>
     loop_thread_step s (s\<lparr>lt_owner := Joining, lt_quit := (if lt_loop s \<noteq> None then True else lt_quit s)\<rparr>)"
| destroy_unstarted: "lt_owner s = Fresh \<Longrightarrow> loop_thread_step s (s\<lparr>lt_owner := Joined\<rparr>)"
| leave_loop: "lt_worker s = InLoop \<Longrightarrow> lt_quit s \<Longrightarrow>
     loop_thread_step s (s\<lparr>lt_worker := Finished\<rparr>)"
| join: "lt_owner s = Joining \<Longrightarrow> lt_worker s = Finished \<Longrightarrow>
     loop_thread_step s (s\<lparr>lt_owner := Joined, lt_tls := (lt_tls s)(worker_tid s := None)\<rparr>)"
| destroy_members: "lt_owner s = Joined \<Longrightarrow>
     loop_thread_step s (s\<lparr>lt_owner := Gone, lt_loop := None,
       lt_tls := (if lt_loop s \<noteq> None then (lt_tls s)(owner_tid s := None) else lt_tls s)\<rparr>)"

text \<open>A loop exists once the worker is past its construction, and is published from \<open>Published\<close> on.\<close>

definition loop_thread_inv :: "loop_thread \<Rightarrow> bool" where
  "loop_thread_inv s \<longleftrightarrow>
     (lt_owner s \<noteq> Gone \<longrightarrow> (lt_loop s \<noteq> None \<longleftrightarrow> lt_worker s \<in> {Published, InLoop, Finished}))
     \<and> (\<forall>r. lt_owner s = Returned r \<longrightarrow> r = lt_loop s \<and> r \<noteq> None)
     \<and> (lt_owner s = Fresh \<longrightarrow> lt_worker s = NotStarted)
     \<and> (lt_owner s = Joining \<longrightarrow> lt_worker s \<in> {Published, InLoop, Finished})
     \<and> owner_tid s \<noteq> worker_tid s"

text \<open>Once the worker's loop has swallowed the quit request nobody will repeat it.\<close>

definition join_stuck :: "loop_thread \<Rightarrow> bool" where
  "join_stuck s \<longleftrightarrow> lt_owner s = Joining \<and> lt_worker s = InLoop \<and> \<not> lt_quit s"

definition sample_thread :: loop_thread where
  "sample_thread = \<lparr>lt_loop = None, lt_worker = NotStarted, lt_owner = Fresh, lt_quit = False,
     lt_tls = [0 \<mapsto> 7], owner_tid = 0, worker_tid = 1\<rparr>"

section \<open>Invariant\<close>

lemma loop_thread_step_inv: "loop_thread_inv s \<Longrightarrow> loop_thread_step s t \<Longrightarrow> loop_thread_inv t"
  by (rotate_tac, induction rule: loop_thread_step.induct) (auto simp: loop_thread_inv_def)

lemma loop_thread_start_inv: "loop_thread_start s \<Longrightarrow> loop_thread_inv s"
  by (simp add: loop_thread_start_def loop_thread_inv_def)

interpretation worker: invariant_machine loop_thread_start loop_thread_step loop_thread_inv
  by unfold_locales (blast intro: loop_thread_start_inv loop_thread_step_inv)+

lemma join_stuck_step: "join_stuck s \<Longrightarrow> loop_thread_step s t \<Longrightarrow> join_stuck t"
  by (rotate_tac, induction rule: loop_thread_step.induct) (auto simp: join_stuck_def)

lemma join_stuck_steps: "loop_thread_step\<^sup>*\<^sup>* s t \<Longrightarrow> join_stuck s \<Longrightarrow> join_stuck t"
  by (induction rule: rtranclp_induct) (auto intro: join_stuck_step)

lemmas thread_reachable_start = reachable_start [where start = loop_thread_start and step = loop_thread_step]
lemmas thread_reachable_step = reachable_step [where start = loop_thread_start and step = loop_thread_step]

lemma sample_thread_start: "loop_thread_start sample_thread"
  by (simp add: loop_thread_start_def sample_thread_def)

abbreviation sample_returned :: loop_thread where
  "sample_returned \<equiv> sample_thread\<lparr>lt_owner := Returned (Some 9), lt_worker := Published, lt_loop := Some 9,
     lt_tls := [0 \<mapsto> 7, 1 \<mapsto> 9]\<rparr>"

lemma sample_returned_reachable: "reachable loop_thread_start loop_thread_step sample_returned"
proof -
  let ?r = "reachable loop_thread_start loop_thread_step"
  let ?s1 = "sample_thread\<lparr>lt_owner := Waiting, lt_worker := Starting\<rparr>"
  let ?s2 = "?s1\<lparr>lt_worker := Created 9, lt_tls := [0 \<mapsto> 7, 1 \<mapsto> 9]\<rparr>"
  let ?s3 = "?s2\<lparr>lt_worker := Published, lt_loop := Some 9\<rparr>"
  have "?r ?s1"
    using start_thread [of sample_thread]
    by (intro thread_reachable_step [OF thread_reachable_start [OF sample_thread_start]]) (simp add: sample_thread_def)
  moreover have "loop_thread_step ?s1 ?s2"
    using create_loop [of ?s1 9] by (simp add: sample_thread_def)
  ultimately have "?r ?s2"
    by (rule thread_reachable_step)
  moreover have "loop_thread_step ?s2 ?s3"
    using publish [of ?s2 9] by simp
  ultimately have "?r ?s3"
    by (rule thread_reachable_step)
  moreover have "loop_thread_step ?s3 sample_returned"
    using wait_done [of ?s3] by (simp add: sample_thread_def)
  ultimately show ?thesis
    by (rule thread_reachable_step)
qed

section \<open>Properties\<close>

text \<open>\<^verbatim>\<open>startLoop\<close> never returns a null pointer: in every interleaving, when it has returned, the pointer
  it returned is the loop the worker has published.\<close>

theorem startLoop_returns_loop:
  assumes "reachable loop_thread_start loop_thread_step s" and "lt_owner s = Returned r"
  shows "\<exists>lid. r = Some lid \<and> lt_loop s = Some lid \<and> lt_worker s \<in> {Published, InLoop, Finished}"
  using worker.reachable_inv [OF assms(1)] assms(2) by (auto simp: loop_thread_inv_def)

theorem startLoop_returns_loop_witness:
  "\<exists>lid. lt_loop sample_returned = Some lid"
  using startLoop_returns_loop [OF sample_returned_reachable, of "Some 9"] by simp

text \<open>C38. The destructor can wait forever: if it runs after \<^verbatim>\<open>startLoop\<close> returned but before the worker entered
  \<^verbatim>\<open>loop()\<close>, the quit request is cleared by the worker and the owner stays in \<^verbatim>\<open>join\<close> in every
  continuation.\<close>

theorem destructor_can_block_forever:
  "\<exists>s. reachable loop_thread_start loop_thread_step s \<and> lt_owner s = Joining
     \<and> \<not> (\<exists>t. loop_thread_step\<^sup>*\<^sup>* s t \<and> lt_owner t \<noteq> Joining)"
proof -
  let ?s1 = "sample_returned\<lparr>lt_owner := Joining, lt_quit := True\<rparr>"
  let ?s2 = "?s1\<lparr>lt_worker := InLoop, lt_quit := False\<rparr>"
  have "loop_thread_step sample_returned ?s1"
    using destroy_quit [of sample_returned "Some 9"] by simp
  then have "reachable loop_thread_start loop_thread_step ?s1"
    by (rule thread_reachable_step [OF sample_returned_reachable])
  moreover have "loop_thread_step ?s1 ?s2"
    using enter_loop [of ?s1] by simp
  ultimately have "reachable loop_thread_start loop_thread_step ?s2"
    by (rule thread_reachable_step)
  moreover have "join_stuck ?s2"
    by (simp add: join_stuck_def)
  ultimately show ?thesis
    using join_stuck_steps by (intro exI [of _ ?s2]) (auto simp: join_stuck_def)
qed

text \<open>When the worker is already inside \<^verbatim>\<open>loop()\<close> the destructor does finish; but the member loop is then
  destroyed on the owner's thread, which empties the owner's own \<^verbatim>\<open>t_loopInThisThread\<close> slot, so the
  check for one loop per thread no longer protects a loop the owner still has.\<close>

theorem destructor_finishes_and_clears_owner_slot:
  assumes "reachable loop_thread_start loop_thread_step s" and "lt_owner s = Returned r" and "lt_worker s = InLoop"
  shows "\<exists>t. loop_thread_step\<^sup>*\<^sup>* s t \<and> lt_owner t = Gone \<and> lt_tls t (owner_tid s) = None
           \<and> lt_tls t (worker_tid s) = None"
proof -
  have loop: "lt_loop s \<noteq> None" and ne: "owner_tid s \<noteq> worker_tid s"
    using worker.reachable_inv [OF assms(1)] assms(3,2) by (auto simp: loop_thread_inv_def)
  let ?s1 = "s\<lparr>lt_owner := Joining, lt_quit := True\<rparr>"
  let ?s2 = "?s1\<lparr>lt_worker := Finished\<rparr>"
  let ?s3 = "?s2\<lparr>lt_owner := Joined, lt_tls := (lt_tls s)(worker_tid s := None)\<rparr>"
  let ?s4 = "?s3\<lparr>lt_owner := Gone, lt_loop := None, lt_tls := (lt_tls s)(worker_tid s := None, owner_tid s := None)\<rparr>"
  have "loop_thread_step s ?s1" "loop_thread_step ?s1 ?s2" "loop_thread_step ?s2 ?s3" "loop_thread_step ?s3 ?s4"
    using destroy_quit [OF assms(2)] leave_loop [of ?s1] join [of ?s2] destroy_members [of ?s3] loop assms(3)
    by simp_all
  then have "loop_thread_step\<^sup>*\<^sup>* s ?s4"
    by (meson converse_rtranclp_into_rtranclp rtranclp.rtrancl_refl)
  with ne show ?thesis by (intro exI [of _ ?s4]) simp
qed

theorem destructor_finishes_witness:
  "\<exists>t. loop_thread_step\<^sup>*\<^sup>* (sample_returned\<lparr>lt_worker := InLoop, lt_quit := False\<rparr>) t \<and> lt_owner t = Gone
     \<and> lt_tls t 0 = None"
proof -
  have "loop_thread_step sample_returned (sample_returned\<lparr>lt_worker := InLoop, lt_quit := False\<rparr>)"
    by (rule enter_loop) simp
  from destructor_finishes_and_clears_owner_slot [OF thread_reachable_step [OF sample_returned_reachable this], of "Some 9"]
  show ?thesis by (auto simp: sample_thread_def)
qed

end
