(* ===== verification/EventLoopThreadPool.thy ===== *)
theory EventLoopThreadPool
  imports EventLoopThread "HOL-Library.Multiset"
begin

text \<open>
  \<^verbatim>\<open>include/hayai/net/EventLoopThreadPool.h\<close> and \<^verbatim>\<open>src/net/EventLoopThreadPool.cc\<close>: the worker loops and their
  round-robin choice with a 64-bit atomic counter that wraps. \<open>mk\<close> gives the loop that the i-th
  \<^verbatim>\<open>EventLoopThread::startLoop\<close> returns.
\<close>

section \<open>State and operations\<close>

record loop_pool =
  baseLoop :: nat
  base_tid :: nat
  numThreads :: nat
  pool_loops :: "nat list"
  next_counter :: nat
  pool_started :: bool

definition EventLoopThreadPool_ctor :: "nat option \<Rightarrow> nat \<Rightarrow> nat \<Rightarrow> loop_pool res" where
  "EventLoopThreadPool_ctor base tid n =
     (case base of
        None \<Rightarrow> Inl AssertFailed
      | Some b \<Rightarrow> Inr \<lparr>baseLoop = b, base_tid = tid, numThreads = n, pool_loops = [], next_counter = 0,
                       pool_started = False\<rparr>)"

definition pool_assertInLoopThread :: "nat \<Rightarrow> loop_pool \<Rightarrow> unit res" where
  "pool_assertInLoopThread me p = check (me = base_tid p) Aborted"

primrec start_threads :: "(nat \<Rightarrow> nat) \<Rightarrow> nat \<Rightarrow> nat \<Rightarrow> loop_pool \<Rightarrow> loop_pool" where
  "start_threads mk i 0 p = p"
| "start_threads mk i (Suc n) p = start_threads mk (Suc i) n (p\<lparr>pool_loops := pool_loops p @ [mk i]\<rparr>)"

definition Pool_start :: "(nat \<Rightarrow> nat) \<Rightarrow> nat \<Rightarrow> loop_pool \<Rightarrow> loop_pool res" where
  "Pool_start mk me p =
     bind_res (check (\<not> pool_started p) AssertFailed)
       (\<lambda>_. bind_res (pool_assertInLoopThread me p)
         (\<lambda>_. let p1 = p\<lparr>pool_started := True\<rparr> in
            if numThreads p1 = 0 then Inr p1 else Inr (start_threads mk 0 (numThreads p1) p1)))"

definition getNextLoop :: "nat \<Rightarrow> loop_pool \<Rightarrow> (nat \<times> loop_pool) res" where
  "getNextLoop me p =
     bind_res (pool_assertInLoopThread me p)
       (\<lambda>_. bind_res (check (pool_started p) AssertFailed)
         (\<lambda>_. if pool_loops p = [] then Inr (baseLoop p, p)
              else let i = next_counter p mod length (pool_loops p) in
                Inr (pool_loops p ! i, p\<lparr>next_counter := size_add (next_counter p) 1\<rparr>)))"

text \<open>\<open>None\<close> is the null pointer returned for an index out of range.\<close>

definition getLoop :: "nat \<Rightarrow> loop_pool \<Rightarrow> nat \<Rightarrow> nat option res" where
  "getLoop me p i =
     bind_res (pool_assertInLoopThread me p)
       (\<lambda>_. bind_res (check (pool_started p) AssertFailed)
         (\<lambda>_. if pool_loops p = [] then Inr (Some (baseLoop p))
              else if length (pool_loops p) \<le> i then Inr None
              else Inr (Some (pool_loops p ! i))))"

definition Pool_size :: "loop_pool \<Rightarrow> nat" where
  "Pool_size p = length (pool_loops p)"

text \<open>A number of consecutive requests to a supplier of loops, and to the pool.\<close>

primrec draw_loops :: "('p \<Rightarrow> (nat \<times> 'p) res) \<Rightarrow> nat \<Rightarrow> 'p \<Rightarrow> (nat list \<times> 'p) res" where
  "draw_loops next_loop 0 p = Inr ([], p)"
| "draw_loops next_loop (Suc n) p =
     bind_res (next_loop p) (\<lambda>(l, p1). bind_res (draw_loops next_loop n p1) (\<lambda>(ls, p2). Inr (l # ls, p2)))"

abbreviation getNextLoops :: "nat \<Rightarrow> nat \<Rightarrow> loop_pool \<Rightarrow> (nat list \<times> loop_pool) res" where
  "getNextLoops me \<equiv> draw_loops (getNextLoop me)"

text \<open>The loops that may be handed out.\<close>

definition pool_avail :: "loop_pool \<Rightarrow> nat set" where
  "pool_avail p = (if pool_loops p = [] then {baseLoop p} else set (pool_loops p))"

definition pool_inv :: "loop_pool \<Rightarrow> bool" where
  "pool_inv p \<longleftrightarrow> next_counter p < size_mod"

definition sample_pool :: loop_pool where
  "sample_pool = \<lparr>baseLoop = 1, base_tid = 0, numThreads = 2, pool_loops = [10, 11], next_counter = 5,
     pool_started = True\<rparr>"

section \<open>Lemmas\<close>

lemma start_threads_loops:
  "start_threads mk i n p = p\<lparr>pool_loops := pool_loops p @ map mk [i..<i + n]\<rparr>"
proof (induction n arbitrary: i p)
  case 0
  then show ?case by simp
next
  case (Suc n)
  have "[i..<i + Suc n] = i # [Suc i..<Suc i + n]"
    by (simp add: upt_rec)
  with Suc.IH show ?case by simp
qed

lemma getNextLoop_ok:
  assumes "me = base_tid p" and "pool_started p" and "pool_loops p \<noteq> []"
  shows "getNextLoop me p = Inr (pool_loops p ! (next_counter p mod length (pool_loops p)),
           p\<lparr>next_counter := size_add (next_counter p) 1\<rparr>)"
  using assms by (simp add: getNextLoop_def pool_assertInLoopThread_def)

lemma getNextLoops_list:
  assumes "me = base_tid p" and "pool_started p" and "pool_loops p \<noteq> []" and "next_counter p + n < size_mod"
  shows "getNextLoops me n p =
    Inr (map (\<lambda>i. pool_loops p ! ((next_counter p + i) mod length (pool_loops p))) [0..<n],
         p\<lparr>next_counter := next_counter p + n\<rparr>)"
  using assms
proof (induction n arbitrary: p)
  case 0
  then show ?case by simp
next
  case (Suc n)
  let ?p1 = "p\<lparr>next_counter := next_counter p + 1\<rparr>"
  have one: "getNextLoop me p = Inr (pool_loops p ! (next_counter p mod length (pool_loops p)), ?p1)"
    using Suc.prems getNextLoop_ok [of me p] by (simp add: size_simps)
  have "[0..<Suc n] = 0 # map Suc [0..<n]"
    by (simp add: upt_conv_Cons map_Suc_upt del: upt_Suc)
  with one Suc.IH [of ?p1] Suc.prems show ?case
    by (simp del: upt_Suc add: comp_def)
qed

lemma round_is_rotation:
  assumes "xs \<noteq> []"
  shows "map (\<lambda>i. xs ! ((s + i) mod length xs)) [0..<length xs] = rotate s xs"
  using assms by (intro nth_equalityI) (simp_all add: nth_rotate add.commute)

lemma mset_rotation: "mset (rotate s xs) = mset xs"
proof -
  have "mset (rotate s xs) = mset (drop (s mod length xs) xs) + mset (take (s mod length xs) xs)"
    by (simp add: rotate_drop_take)
  also have "\<dots> = mset (take (s mod length xs) xs @ drop (s mod length xs) xs)"
    by (simp add: union_commute del: append_take_drop_id)
  finally show ?thesis by simp
qed

lemma rounds_mset:
  assumes "xs \<noteq> []"
  shows "mset (map (\<lambda>i. xs ! ((s + i) mod length xs)) [0..<q * length xs]) = repeat_mset q (mset xs)"
proof (induction q arbitrary: s)
  case 0
  then show ?case by simp
next
  case (Suc q)
  let ?n = "length xs" and ?f = "\<lambda>i. xs ! ((s + i) mod length xs)"
  have "[0..<Suc q * ?n] = [0..<?n] @ map (\<lambda>i. i + ?n) [0..<q * ?n]"
    using upt_add_eq_append [of 0 ?n "q * ?n"] by (simp add: map_add_upt add.commute)
  then have "mset (map ?f [0..<Suc q * ?n])
      = mset (map ?f [0..<?n]) + mset (map (\<lambda>i. xs ! (((s + ?n) + i) mod ?n)) [0..<q * ?n])"
    by (simp add: comp_def ac_simps del: mult_Suc)
  also have "mset (map ?f [0..<?n]) = mset xs"
    using round_is_rotation [OF assms, of s] by (simp only: mset_rotation)
  finally show ?case
    using Suc.IH [of "s + ?n"] by simp
qed

lemma getNextLoop_avail:
  assumes "getNextLoop me p = Inr (l, p')"
  shows "l \<in> pool_avail p \<and> pool_avail p' = pool_avail p \<and> base_tid p' = base_tid p"
proof (cases "pool_loops p = []")
  case True
  with assms show ?thesis
    by (auto simp: getNextLoop_def pool_avail_def res_simps)
next
  case False
  then have "next_counter p mod length (pool_loops p) < length (pool_loops p)"
    by simp
  with False assms show ?thesis
    by (auto simp: getNextLoop_def pool_avail_def res_simps Let_def)
qed


section \<open>What the server relies on\<close>

text \<open>
  The contract of a supplier of loops: it hands out one of a fixed set of loops and keeps that set.
\<close>

locale loop_supply =
  fixes next_loop :: "'p \<Rightarrow> (nat \<times> 'p) res"
    and avail :: "'p \<Rightarrow> nat set"
  assumes next_avail: "next_loop p = Inr (l, p') \<Longrightarrow> l \<in> avail p \<and> avail p' = avail p"
begin

lemma draw_avail:
  "draw_loops next_loop n p = Inr (ls, p') \<Longrightarrow> set ls \<subseteq> avail p \<and> avail p' = avail p \<and> length ls = n"
proof (induction n arbitrary: p ls)
  case 0
  then show ?case by simp
next
  case (Suc n)
  then obtain l p1 ls1 where *: "next_loop p = Inr (l, p1)" "draw_loops next_loop n p1 = Inr (ls1, p')" "ls = l # ls1"
    by (auto simp: res_simps split: prod.splits)
  with Suc.IH [OF *(2)] next_avail [OF *(1)] show ?case by auto
qed

end

interpretation pool: loop_supply "getNextLoop me" pool_avail
  by unfold_locales (use getNextLoop_avail in blast)

section \<open>Properties\<close>

text \<open>Round robin: starting from any counter value, a multiple \<open>q\<close> of the pool size of consecutive calls of
  \<^verbatim>\<open>getNextLoop\<close> gives every worker loop exactly \<open>q\<close> connections, as long as the 64-bit counter does
  not wrap in between.\<close>

theorem getNextLoop_fair:
  assumes "me = base_tid p" and "pool_started p" and "pool_loops p \<noteq> []"
    and "next_counter p + q * length (pool_loops p) < size_mod"
  shows "\<exists>ls p'. getNextLoops me (q * length (pool_loops p)) p = Inr (ls, p')
           \<and> mset ls = repeat_mset q (mset (pool_loops p)) \<and> pool_loops p' = pool_loops p"
  using getNextLoops_list [OF assms] rounds_mset [OF assms(3), of "next_counter p" q] by simp

theorem getNextLoop_fair_witness:
  "\<exists>ls p'. getNextLoops 0 4 sample_pool = Inr (ls, p') \<and> mset ls = {#11, 11, 10, 10#}"
proof -
  have "2 * length (pool_loops sample_pool) = 4"
    by (simp add: sample_pool_def)
  with getNextLoop_fair [of 0 sample_pool 2]
  have "\<exists>ls p'. getNextLoops 0 4 sample_pool = Inr (ls, p') \<and> mset ls = repeat_mset 2 (mset [10, 11])"
    by (simp add: sample_pool_def del: draw_loops.simps) blast
  then show ?thesis by (simp add: numeral_2_eq_2)
qed

text \<open>At the wrap of the counter the rotation breaks unless the pool size divides \<open>2 ^ 64\<close>: with three
  workers two consecutive connections go to the same one.\<close>

theorem getNextLoop_wrap:
  "\<exists>p p1 p2. pool_inv p \<and> pool_started p \<and> distinct (pool_loops p) \<and> length (pool_loops p) = 3
     \<and> getNextLoop 0 p = Inr (l, p1) \<and> getNextLoop 0 p1 = Inr (l, p2)"
proof -
  let ?p = "\<lparr>baseLoop = 0, base_tid = 0, numThreads = 3, pool_loops = [l, Suc l, Suc (Suc l)],
      next_counter = 18446744073709551615, pool_started = True\<rparr>"
  have "getNextLoop 0 ?p = Inr (l, ?p\<lparr>next_counter := 0\<rparr>)"
    by (simp add: getNextLoop_def pool_assertInLoopThread_def size_add_def)
  moreover have "getNextLoop 0 (?p\<lparr>next_counter := 0\<rparr>) = Inr (l, ?p\<lparr>next_counter := 1\<rparr>)"
    by (simp add: getNextLoop_def pool_assertInLoopThread_def size_add_def)
  ultimately show ?thesis
    by (intro exI [of _ ?p] exI [of _ "?p\<lparr>next_counter := 0\<rparr>"] exI [of _ "?p\<lparr>next_counter := 1\<rparr>"])
       (simp add: pool_inv_def)
qed

text \<open>\<^verbatim>\<open>start\<close> runs once, on the base loop's thread only, and creates exactly the requested workers in order;
  afterwards \<^verbatim>\<open>getLoop\<close> is defined for every index and null exactly beyond the last worker, and without
  workers every request gets the base loop.\<close>

theorem pool_start_behaviour:
  assumes "EventLoopThreadPool_ctor (Some b) tid n = Inr p" and "Pool_start mk tid p = Inr p'"
  shows "pool_loops p' = map mk [0..<n] \<and> Pool_size p' = n \<and> pool_started p' \<and> Pool_start mk tid p' = Inl AssertFailed
    \<and> getLoop tid p' i = Inr (if n = 0 then Some b else if i < n then Some (mk i) else None)
    \<and> (me \<noteq> tid \<longrightarrow> getLoop me p' i = Inl Aborted \<and> getNextLoop me p' = Inl Aborted)"
proof -
  have p: "p = \<lparr>baseLoop = b, base_tid = tid, numThreads = n, pool_loops = [], next_counter = 0, pool_started = False\<rparr>"
    using assms(1) by (simp add: EventLoopThreadPool_ctor_def)
  have p': "p' = p\<lparr>pool_started := True, pool_loops := map mk [0..<n]\<rparr>"
    using assms(2) by (cases "n = 0") (auto simp: p Pool_start_def pool_assertInLoopThread_def start_threads_loops)
  show ?thesis
    by (simp add: p p' Pool_start_def pool_assertInLoopThread_def Pool_size_def getLoop_def getNextLoop_def)
qed

theorem pool_start_behaviour_witness:
  "\<exists>p p'. EventLoopThreadPool_ctor (Some 1) 0 2 = Inr p \<and> Pool_start (\<lambda>i. i + 10) 0 p = Inr p'
     \<and> getLoop 0 p' 1 = Inr (Some 11) \<and> getLoop 0 p' 2 = Inr None"
proof -
  obtain p where p: "EventLoopThreadPool_ctor (Some 1) 0 2 = Inr p"
    by (simp add: EventLoopThreadPool_ctor_def)
  then obtain p' where p': "Pool_start (\<lambda>i. i + 10) 0 p = Inr p'"
    by (auto simp: EventLoopThreadPool_ctor_def Pool_start_def pool_assertInLoopThread_def)
  from p p' pool_start_behaviour [OF p p', of 1 1] pool_start_behaviour [OF p p', of 2 1] show ?thesis by auto
qed

end
