(* ===== verification/TcpServer.thy ===== *)
theory TcpServer
  imports TcpConnection Acceptor EventLoopThreadPool
begin

text \<open>
  The server: \<^verbatim>\<open>include/hayai/net/TcpServer.h\<close> and \<^verbatim>\<open>src/net/TcpServer.cc\<close>. Connection objects live in a heap
  addressed by numbers; the server's map, and functors pending on loops, hold the references that
  keep them alive. An operation yields the new state and its outcome, since an exception keeps what
  was done before it.
\<close>

section \<open>State\<close>

text \<open>Functors on loops: listen, stop, establish, remove from the map, destroy.\<close>

datatype server_task = SListen | SStop | SEstablish nat | SRemove nat | SDestroy nat

fun task_conn :: "server_task \<Rightarrow> nat option" where
  "task_conn (SEstablish c) = Some c"
| "task_conn (SRemove c) = Some c"
| "task_conn (SDestroy c) = Some c"
| "task_conn _ = None"

text \<open>
  \<open>connections\<close> is the ordered map from names to connections, \<open>srv_queue\<close> the functors pending on
  each loop in the order they were queued, \<open>srv_batch\<close> those the loops have swapped out and still have to
  run in this round, \<open>srv_held\<close> those that ran in this round and are destroyed when it ends, \<open>srv_users\<close>
  the pointers to connections that user code holds, \<open>srv_log\<close> every functor ever queued, \<open>srv_calls\<close> the
  system calls made.
\<close>

record server =
  srv_loop :: nat
  srv_tid :: nat
  srv_name :: string
  srv_acceptor :: "acceptor option"
  threadPool :: loop_pool
  connections :: "(string \<times> nat) list"
  nextConnId :: int
  srv_started :: bool
  srv_conns :: "nat \<Rightarrow> conn_world option"
  srv_next :: nat
  srv_queue :: "(nat \<times> server_task) list"
  srv_batch :: "(nat \<times> server_task) list"
  srv_held :: "(nat \<times> server_task) list"
  srv_users :: "nat list"
  srv_log :: "server_task list"
  srv_calls :: "syscall list"

type_synonym 's outcome = "'s \<times> unit res"

definition then_do :: "'s outcome \<Rightarrow> ('s \<Rightarrow> 's outcome) \<Rightarrow> 's outcome" where
  "then_do m f = (case m of (s, Inl e) \<Rightarrow> (s, Inl e) | (s, Inr _) \<Rightarrow> f s)"

primrec do_times :: "nat \<Rightarrow> ('s \<Rightarrow> 's outcome) \<Rightarrow> 's \<Rightarrow> 's outcome" where
  "do_times 0 f s = (s, Inr ())"
| "do_times (Suc n) f s = then_do (f s) (do_times n f)"

fun do_each :: "('a \<Rightarrow> 's \<Rightarrow> 's outcome) \<Rightarrow> 'a list \<Rightarrow> 's \<Rightarrow> 's outcome" where
  "do_each f [] s = (s, Inr ())"
| "do_each f (x # xs) s = then_do (f x s) (do_each f xs)"

text \<open>\<^verbatim>\<open>std::map\<close> with string keys: assignment through \<^verbatim>\<open>operator[]\<close> and \<^verbatim>\<open>erase\<close> with its count.\<close>

fun str_less :: "string \<Rightarrow> string \<Rightarrow> bool" where
  "str_less xs [] = False"
| "str_less [] (y # ys) = True"
| "str_less (x # xs) (y # ys) = ((of_char x :: nat) < of_char y \<or> x = y \<and> str_less xs ys)"

fun map_assign :: "string \<Rightarrow> 'v \<Rightarrow> (string \<times> 'v) list \<Rightarrow> (string \<times> 'v) list" where
  "map_assign k v [] = [(k, v)]"
| "map_assign k v ((k', v') # m) =
     (if k = k' then (k, v) # m
      else if str_less k k' then (k, v) # (k', v') # m
      else (k', v') # map_assign k v m)"

definition map_erase :: "string \<Rightarrow> (string \<times> 'v) list \<Rightarrow> nat \<times> (string \<times> 'v) list" where
  "map_erase k m = (length (filter (\<lambda>e. fst e = k) m), filter (\<lambda>e. fst e \<noteq> k) m)"

section \<open>Operations\<close>

definition fmt_int :: "int \<Rightarrow> string" where
  "fmt_int i = (if i < 0 then ''-'' @ dec (nat (- i)) else dec (nat i))"

definition conn_key :: "string \<Rightarrow> int \<Rightarrow> string" where
  "conn_key name i = name @ ''#'' @ fmt_int i"

definition int_max :: int where
  "int_max = 2147483647"

definition queue_task :: "nat \<Rightarrow> server_task \<Rightarrow> server \<Rightarrow> server" where
  "queue_task l t s = s\<lparr>srv_queue := srv_queue s @ [(l, t)], srv_log := srv_log s @ [t]\<rparr>"

definition add_calls :: "syscall list \<Rightarrow> server \<Rightarrow> server" where
  "add_calls cs s = s\<lparr>srv_calls := srv_calls s @ cs\<rparr>"

definition put_conn :: "nat \<Rightarrow> conn_world option \<Rightarrow> server \<Rightarrow> server" where
  "put_conn c w s = s\<lparr>srv_conns := (srv_conns s)(c := w)\<rparr>"

definition removeConnectionInLoop :: "nat \<Rightarrow> nat \<Rightarrow> server \<Rightarrow> server outcome" where
  "removeConnectionInLoop me c s =
     (if me \<noteq> srv_tid s then (s, Inl Aborted)
      else case srv_conns s c of
          None \<Rightarrow> (s, Inl UseAfterFree)
        | Some w \<Rightarrow>
            let (n, m) = map_erase (conn_name (conn w)) (connections s); s1 = s\<lparr>connections := m\<rparr> in
            if n = 0 then (s1, Inr ())
            else (queue_task (conn_loop (conn w)) (SDestroy c) (put_conn c (Some (emit (Queued DestroyTask) w)) s1), Inr ()))"

definition removeConnection :: "nat \<Rightarrow> nat \<Rightarrow> server \<Rightarrow> server outcome" where
  "removeConnection me c s =
     (if me = srv_tid s then removeConnectionInLoop me c s else (queue_task (srv_loop s) (SRemove c) s, Inr ()))"

text \<open>
  An operation on connection \<open>c\<close>. The close callback the server installs marks the trace of the
  connection; for every mark the operation left, \<^verbatim>\<open>removeConnection\<close> runs on the same thread, after the
  operation instead of inside it. What comes between the mark and the end of the operation works on
  the connection alone, and \<^verbatim>\<open>removeConnection\<close> reads of the connection only its name and loop, which never
  change, so its effect on the map and the queues is that of the call; only its mark
  \<open>Queued DestroyTask\<close> comes later in the connection's trace.
\<close>

definition server_cbs :: "conn_cbs \<Rightarrow> conn_cbs" where
  "server_cbs ucb =
     setCloseCallback (Some Inr) (setWriteCompleteCallback (writeCompleteCb ucb)
       (setMessageCallback (messageCb ucb) (setConnectionCallback (connectionCb ucb) no_cbs)))"

lemma server_cbs_eq: "server_cbs ucb = ucb\<lparr>closeCb := Some Inr\<rparr>"
  by (simp add: server_cbs_def setCloseCallback_def setWriteCompleteCallback_def setMessageCallback_def
      setConnectionCallback_def no_cbs_def)

definition new_closes :: "conn_world \<Rightarrow> conn_world \<Rightarrow> nat" where
  "new_closes w w' = length (filter (\<lambda>e. e = CbClose) (drop (length (trace w)) (trace w')))"

definition run_conn :: "nat \<Rightarrow> (conn_world \<Rightarrow> conn_world res) \<Rightarrow> nat \<Rightarrow> server \<Rightarrow> server outcome" where
  "run_conn me f c s =
     (case srv_conns s c of
        None \<Rightarrow> (s, Inl UseAfterFree)
      | Some w \<Rightarrow> (case f w of
            Inl e \<Rightarrow> (s, Inl e)
          | Inr w' \<Rightarrow> do_times (new_closes w w') (removeConnection me c) (put_conn c (Some w') s)))"

definition establish :: "conn_cbs \<Rightarrow> nat \<Rightarrow> nat \<Rightarrow> server \<Rightarrow> server outcome" where
  "establish ucb me c s = run_conn me (connectEstablished (server_cbs ucb) c me) c s"

definition newConnection :: "(nat \<Rightarrow> nat) \<Rightarrow> conn_cbs \<Rightarrow> kernel \<Rightarrow> nat \<Rightarrow> int \<Rightarrow> sockaddr_in \<Rightarrow> server \<Rightarrow> server outcome" where
  "newConnection tid_of ucb k me fd peer s =
     (if me \<noteq> srv_tid s then (s, Inl Aborted)
      else case getNextLoop me (threadPool s) of
          Inl e \<Rightarrow> (s, Inl e)
        | Inr (ioLoop, p) \<Rightarrow>
            let s1 = s\<lparr>threadPool := p\<rparr> in
            if int_max \<le> nextConnId s1 then (s1, Inl SignedOverflow)
            else
              let connName = conn_key (srv_name s1) (nextConnId s1);
                  (cs, r) = getLocalAddr k fd;
                  s2 = add_calls cs (s1\<lparr>nextConnId := nextConnId s1 + 1\<rparr>) in
              case r of
                Inl e \<Rightarrow> (s2, Inl e)
              | Inr laddr \<Rightarrow>
                  let c = srv_next s2;
                      w = \<lparr>conn = TcpConnection_ctor ioLoop (tid_of ioLoop) connName fd laddr peer, trace = []\<rparr>;
                      s3 = put_conn c (Some w)
                        (s2\<lparr>srv_next := Suc c, connections := map_assign connName c (connections s2)\<rparr>) in
                  if me = tid_of ioLoop then establish ucb me c s3
                  else (queue_task ioLoop (SEstablish c) s3, Inr ()))"

text \<open>
  A connection object is destroyed when the last reference to it goes: the map, functors that are
  pending, swapped out or run but not yet destroyed, and pointers of the user.
\<close>

definition referenced :: "nat \<Rightarrow> server \<Rightarrow> bool" where
  "referenced c s \<longleftrightarrow> c \<in> snd ` set (connections s) \<or> c \<in> set (srv_users s) \<or>
     (\<exists>(l, t) \<in> set (srv_queue s @ srv_batch s @ srv_held s). task_conn t = Some c)"

definition release :: "nat \<Rightarrow> server \<Rightarrow> server outcome" where
  "release c s =
     (if referenced c s then (s, Inr ())
      else case srv_conns s c of
          None \<Rightarrow> (s, Inr ())
        | Some w \<Rightarrow> (case TcpConnection_dtor (conn w) of
              Inl e \<Rightarrow> (s, Inl e)
            | Inr cs \<Rightarrow> (add_calls cs (put_conn c None s), Inr ())))"

definition reset_acceptor :: "server \<Rightarrow> server outcome" where
  "reset_acceptor s =
     (case srv_acceptor s of
        None \<Rightarrow> (s, Inr ())
      | Some a \<Rightarrow> (case Acceptor_dtor a of
            Inl e \<Rightarrow> (s, Inl e)
          | Inr cs \<Rightarrow> (add_calls cs (s\<lparr>srv_acceptor := None\<rparr>), Inr ())))"

definition stop_in_loop :: "nat \<Rightarrow> server \<Rightarrow> server outcome" where
  "stop_in_loop me s =
     then_do (reset_acceptor s)
       (\<lambda>s1. do_each (\<lambda>c. run_conn me (shutdown me) c) (map snd (connections s1)) s1)"

definition listen_in_loop :: "kernel \<Rightarrow> nat \<Rightarrow> server \<Rightarrow> server outcome" where
  "listen_in_loop k me s =
     (case srv_acceptor s of
        None \<Rightarrow> (s, Inl NullDeref)
      | Some a \<Rightarrow> (case Acceptor_listen k me a of (cs, a', r) \<Rightarrow> (add_calls cs (s\<lparr>srv_acceptor := Some a'\<rparr>), r)))"

definition TcpServer_stop :: "nat \<Rightarrow> server \<Rightarrow> server outcome" where
  "TcpServer_stop me s =
     (let s1 = s\<lparr>srv_started := False\<rparr> in
      if me = srv_tid s1 then stop_in_loop me s1 else (queue_task (srv_loop s1) SStop s1, Inr ()))"

definition TcpServer_start :: "(nat \<Rightarrow> nat) \<Rightarrow> kernel \<Rightarrow> nat \<Rightarrow> server \<Rightarrow> server outcome" where
  "TcpServer_start mk k me s =
     (if srv_started s then (s, Inr ())
      else let s1 = s\<lparr>srv_started := True\<rparr> in
        case Pool_start mk me (threadPool s1) of
          Inl e \<Rightarrow> (s1, Inl e)
        | Inr p \<Rightarrow>
            let s2 = s1\<lparr>threadPool := p\<rparr> in
            if me = srv_tid s2 then listen_in_loop k me s2 else (queue_task (srv_loop s2) SListen s2, Inr ()))"

definition setIoLoopNum :: "nat \<Rightarrow> server \<Rightarrow> server outcome" where
  "setIoLoopNum n s =
     (if srv_started s then (s, Inl AssertFailed)
      else case EventLoopThreadPool_ctor (Some (srv_loop s)) (srv_tid s) n of
          Inl e \<Rightarrow> (s, Inl e)
        | Inr p \<Rightarrow> (s\<lparr>threadPool := p\<rparr>, Inr ()))"

definition TcpServer_ctor :: "kernel \<Rightarrow> nat option \<Rightarrow> nat \<Rightarrow> sockaddr_in \<Rightarrow> string \<Rightarrow> server sys" where
  "TcpServer_ctor k lp tid addr name =
     bind_sys (Acceptor_ctor k (case lp of Some l \<Rightarrow> l | None \<Rightarrow> 0) tid addr True)
       (\<lambda>a. ([], bind_res (EventLoopThreadPool_ctor lp tid 0)
         (\<lambda>p. bind_res (check (lp \<noteq> None) AssertFailed)
           (\<lambda>_. Inr \<lparr>srv_loop = the lp, srv_tid = tid, srv_name = name, srv_acceptor = Some a, threadPool = p,
                     connections = [], nextConnId = 1, srv_started = False, srv_conns = (\<lambda>_. None), srv_next = 0,
                     srv_queue = [], srv_batch = [], srv_held = [], srv_users = [], srv_log = [], srv_calls = []\<rparr>))))"

text \<open>
  The destructor destroys every connection on the calling thread, then the map goes, which may
  release the connections, and the acceptor.
\<close>

definition TcpServer_dtor :: "conn_cbs \<Rightarrow> nat \<Rightarrow> server \<Rightarrow> server outcome" where
  "TcpServer_dtor ucb me s =
     then_do (do_each (\<lambda>c. run_conn me (connectDestroyed (server_cbs ucb) me) c) (map snd (connections s)) s)
       (\<lambda>s1. then_do (do_each release (map snd (connections s1)) (s1\<lparr>connections := []\<rparr>)) reset_acceptor)"

text \<open>
  \<^verbatim>\<open>doPendingFunctors\<close> of a loop, seen from the server: the swap, one functor run on thread \<open>me\<close>, and the
  end, when the swapped vector is destroyed and the references its functors held go.
\<close>

definition swap_functors :: "nat \<Rightarrow> server \<Rightarrow> server" where
  "swap_functors l s =
     s\<lparr>srv_batch := srv_batch s @ filter (\<lambda>e. fst e = l) (srv_queue s),
       srv_queue := filter (\<lambda>e. fst e \<noteq> l) (srv_queue s)\<rparr>"

fun run_server_task :: "conn_cbs \<Rightarrow> write_fun \<Rightarrow> kernel \<Rightarrow> nat \<Rightarrow> server_task \<Rightarrow> server \<Rightarrow> server outcome" where
  "run_server_task ucb wr k me SListen s = listen_in_loop k me s"
| "run_server_task ucb wr k me SStop s = stop_in_loop me s"
| "run_server_task ucb wr k me (SEstablish c) s = establish ucb me c s"
| "run_server_task ucb wr k me (SRemove c) s = removeConnectionInLoop me c s"
| "run_server_task ucb wr k me (SDestroy c) s = run_conn me (run_task (server_cbs ucb) wr me DestroyTask) c s"

definition end_round :: "nat \<Rightarrow> server \<Rightarrow> server outcome" where
  "end_round l s =
     do_each release (List.map_filter (task_conn \<circ> snd) (filter (\<lambda>e. fst e = l) (srv_held s)))
       (s\<lparr>srv_held := filter (\<lambda>e. fst e \<noteq> l) (srv_held s)\<rparr>)"

text \<open>User code keeps a copy of a connection's pointer, and drops one.\<close>

definition user_hold :: "nat \<Rightarrow> server \<Rightarrow> server" where
  "user_hold c s = s\<lparr>srv_users := c # srv_users s\<rparr>"

definition user_drop :: "nat \<Rightarrow> server \<Rightarrow> server outcome" where
  "user_drop c s = release c (s\<lparr>srv_users := remove1 c (srv_users s)\<rparr>)"

text \<open>
  The acceptor's channel becomes readable: what its handler hands to the callback, which the server
  installed, goes to \<^verbatim>\<open>newConnection\<close>.
\<close>

definition accept_ready :: "(nat \<Rightarrow> nat) \<Rightarrow> conn_cbs \<Rightarrow> kernel \<Rightarrow> nat \<Rightarrow> server \<Rightarrow> server outcome" where
  "accept_ready tid_of ucb k me s =
     (case srv_acceptor s of
        None \<Rightarrow> (s, Inl NullDeref)
      | Some a \<Rightarrow>
          (case Acceptor_handleRead k me (Some (\<lambda>fd peer l. ([], Inr (l @ [(fd, peer)])))) a [] of
             (cs, Inl e) \<Rightarrow> (add_calls cs s, Inl e)
           | (cs, Inr accepted) \<Rightarrow>
               do_each (\<lambda>(fd, peer). newConnection tid_of ucb k me fd peer) accepted (add_calls cs s)))"

text \<open>
  The callbacks a user sets on the server, to be copied to every new connection, and the getters.
\<close>

definition TcpServer_setConnectionCallback :: "(conn_world \<Rightarrow> conn_world res) option \<Rightarrow> conn_cbs \<Rightarrow> conn_cbs" where
  "TcpServer_setConnectionCallback cb ucb = ucb\<lparr>connectionCb := cb\<rparr>"

definition TcpServer_setMessageCallback :: "(conn_world \<Rightarrow> conn_world res) option \<Rightarrow> conn_cbs \<Rightarrow> conn_cbs" where
  "TcpServer_setMessageCallback cb ucb = ucb\<lparr>messageCb := cb\<rparr>"

definition TcpServer_setWriteCompleteCallback :: "(conn_world \<Rightarrow> conn_world res) option \<Rightarrow> conn_cbs \<Rightarrow> conn_cbs" where
  "TcpServer_setWriteCompleteCallback cb ucb = ucb\<lparr>writeCompleteCb := cb\<rparr>"

definition TcpServer_name :: "server \<Rightarrow> string" where
  "TcpServer_name s = srv_name s"

definition TcpServer_getLoop :: "server \<Rightarrow> nat" where
  "TcpServer_getLoop s = srv_loop s"

definition TcpServer_started :: "server \<Rightarrow> bool" where
  "TcpServer_started s = srv_started s"

section \<open>Runs of a server\<close>

definition server_start :: "(nat \<Rightarrow> nat) \<Rightarrow> server \<Rightarrow> bool" where
  "server_start tid_of s \<longleftrightarrow>
     (\<exists>k lp addr name cs. TcpServer_ctor k (Some lp) (tid_of lp) addr name = (cs, Inr s))"

text \<open>
  Steps that return: the owner's calls, a readable listening socket, events and functors of a
  connection on its own loop's thread, copying a pointer to a connection that exists, calls through
  such a pointer from any thread, dropping it; and what loops do with their functors: a loop whose
  last round is over swaps them out, runs them in order, and ends the round when all have run.
  \<open>ucb\<close> are the callbacks the user installed.
\<close>

inductive server_step :: "(nat \<Rightarrow> nat) \<Rightarrow> server \<Rightarrow> server \<Rightarrow> bool" for tid_of where
  srv_start: "TcpServer_start mk k me s = (s', Inr ()) \<Longrightarrow> server_step tid_of s s'"
| srv_stop: "TcpServer_stop me s = (s', Inr ()) \<Longrightarrow> server_step tid_of s s'"
| srv_loops: "setIoLoopNum n s = (s', Inr ()) \<Longrightarrow> server_step tid_of s s'"
| srv_accept: "cbs_ok ucb \<Longrightarrow> accept_ready tid_of ucb k me s = (s', Inr ()) \<Longrightarrow> server_step tid_of s s'"
| srv_swap: "l \<notin> fst ` set (srv_batch s @ srv_held s) \<Longrightarrow> server_step tid_of s (swap_functors l s)"
| srv_task: "cbs_ok ucb \<Longrightarrow> write_documented wr \<Longrightarrow> srv_batch s = b1 @ (l, t) # b2 \<Longrightarrow> l \<notin> fst ` set b1 \<Longrightarrow>
    run_server_task ucb wr k (tid_of l) t (s\<lparr>srv_batch := b1 @ b2, srv_held := srv_held s @ [(l, t)]\<rparr>) = (s', Inr ()) \<Longrightarrow>
    server_step tid_of s s'"
| srv_round: "l \<notin> fst ` set (srv_batch s) \<Longrightarrow> end_round l s = (s', Inr ()) \<Longrightarrow> server_step tid_of s s'"
| srv_hold: "srv_conns s c \<noteq> None \<Longrightarrow> server_step tid_of s (user_hold c s)"
| srv_drop: "c \<in> set (srv_users s) \<Longrightarrow> user_drop c s = (s', Inr ()) \<Longrightarrow> server_step tid_of s s'"
| srv_conn_event: "cbs_ok ucb \<Longrightarrow> write_documented wr \<Longrightarrow> readv_documented readv \<Longrightarrow>
    run_conn me (handle_event (server_cbs ucb) wr readv alive me r) c s = (s', Inr ()) \<Longrightarrow> server_step tid_of s s'"
| srv_conn_task: "cbs_ok ucb \<Longrightarrow> write_documented wr \<Longrightarrow> task_ok t \<Longrightarrow> t \<noteq> DestroyTask \<Longrightarrow>
    srv_conns s c = Some w \<Longrightarrow> Queued t \<in> set (trace w) \<Longrightarrow>
    run_conn me (run_task (server_cbs ucb) wr me t) c s = (s', Inr ()) \<Longrightarrow> server_step tid_of s s'"
| srv_conn_api: "api_fun f \<Longrightarrow> c \<in> set (srv_users s) \<Longrightarrow> run_conn me f c s = (s', Inr ()) \<Longrightarrow> server_step tid_of s s'"

section \<open>Invariant\<close>

definition live :: "server \<Rightarrow> nat set" where
  "live s = snd ` set (connections s)"

definition destroys :: "server \<Rightarrow> nat \<Rightarrow> nat" where
  "destroys s c = count_list (srv_log s) (SDestroy c)"

text \<open>Every object of the heap is a connection that ran by the rules, on its own loop, under a name of its own.\<close>

definition heap_ok :: "(nat \<Rightarrow> nat) \<Rightarrow> server \<Rightarrow> bool" where
  "heap_ok tid_of s \<longleftrightarrow>
     (\<forall>c w. srv_conns s c = Some w \<longrightarrow>
        c < srv_next s \<and> reachable conn_start conn_step w \<and> conn_thread (conn w) = tid_of (conn_loop (conn w)) \<and>
        (\<exists>i. 0 < i \<and> i < nextConnId s \<and> conn_name (conn w) = conn_key (srv_name s) i) \<and>
        (\<forall>c' w'. srv_conns s c' = Some w' \<longrightarrow> conn_name (conn w') = conn_name (conn w) \<longrightarrow> c' = c))"

definition map_ok :: "server \<Rightarrow> bool" where
  "map_ok s \<longleftrightarrow> 0 < nextConnId s \<and> distinct (map fst (connections s)) \<and>
     (\<forall>(k, c) \<in> set (connections s). \<exists>w. srv_conns s c = Some w \<and> conn_name (conn w) = k)"

text \<open>
  The destruction of a connection is queued once, when it leaves the map; one that left the map (and
  is not in \<open>X\<close>) is disconnected or about to be destroyed, unless a thread overwrote its state late.
\<close>

definition destroy_ok :: "nat set \<Rightarrow> server \<Rightarrow> bool" where
  "destroy_ok X s \<longleftrightarrow>
     snd ` set (srv_queue s @ srv_batch s) \<subseteq> set (srv_log s) \<and>
     (\<forall>c. destroys s c = (if c \<in> live s \<or> srv_next s \<le> c then 0 else 1)) \<and>
     (\<forall>c w. srv_conns s c = Some w \<longrightarrow>
        (destroys s c \<noteq> 0 \<longrightarrow> Queued DestroyTask \<in> set (trace w)) \<and>
        (c \<notin> X \<longrightarrow> c \<notin> live s \<longrightarrow> conn_state (conn w) = Disconnected \<or> \<not> no_late (trace w)
           \<or> SDestroy c \<in> snd ` set (srv_queue s @ srv_batch s)))"

text \<open>Every object that was not destroyed is still referenced.\<close>

definition ref_ok :: "server \<Rightarrow> bool" where
  "ref_ok s \<longleftrightarrow> (\<forall>c. srv_conns s c \<noteq> None \<longrightarrow> referenced c s)"

definition server_inv :: "(nat \<Rightarrow> nat) \<Rightarrow> nat set \<Rightarrow> server \<Rightarrow> bool" where
  "server_inv tid_of X s \<longleftrightarrow> heap_ok tid_of s \<and> map_ok s \<and> destroy_ok X s"

lemmas server_inv_defs = server_inv_def heap_ok_def map_ok_def destroy_ok_def live_def destroys_def

section \<open>Every operation keeps the invariant\<close>

lemma destroys_0:
  assumes "destroy_ok X s" and "c \<in> live s \<or> srv_next s \<le> c"
  shows "destroys s c = 0"
  using assms unfolding destroy_ok_def by presburger

lemma destroy_okD:
  assumes "destroy_ok X s"
  shows "snd ` set (srv_queue s @ srv_batch s) \<subseteq> set (srv_log s)"
    and "destroys s c = (if c \<in> live s \<or> srv_next s \<le> c then 0 else 1)"
    and "srv_conns s c = Some w \<Longrightarrow> destroys s c \<noteq> 0 \<Longrightarrow> Queued DestroyTask \<in> set (trace w)"
    and "srv_conns s c = Some w \<Longrightarrow> c \<notin> X \<Longrightarrow> c \<notin> live s \<Longrightarrow>
           conn_state (conn w) = Disconnected \<or> \<not> no_late (trace w) \<or> SDestroy c \<in> snd ` set (srv_queue s @ srv_batch s)"
  using assms unfolding destroy_ok_def by blast+

lemma heap_okD:
  assumes "heap_ok T s" and "srv_conns s c = Some w"
  shows "c < srv_next s" "reachable conn_start conn_step w" "conn_thread (conn w) = T (conn_loop (conn w))"
    "\<exists>i. 0 < i \<and> i < nextConnId s \<and> conn_name (conn w) = conn_key (srv_name s) i"
    "srv_conns s c' = Some w' \<Longrightarrow> conn_name (conn w') = conn_name (conn w) \<Longrightarrow> c' = c"
  using assms unfolding heap_ok_def by blast+

lemma map_okD: "map_ok s \<Longrightarrow> (k, c) \<in> set (connections s) \<Longrightarrow> \<exists>w. srv_conns s c = Some w \<and> conn_name (conn w) = k"
  unfolding map_ok_def by blast

lemma fmt_int_inject: "0 < i \<Longrightarrow> 0 < j \<Longrightarrow> fmt_int i = fmt_int j \<longleftrightarrow> i = j"
  by (auto simp: fmt_int_def nat_eq_iff)

lemma conn_key_inject: "0 < i \<Longrightarrow> 0 < j \<Longrightarrow> conn_key n i = conn_key n j \<longleftrightarrow> i = j"
  by (simp add: conn_key_def fmt_int_inject)

lemma set_map_assign: "k \<notin> fst ` set m \<Longrightarrow> set (map_assign k v m) = insert (k, v) (set m)"
  by (induction m rule: map_assign.induct) auto

lemma distinct_map_assign: "distinct (map fst m) \<Longrightarrow> k \<notin> fst ` set m \<Longrightarrow> distinct (map fst (map_assign k v m))"
proof (induction k v m rule: map_assign.induct)
  case (2 k v k' v' m)
  then show ?case
    using set_map_assign [of k m v] by (auto simp: image_iff)
qed simp

lemma then_do_ok: "then_do m f = (s', Inr u) \<Longrightarrow> \<exists>s1. m = (s1, Inr ()) \<and> f s1 = (s', Inr u)"
  by (auto simp: then_do_def split: prod.splits sum.splits)

lemma do_times_inv:
  assumes "\<And>s s'. P s \<Longrightarrow> f s = (s', Inr ()) \<Longrightarrow> P s'"
  shows "P s \<Longrightarrow> do_times n f s = (s', Inr ()) \<Longrightarrow> P s'"
  by (induction n arbitrary: s) (auto dest!: then_do_ok intro: assms)

lemma do_each_inv:
  assumes "\<And>x s s'. P s \<Longrightarrow> f x s = (s', Inr ()) \<Longrightarrow> P s'"
  shows "P s \<Longrightarrow> do_each f xs s = (s', Inr ()) \<Longrightarrow> P s'"
  by (induction xs arbitrary: s) (auto dest!: then_do_ok intro: assms)

text \<open>Fields the invariant does not look at.\<close>

lemma inv_frame [simp]:
  "server_inv T X (add_calls cs s) = server_inv T X s"
  "server_inv T X (s\<lparr>threadPool := p\<rparr>) = server_inv T X s"
  "server_inv T X (s\<lparr>srv_started := b\<rparr>) = server_inv T X s"
  "server_inv T X (s\<lparr>srv_acceptor := a\<rparr>) = server_inv T X s"
  "server_inv T X (s\<lparr>srv_held := h\<rparr>) = server_inv T X s"
  "server_inv T X (s\<lparr>srv_users := us\<rparr>) = server_inv T X s"
  by (simp_all add: server_inv_defs add_calls_def)

lemma ref_frame [simp]:
  "ref_ok (add_calls cs s) = ref_ok s"
  "ref_ok (s\<lparr>threadPool := p\<rparr>) = ref_ok s"
  "ref_ok (s\<lparr>srv_started := b\<rparr>) = ref_ok s"
  "ref_ok (s\<lparr>srv_acceptor := a\<rparr>) = ref_ok s"
  by (simp_all add: ref_ok_def referenced_def add_calls_def)

lemma step_forward:
  assumes "reachable conn_start conn_step w" and "conn_step w w'"
  shows "conn_name (conn w') = conn_name (conn w)" "conn_loop (conn w') = conn_loop (conn w)"
    "conn_thread (conn w') = conn_thread (conn w)" "conn_state (conn w) = Disconnected \<or> \<not> no_late (trace w) \<Longrightarrow> conn_state (conn w') = Disconnected \<or> \<not> no_late (trace w')"
    "set (trace w) \<subseteq> set (trace w')"
proof -
  have "conn_evolves w w'"
    using conn_step_ok [OF assms(2)] connection.reachable_inv [OF assms(1)] by (simp add: conn_ok_def)
  then show "conn_name (conn w') = conn_name (conn w)" "conn_loop (conn w') = conn_loop (conn w)"
    "conn_thread (conn w') = conn_thread (conn w)" "conn_state (conn w) = Disconnected \<or> \<not> no_late (trace w) \<Longrightarrow> conn_state (conn w') = Disconnected \<or> \<not> no_late (trace w')"
    "set (trace w) \<subseteq> set (trace w')"
    by (auto simp: conn_evolves_def state_follows_def order_antisym)
qed

lemma put_conn_inv:
  assumes inv: "server_inv T X s" and w: "srv_conns s c = Some w" and step: "conn_step w w'"
  shows "server_inv T X (put_conn c (Some w') s)"
proof -
  have r: "reachable conn_start conn_step w"
    using inv w by (simp add: server_inv_defs)
  note fwd = step_forward [OF r step]
  have h: "heap_ok T s" "map_ok s" "destroy_ok X s"
    using inv by (simp_all add: server_inv_def)
  have "heap_ok T (put_conn c (Some w') s)"
    using h(1) w fwd(1-3) reachable_step [OF r step] by (auto simp: heap_ok_def put_conn_def)
  moreover have "map_ok (put_conn c (Some w') s)"
    using h(2) w fwd(1) by (fastforce simp: map_ok_def put_conn_def)
  moreover have "destroy_ok X (put_conn c (Some w') s)"
  proof -
    have "conn_state (conn w') = Disconnected \<or> \<not> no_late (trace w') \<or> SDestroy c \<in> snd ` set (srv_queue s @ srv_batch s)"
      if "c \<notin> X" "c \<notin> live s"
      using h(3) w fwd(4) that unfolding destroy_ok_def by blast
    then show ?thesis
      using h(3) w fwd(5) by (auto simp: destroy_ok_def live_def destroys_def put_conn_def)
  qed
  ultimately show ?thesis by (simp add: server_inv_def)
qed

lemma queue_task_inv: "server_inv T X s \<Longrightarrow> (\<And>c. t \<noteq> SDestroy c) \<Longrightarrow> server_inv T X (queue_task l t s)"
  by (auto simp: server_inv_def heap_ok_def map_ok_def destroy_ok_def live_def destroys_def queue_task_def)

text \<open>The entry of a connection's name is the connection itself, so erasing by name removes it alone.\<close>

lemma entry_of_name:
  assumes "server_inv T X s" and "srv_conns s c = Some w" and "(conn_name (conn w), c') \<in> set (connections s)"
  shows "c' = c"
  using assms by (fastforce simp: server_inv_def heap_ok_def map_ok_def)

lemma erase_live:
  assumes inv: "server_inv T X s" and w: "srv_conns s c = Some w"
  shows "snd ` set (filter (\<lambda>e. fst e \<noteq> conn_name (conn w)) (connections s)) = live s - {c}"
proof
  show "snd ` set (filter (\<lambda>e. fst e \<noteq> conn_name (conn w)) (connections s)) \<subseteq> live s - {c}"
  proof (clarsimp simp: live_def)
    fix k c'
    assume kc: "(k, c') \<in> set (connections s)" "k \<noteq> conn_name (conn w)"
    then have "\<exists>w'. srv_conns s c' = Some w' \<and> conn_name (conn w') = k"
      using inv by (fastforce simp: server_inv_def map_ok_def)
    with kc w show "c' \<in> snd ` set (connections s) \<and> c' \<noteq> c"
      by force
  qed
  show "live s - {c} \<subseteq> snd ` set (filter (\<lambda>e. fst e \<noteq> conn_name (conn w)) (connections s))"
    using entry_of_name [OF inv w] by (force simp: live_def)
qed

text \<open>The state after a connection left the map: its destruction is queued, for the first time.\<close>

lemma erased_destroy_ok:
  assumes dst: "destroy_ok X s" and c: "c \<in> live s" "c < srv_next s" and lv: "live s' = live s - {c}"
    and q: "srv_queue s' = srv_queue s @ [(l, SDestroy c)]" "srv_batch s' = srv_batch s" "srv_log s' = srv_log s @ [SDestroy c]" "srv_next s' = srv_next s"
      "srv_conns s' = (srv_conns s)(c \<mapsto> emit (Queued DestroyTask) w)"
  shows "destroy_ok X s'"
proof -
  have d: "destroys s' e = (if e = c then 1 else destroys s e)" for e
    using destroys_0 [OF dst, of c] c by (simp add: destroys_def q)
  show ?thesis
    unfolding destroy_ok_def
  proof (intro conjI allI impI)
    show "snd ` set (srv_queue s' @ srv_batch s') \<subseteq> set (srv_log s')"
      using destroy_okD(1) [OF dst] by (auto simp: q)
    show "destroys s' e = (if e \<in> live s' \<or> srv_next s' \<le> e then 0 else 1)" for e
      using c(2) lv destroy_okD(2) [OF dst, of e] by (auto simp: d q split: if_splits)
  next
    fix e v assume e: "srv_conns s' e = Some v"
    show "Queued DestroyTask \<in> set (trace v)" if "destroys s' e \<noteq> 0"
      using e that destroy_okD(3) [OF dst, of e v] by (auto simp: q d split: if_splits)
    show "conn_state (conn v) = Disconnected \<or> \<not> no_late (trace v) \<or> SDestroy e \<in> snd ` set (srv_queue s' @ srv_batch s')"
      if "e \<notin> X" "e \<notin> live s'"
      using e that destroy_okD(4) [OF dst, of e v] by (cases "e = c") (auto simp: q lv)
  qed
qed

lemma removeConnectionInLoop_inv:
  assumes inv: "server_inv T X s" and ret: "removeConnectionInLoop me c s = (s', Inr ())"
  shows "server_inv T X s'"
proof -
  obtain w where w: "srv_conns s c = Some w"
    using ret by (auto simp: removeConnectionInLoop_def split: if_splits option.splits)
  let ?k = "conn_name (conn w)"
  let ?m = "filter (\<lambda>e. fst e \<noteq> ?k) (connections s)"
  show ?thesis
  proof (cases "filter (\<lambda>e. fst e = ?k) (connections s) = []")
    case True
    then have "?m = connections s"
      by (auto simp: filter_empty_conv filter_id_conv)
    then have "s' = s"
      using ret w True by (auto simp: removeConnectionInLoop_def map_erase_def split: if_splits)
    then show ?thesis using inv by simp
  next
    case False
    let ?w = "emit (Queued DestroyTask) w"
    have "conn_step w ?w"
      by (rule step_api [OF api_queue [of DestroyTask]]) simp_all
    then have inv1: "server_inv T X (put_conn c (Some ?w) s)"
      by (rule put_conn_inv [OF inv w])
    have s': "s' = queue_task (conn_loop (conn w)) (SDestroy c) (put_conn c (Some ?w) (s\<lparr>connections := ?m\<rparr>))"
      using ret w False by (auto simp: removeConnectionInLoop_def map_erase_def put_conn_def split: if_splits)
    have "c \<in> live s"
      using False entry_of_name [OF inv w] by (force simp: live_def filter_empty_conv)
    moreover have "live s' = live s - {c}"
      using erase_live [OF inv w] by (simp add: s' live_def queue_task_def put_conn_def)
    ultimately have "destroy_ok X s'"
      using inv w by (intro erased_destroy_ok [of X s c s' "conn_loop (conn w)" w])
        (simp_all add: server_inv_def heap_ok_def s' queue_task_def put_conn_def)
    moreover have "heap_ok T s' = heap_ok T (put_conn c (Some ?w) s)"
      by (simp add: heap_ok_def s' queue_task_def put_conn_def)
    moreover have "map_ok s'" if "map_ok (put_conn c (Some ?w) s)"
      using that by (simp add: map_ok_def s' queue_task_def put_conn_def distinct_map_filter split: prod.splits)
    moreover note inv1
    ultimately show ?thesis by (simp add: server_inv_def)
  qed
qed

lemma removeConnection_inv:
  "server_inv T X s \<Longrightarrow> removeConnection me c s = (s', Inr ()) \<Longrightarrow> server_inv T X s'"
  by (auto simp: removeConnection_def intro: removeConnectionInLoop_inv queue_task_inv split: if_splits)

lemma run_conn_inv:
  assumes inv: "server_inv T X s" and ret: "run_conn me f c s = (s', Inr ())"
    and step: "\<And>w w'. srv_conns s c = Some w \<Longrightarrow> f w = Inr w' \<Longrightarrow> conn_step w w'"
  shows "server_inv T X s'"
proof -
  obtain w w' where w: "srv_conns s c = Some w" "f w = Inr w'"
    and rm: "do_times (new_closes w w') (removeConnection me c) (put_conn c (Some w') s) = (s', Inr ())"
    using ret by (auto simp: run_conn_def split: option.splits sum.splits)
  show ?thesis
    using do_times_inv [of "server_inv T X", OF removeConnection_inv put_conn_inv [OF inv w(1) step [OF w]] rm] .
qed

lemma server_cbs_ok: "cbs_ok ucb \<Longrightarrow> cbs_ok (server_cbs ucb)"
  by (auto simp: cbs_ok_def cb_list_def server_cbs_eq intro: api_skip)

lemma establish_inv: "cbs_ok ucb \<Longrightarrow> server_inv T X s \<Longrightarrow> establish ucb me c s = (s', Inr ()) \<Longrightarrow> server_inv T X s'"
  unfolding establish_def by (erule run_conn_inv) (blast intro: step_established server_cbs_ok)+

lemma reset_acceptor_inv: "server_inv T X s \<Longrightarrow> reset_acceptor s = (s', Inr ()) \<Longrightarrow> server_inv T X s'"
  by (auto simp: reset_acceptor_def split: option.splits sum.splits)

lemma listen_inv: "server_inv T X s \<Longrightarrow> listen_in_loop k me s = (s', Inr ()) \<Longrightarrow> server_inv T X s'"
  by (auto simp: listen_in_loop_def split: option.splits sum.splits prod.splits)

lemma stop_in_loop_inv:
  assumes "server_inv T X s" and "stop_in_loop me s = (s', Inr ())"
  shows "server_inv T X s'"
proof -
  obtain s1 where s1: "reset_acceptor s = (s1, Inr ())"
      "do_each (\<lambda>c. run_conn me (shutdown me) c) (map snd (connections s1)) s1 = (s', Inr ())"
    using assms(2) unfolding stop_in_loop_def by (auto dest!: then_do_ok)
  have each: "server_inv T X v" if "server_inv T X u" "run_conn me (shutdown me) c u = (v, Inr ())" for c u v
    using that by (rule run_conn_inv) (blast intro: step_api api_shutdown)
  show ?thesis
    using do_each_inv [of "server_inv T X", OF each reset_acceptor_inv [OF assms(1) s1(1)] s1(2)] .
qed

lemma release_inv: "server_inv T X s \<Longrightarrow> release c s = (s', Inr ()) \<Longrightarrow> server_inv T X s'"
proof -
  assume inv: "server_inv T X s" and ret: "release c s = (s', Inr ())"
  have "server_inv T X (put_conn c None s)" if "\<not> referenced c s"
  proof -
    have "c \<notin> live s" using that by (simp add: referenced_def live_def)
    moreover have "heap_ok T (put_conn c None s)" "destroy_ok X (put_conn c None s)"
      using inv by (auto simp: server_inv_def heap_ok_def destroy_ok_def put_conn_def live_def destroys_def)
    ultimately show ?thesis
      using inv by (force simp: server_inv_def map_ok_def put_conn_def live_def)
  qed
  with inv ret show ?thesis
    by (auto simp: release_def split: if_splits option.splits sum.splits)
qed

text \<open>A new connection: its name and its address are fresh.\<close>

lemma next_key_fresh:
  assumes h: "heap_ok T s" "map_ok s"
  shows "srv_conns s c = Some v \<Longrightarrow> conn_name (conn v) \<noteq> conn_key (srv_name s) (nextConnId s)"
    and "conn_key (srv_name s) (nextConnId s) \<notin> fst ` set (connections s)"
proof -
  have old: "conn_name (conn v) \<noteq> conn_key (srv_name s) (nextConnId s)" if cv: "srv_conns s c = Some v" for c v
  proof -
    obtain i where "0 < i" "i < nextConnId s" "conn_name (conn v) = conn_key (srv_name s) i"
      using heap_okD(4) [OF h(1) cv] by blast
    then show ?thesis using conn_key_inject [of i "nextConnId s"] by simp
  qed
  then show "srv_conns s c = Some v \<Longrightarrow> conn_name (conn v) \<noteq> conn_key (srv_name s) (nextConnId s)" by simp
  from old show "conn_key (srv_name s) (nextConnId s) \<notin> fst ` set (connections s)"
    using map_okD [OF h(2)] by fastforce
qed

lemma new_conn_heap_ok:
  assumes h: "heap_ok T s" "map_ok s" and w: "reachable conn_start conn_step w" "conn_thread (conn w) = T (conn_loop (conn w))"
      "conn_name (conn w) = conn_key (srv_name s) (nextConnId s)"
    and fields: "srv_conns s' = (srv_conns s)(srv_next s \<mapsto> w)" "srv_next s' = Suc (srv_next s)" "srv_name s' = srv_name s"
      "nextConnId s' = nextConnId s + 1"
  shows "heap_ok T s'"
  unfolding heap_ok_def
proof (intro allI impI)
  fix c v assume c: "srv_conns s' c = Some v"
  have uniq: "c' = c" if "srv_conns s' c' = Some v'" "conn_name (conn v') = conn_name (conn v)" for c' v'
    using c that heap_okD(5) [OF h(1), of c v c' v'] next_key_fresh(1) [OF h, of c v] next_key_fresh(1) [OF h, of c' v'] w(3)
    by (auto simp: fields split: if_splits)
  have "\<exists>i. 0 < i \<and> i < nextConnId s + 1 \<and> conn_name (conn v) = conn_key (srv_name s) i"
  proof (cases "c = srv_next s")
    case True
    then show ?thesis using c h(2) w(3) by (intro exI [of _ "nextConnId s"]) (simp add: fields map_ok_def)
  next
    case False
    then obtain i where "0 < i" "i < nextConnId s" "conn_name (conn v) = conn_key (srv_name s) i"
      using c heap_okD(4) [OF h(1), of c v] by (auto simp: fields)
    then show ?thesis by (intro exI [of _ i]) simp
  qed
  moreover have "c < srv_next s'" "reachable conn_start conn_step v" "conn_thread (conn v) = T (conn_loop (conn v))"
    using c w heap_okD(1-3) [OF h(1), of c v] by (auto simp: fields less_Suc_eq split: if_splits)
  ultimately show "c < srv_next s' \<and> reachable conn_start conn_step v \<and> conn_thread (conn v) = T (conn_loop (conn v)) \<and>
      (\<exists>i. 0 < i \<and> i < nextConnId s' \<and> conn_name (conn v) = conn_key (srv_name s') i) \<and>
      (\<forall>c' w'. srv_conns s' c' = Some w' \<longrightarrow> conn_name (conn w') = conn_name (conn v) \<longrightarrow> c' = c)"
    using uniq by (simp only: fields) blast
qed

lemma new_conn_inv:
  assumes inv: "server_inv T X s" and w: "w = \<lparr>conn = TcpConnection_ctor l (T l) (conn_key (srv_name s) (nextConnId s)) fd la pa, trace = []\<rparr>"
    and s': "s' = put_conn (srv_next s) (Some w) (s\<lparr>nextConnId := nextConnId s + 1, srv_next := Suc (srv_next s),
               connections := map_assign (conn_key (srv_name s) (nextConnId s)) (srv_next s) (connections s)\<rparr>)"
  shows "server_inv T X s'"
proof -
  have h: "heap_ok T s" "map_ok s" "destroy_ok X s"
    using inv by (simp_all add: server_inv_def)
  note fresh = next_key_fresh(2) [OF h(1,2)]
  have free: "srv_conns s (srv_next s) = None"
    using heap_okD(1) [OF h(1), of "srv_next s"] by (cases "srv_conns s (srv_next s)") auto
  have start: "reachable conn_start conn_step w"
    by (rule reachable_start) (unfold conn_start_def w, blast)
  have "heap_ok T s'"
    by (rule new_conn_heap_ok [OF h(1,2) start]) (simp_all add: w TcpConnection_ctor_def s' put_conn_def)
  moreover have "map_ok s'"
    using h(2) free distinct_map_assign [OF _ fresh] set_map_assign [OF fresh]
    by (fastforce simp: map_ok_def s' put_conn_def w TcpConnection_ctor_def)
  moreover have "destroy_ok X s'"
  proof -
    have lv: "live s' = insert (srv_next s) (live s)"
      using set_map_assign [OF fresh, of "srv_next s"] by (simp add: s' live_def put_conn_def)
    have "destroys s' c = destroys s c" for c by (simp add: s' destroys_def put_conn_def)
    moreover have "destroys s (srv_next s) = 0"
      using destroys_0 [OF h(3)] by simp
    ultimately show ?thesis
      using h(3) unfolding destroy_ok_def lv by (auto simp: s' put_conn_def le_Suc_eq split: if_splits)
  qed
  ultimately show ?thesis by (simp add: server_inv_def)
qed

lemma newConnection_inv:
  assumes cbs: "cbs_ok ucb" and inv: "server_inv T X s" and ret: "newConnection T ucb k me fd peer s = (s', Inr ())"
  shows "server_inv T X s'"
proof -
  obtain l p where nl: "getNextLoop me (threadPool s) = Inr (l, p)"
    using ret by (auto simp: newConnection_def split: if_splits sum.splits)
  obtain la where la: "snd (getLocalAddr k fd) = Inr la"
    using ret nl by (auto simp: newConnection_def Let_def split: if_splits sum.splits prod.splits)
  define s1 where "s1 = add_calls (fst (getLocalAddr k fd)) (s\<lparr>threadPool := p\<rparr>)"
  let ?w = "\<lparr>conn = TcpConnection_ctor l (T l) (conn_key (srv_name s1) (nextConnId s1)) fd la peer, trace = []\<rparr>"
  let ?m = "map_assign (conn_key (srv_name s1) (nextConnId s1)) (srv_next s1) (connections s1)"
  define s3 where "s3 = put_conn (srv_next s) (Some ?w)
      (add_calls (fst (getLocalAddr k fd)) (s\<lparr>threadPool := p, nextConnId := nextConnId s + 1\<rparr>)
         \<lparr>srv_next := Suc (srv_next s), connections := ?m\<rparr>)"
  have "s3 = put_conn (srv_next s1) (Some ?w)
      (s1\<lparr>nextConnId := nextConnId s1 + 1, srv_next := Suc (srv_next s1), connections := ?m\<rparr>)"
    by (rule server.equality) (simp_all add: s3_def s1_def add_calls_def put_conn_def)
  then have inv3: "server_inv T X s3"
    using new_conn_inv [where T = T and s = s1, OF _ refl refl] inv by (simp add: s1_def)
  have "(if me = T l then establish ucb me (srv_next s1) s3 else (queue_task l (SEstablish (srv_next s1)) s3, Inr ())) = (s', Inr ())"
    using ret nl la
    by (auto simp: newConnection_def Let_def s3_def s1_def add_calls_def put_conn_def split: if_splits prod.splits)
  then show ?thesis
    using establish_inv [OF cbs inv3] queue_task_inv [OF inv3] by (auto split: if_splits)
qed

lemma accept_ready_inv:
  assumes cbs: "cbs_ok ucb" and inv: "server_inv T X s" and ret: "accept_ready T ucb k me s = (s', Inr ())"
  shows "server_inv T X s'"
proof -
  obtain cs accepted where
    "do_each (\<lambda>(fd, peer). newConnection T ucb k me fd peer) accepted (add_calls cs s) = (s', Inr ())"
    using ret by (auto simp: accept_ready_def split: option.splits prod.splits sum.splits)
  moreover have "server_inv T X v" if "server_inv T X u" "(case x of (fd, peer) \<Rightarrow> newConnection T ucb k me fd peer) u = (v, Inr ())"
    for x u v
    using that newConnection_inv [OF cbs] by (cases x) auto
  ultimately show ?thesis
    using do_each_inv [of "server_inv T X" "\<lambda>(fd, peer). newConnection T ucb k me fd peer" "add_calls cs s" accepted s'] inv
    by simp
qed

text \<open>Taking a functor off the queue, and running the one that destroys a connection.\<close>

lemma swap_functors_inv: "server_inv T X s \<Longrightarrow> server_inv T X (swap_functors l s)"
proof -
  assume inv: "server_inv T X s"
  have "snd ` set (srv_queue (swap_functors l s) @ srv_batch (swap_functors l s)) = snd ` set (srv_queue s @ srv_batch s)"
    by (auto simp: swap_functors_def image_iff)
  with inv show ?thesis
    unfolding server_inv_def heap_ok_def map_ok_def destroy_ok_def live_def destroys_def
    by (simp add: swap_functors_def)
qed

lemma dequeue_inv:
  assumes "server_inv T {} s" and "srv_batch s = b1 @ (l, t) # b2"
  shows "server_inv T {c. t = SDestroy c} (s\<lparr>srv_batch := b1 @ b2, srv_held := h\<rparr>)"
  using assms by (auto simp: server_inv_def heap_ok_def map_ok_def destroy_ok_def live_def destroys_def)

lemma connectDestroyed_disconnects: "connectDestroyed cbs me w = Inr w' \<Longrightarrow> conn_state (conn w') = Disconnected"
  by (auto simp: connectDestroyed_def bind_res_eq_Inr Let_def set_state_def split: if_splits)

lemma destroy_task_inv:
  assumes cbs: "cbs_ok ucb" and wr: "write_documented wr" and inv: "server_inv T {c} s" and logged: "SDestroy c \<in> set (srv_log s)"
    and ret: "run_conn me (run_task (server_cbs ucb) wr me DestroyTask) c s = (s', Inr ())"
  shows "server_inv T {} s'"
proof -
  obtain w w' where w: "srv_conns s c = Some w" "connectDestroyed (server_cbs ucb) me w = Inr w'"
    and rm: "do_times (new_closes w w') (removeConnection me c) (put_conn c (Some w') s) = (s', Inr ())"
    using ret by (auto simp: run_conn_def split: option.splits sum.splits)
  have "destroys s c \<noteq> 0"
    using logged by (simp add: destroys_def count_list_0_iff)
  then have "Queued DestroyTask \<in> set (trace w)"
    using inv w by (auto simp: server_inv_def dest: destroy_okD(3))
  then have "conn_step w w'"
    using w(2) by (intro step_task [OF server_cbs_ok [OF cbs] wr, of DestroyTask]) simp_all
  then have "server_inv T {c} (put_conn c (Some w') s)"
    by (rule put_conn_inv [OF inv w(1)])
  then have "server_inv T {} (put_conn c (Some w') s)"
    using connectDestroyed_disconnects [OF w(2)] unfolding server_inv_def destroy_ok_def
    by (auto simp: put_conn_def split: if_splits)
  from do_times_inv [of "server_inv T {}", OF removeConnection_inv this rm] show ?thesis .
qed

lemma run_server_task_inv:
  assumes cbs: "cbs_ok ucb" and wr: "write_documented wr" and inv: "server_inv T {} s"
    and b: "srv_batch s = b1 @ (l, t) # b2"
    and ret: "run_server_task ucb wr k me t (s\<lparr>srv_batch := b1 @ b2, srv_held := h\<rparr>) = (s', Inr ())"
  shows "server_inv T {} s'"
proof (cases "\<exists>c. t = SDestroy c")
  case True
  then obtain c where t: "t = SDestroy c" by blast
  have "SDestroy c \<in> set (srv_log s)"
    using inv b t by (force simp: server_inv_def dest!: destroy_okD(1))
  with destroy_task_inv [OF cbs wr, of T c "s\<lparr>srv_batch := b1 @ b2, srv_held := h\<rparr>" me s'] dequeue_inv [OF inv b, of h]
    ret t show ?thesis by simp
next
  case False
  then have inv': "server_inv T {} (s\<lparr>srv_batch := b1 @ b2, srv_held := h\<rparr>)"
    using dequeue_inv [OF inv b] by simp
  show ?thesis
    by (cases t) (use False ret in \<open>auto intro: listen_inv [OF inv'] stop_in_loop_inv [OF inv'] establish_inv [OF cbs inv']
        removeConnectionInLoop_inv [OF inv']\<close>)
qed

lemma release_each_inv: "server_inv T X s \<Longrightarrow> do_each release cs s = (s', Inr ()) \<Longrightarrow> server_inv T X s'"
  using do_each_inv [of "server_inv T X" release s cs s'] release_inv by blast

lemma end_round_inv: "server_inv T X s \<Longrightarrow> end_round l s = (s', Inr ()) \<Longrightarrow> server_inv T X s'"
  unfolding end_round_def by (rule release_each_inv) simp_all

lemma user_drop_inv: "server_inv T X s \<Longrightarrow> user_drop c s = (s', Inr ()) \<Longrightarrow> server_inv T X s'"
  unfolding user_drop_def by (rule release_inv) simp_all

lemma server_step_inv: "server_step T s s' \<Longrightarrow> server_inv T {} s \<Longrightarrow> server_inv T {} s'"
proof (induction rule: server_step.induct)
  case (srv_start mk k me s s')
  then show ?case
    by (auto simp: TcpServer_start_def Let_def split: if_splits sum.splits
        intro!: queue_task_inv elim!: listen_inv [rotated])
next
  case (srv_stop me s s')
  then show ?case
    by (cases "me = srv_tid s") (auto simp: TcpServer_stop_def Let_def elim!: stop_in_loop_inv [rotated] intro!: queue_task_inv)
next
  case (srv_loops n s s')
  then show ?case by (auto simp: setIoLoopNum_def split: if_splits sum.splits)
next
  case (srv_accept ucb k me s s')
  then show ?case by (blast intro: accept_ready_inv)
next
  case (srv_swap l s)
  then show ?case by (simp add: swap_functors_inv)
next
  case (srv_task ucb wr s b1 l t b2 k s')
  then show ?case by (blast intro: run_server_task_inv)
next
  case (srv_round l s s')
  then show ?case by (blast intro: end_round_inv)
next
  case (srv_hold s c)
  then show ?case by (simp add: user_hold_def)
next
  case (srv_drop c s s')
  then show ?case by (blast intro: user_drop_inv)
next
  case (srv_conn_event ucb wr readv me alive r c s s')
  from srv_conn_event.prems srv_conn_event.hyps(4) show ?case
    by (rule run_conn_inv) (rule step_event [OF server_cbs_ok [OF srv_conn_event.hyps(1)] srv_conn_event.hyps(2,3)])
next
  case (srv_conn_task ucb wr t s c w me s')
  from srv_conn_task.prems srv_conn_task.hyps(7) show ?case
    by (rule run_conn_inv)
       (rule step_task [OF server_cbs_ok [OF srv_conn_task.hyps(1)] srv_conn_task.hyps(2,3)], use srv_conn_task.hyps(5,6) in auto)
next
  case (srv_conn_api f c s me s')
  from srv_conn_api.prems srv_conn_api.hyps(3) show ?case
    by (rule run_conn_inv) (rule step_api [OF srv_conn_api.hyps(1)])
qed

lemma server_start_fields:
  assumes "server_start T s"
  shows "connections s = []" "nextConnId s = 1" "srv_conns s = (\<lambda>_. None)" "srv_queue s = []" "srv_log s = []" "srv_batch s = []" "srv_next s = 0"
proof -
  obtain k lp addr name cs where c: "TcpServer_ctor k (Some lp) (T lp) addr name = (cs, Inr s)"
    using assms by (auto simp: server_start_def)
  obtain cs' r where "Acceptor_ctor k lp (T lp) addr True = (cs', r)" by fastforce
  with c show "connections s = []" "nextConnId s = 1" "srv_conns s = (\<lambda>_. None)" "srv_queue s = []" "srv_log s = []" "srv_batch s = []" "srv_next s = 0"
    by (cases r; auto simp: TcpServer_ctor_def EventLoopThreadPool_ctor_def)+
qed

lemma server_start_inv: "server_start T s \<Longrightarrow> server_inv T {} s"
  by (simp add: server_inv_def heap_ok_def map_ok_def destroy_ok_def live_def destroys_def server_start_fields)

interpretation server: invariant_machine "server_start T" "server_step T" "server_inv T {}" for T
  by unfold_locales (auto intro: server_start_inv server_step_inv)

section \<open>No connection is lost\<close>

text \<open>An object is destroyed with its last reference, so every object that exists is referenced.\<close>

lemma ref_okD: "ref_ok s \<Longrightarrow> srv_conns s c = Some w \<Longrightarrow> referenced c s"
  unfolding ref_ok_def by blast

lemma put_conn_ref: "ref_ok s \<Longrightarrow> srv_conns s c \<noteq> None \<Longrightarrow> ref_ok (put_conn c w s)"
  by (auto simp: ref_ok_def referenced_def put_conn_def)

lemma queue_task_ref: "ref_ok s \<Longrightarrow> ref_ok (queue_task l t s)"
  by (auto simp: ref_ok_def referenced_def queue_task_def)

lemma removeConnectionInLoop_ref:
  assumes inv: "server_inv T X s" and ref: "ref_ok s" and ret: "removeConnectionInLoop me c s = (s', Inr ())"
  shows "ref_ok s'"
proof -
  obtain w where w: "srv_conns s c = Some w"
    using ret by (auto simp: removeConnectionInLoop_def split: if_splits option.splits)
  let ?k = "conn_name (conn w)"
  let ?m = "filter (\<lambda>e. fst e \<noteq> ?k) (connections s)"
  show ?thesis
  proof (cases "filter (\<lambda>e. fst e = ?k) (connections s) = []")
    case True
    then have "?m = connections s"
      by (auto simp: filter_empty_conv filter_id_conv)
    then have "s' = s"
      using ret w True by (auto simp: removeConnectionInLoop_def map_erase_def split: if_splits)
    then show ?thesis using ref by simp
  next
    case False
    then have s': "s' = queue_task (conn_loop (conn w)) (SDestroy c) (put_conn c (Some (emit (Queued DestroyTask) w)) (s\<lparr>connections := ?m\<rparr>))"
      using ret w by (auto simp: removeConnectionInLoop_def map_erase_def put_conn_def split: if_splits)
    have "referenced e s'" if "srv_conns s' e \<noteq> None" for e
    proof (cases "e = c")
      case True
      then show ?thesis by (simp add: s' queue_task_def referenced_def)
    next
      case False
      then have "referenced e s" using ref that by (simp add: ref_ok_def s' queue_task_def put_conn_def)
      then show ?thesis
        using False erase_live [OF inv w] by (auto simp: s' referenced_def queue_task_def put_conn_def live_def)
    qed
    then show ?thesis by (simp add: ref_ok_def)
  qed
qed

lemma removeConnection_ref:
  "server_inv T X s \<Longrightarrow> ref_ok s \<Longrightarrow> removeConnection me c s = (s', Inr ()) \<Longrightarrow> ref_ok s'"
  by (auto simp: removeConnection_def intro: removeConnectionInLoop_ref queue_task_ref split: if_splits)

lemma run_conn_ref:
  assumes inv: "server_inv T X s" and ref: "ref_ok s" and ret: "run_conn me f c s = (s', Inr ())"
    and step: "\<And>w w'. srv_conns s c = Some w \<Longrightarrow> f w = Inr w' \<Longrightarrow> conn_step w w'"
  shows "ref_ok s'"
proof -
  obtain w w' where w: "srv_conns s c = Some w" "f w = Inr w'"
    and rm: "do_times (new_closes w w') (removeConnection me c) (put_conn c (Some w') s) = (s', Inr ())"
    using ret by (auto simp: run_conn_def split: option.splits sum.splits)
  have "server_inv T X s' \<and> ref_ok s'"
    using do_times_inv [of "\<lambda>s. server_inv T X s \<and> ref_ok s" "removeConnection me c" "put_conn c (Some w') s" "new_closes w w'" s', OF _ _ rm]
      put_conn_inv [OF inv w(1) step [OF w]] put_conn_ref [OF ref, of c "Some w'"] w(1)
      removeConnection_inv removeConnection_ref by blast
  then show ?thesis ..
qed

lemma establish_ref:
  "cbs_ok ucb \<Longrightarrow> server_inv T X s \<Longrightarrow> ref_ok s \<Longrightarrow> establish ucb me c s = (s', Inr ()) \<Longrightarrow> ref_ok s'"
  unfolding establish_def by (rule run_conn_ref) (blast intro: step_established server_cbs_ok)+

lemma reset_acceptor_ref: "ref_ok s \<Longrightarrow> reset_acceptor s = (s', Inr ()) \<Longrightarrow> ref_ok s'"
  by (auto simp: reset_acceptor_def split: option.splits sum.splits)

lemma listen_ref: "ref_ok s \<Longrightarrow> listen_in_loop k me s = (s', Inr ()) \<Longrightarrow> ref_ok s'"
  by (auto simp: listen_in_loop_def split: option.splits sum.splits prod.splits)

lemma stop_in_loop_ref:
  assumes "server_inv T X s" and "ref_ok s" and "stop_in_loop me s = (s', Inr ())"
  shows "ref_ok s'"
proof -
  obtain s1 where s1: "reset_acceptor s = (s1, Inr ())"
      "do_each (\<lambda>c. run_conn me (shutdown me) c) (map snd (connections s1)) s1 = (s', Inr ())"
    using assms(3) unfolding stop_in_loop_def by (auto dest!: then_do_ok)
  have each: "server_inv T X v \<and> ref_ok v" if u: "server_inv T X u \<and> ref_ok u" "run_conn me (shutdown me) c u = (v, Inr ())" for c u v
  proof -
    have "conn_step w w'" if "shutdown me w = Inr w'" for w w' using step_api [OF api_shutdown that] .
    then show ?thesis using u run_conn_inv [of T X u me "shutdown me" c v] run_conn_ref [of T X u me "shutdown me" c v] by blast
  qed
  show ?thesis
    using do_each_inv [of "\<lambda>s. server_inv T X s \<and> ref_ok s" "run_conn me (shutdown me)" s1 "map snd (connections s1)" s'] each s1(2)
      reset_acceptor_inv [OF assms(1) s1(1)] reset_acceptor_ref [OF assms(2) s1(1)] by blast
qed

lemma new_conn_ref:
  assumes "ref_ok s" and "k \<notin> fst ` set (connections s)"
  shows "ref_ok (put_conn c (Some w) (s\<lparr>nextConnId := i, srv_next := n, connections := map_assign k c (connections s)\<rparr>))"
  using assms(1) set_map_assign [OF assms(2), of c] by (auto simp: ref_ok_def referenced_def put_conn_def)

lemma newConnection_ref:
  assumes cbs: "cbs_ok ucb" and inv: "server_inv T X s" and ref: "ref_ok s" and ret: "newConnection T ucb k me fd peer s = (s', Inr ())"
  shows "ref_ok s'"
proof -
  obtain l p where nl: "getNextLoop me (threadPool s) = Inr (l, p)"
    using ret by (auto simp: newConnection_def split: if_splits sum.splits)
  obtain la where la: "snd (getLocalAddr k fd) = Inr la"
    using ret nl by (auto simp: newConnection_def Let_def split: if_splits sum.splits prod.splits)
  define s1 where "s1 = add_calls (fst (getLocalAddr k fd)) (s\<lparr>threadPool := p\<rparr>)"
  let ?k = "conn_key (srv_name s1) (nextConnId s1)"
  let ?w = "\<lparr>conn = TcpConnection_ctor l (T l) ?k fd la peer, trace = []\<rparr>"
  define s3 where "s3 = put_conn (srv_next s1) (Some ?w)
      (s1\<lparr>nextConnId := nextConnId s1 + 1, srv_next := Suc (srv_next s1), connections := map_assign ?k (srv_next s1) (connections s1)\<rparr>)"
  have inv1: "server_inv T X s1" and "ref_ok s1" using inv ref by (simp_all add: s1_def)
  then have inv3: "server_inv T X s3" and ref3: "ref_ok s3"
    using new_conn_inv [where T = T and s = s1, OF inv1 refl refl] new_conn_ref next_key_fresh(2) [of T s1]
    by (simp_all add: s3_def server_inv_def)
  have "put_conn (srv_next s) (Some ?w)
      (add_calls (fst (getLocalAddr k fd)) (s\<lparr>threadPool := p, nextConnId := nextConnId s + 1\<rparr>)
         \<lparr>srv_next := Suc (srv_next s), connections := map_assign ?k (srv_next s) (connections s)\<rparr>) = s3"
    by (rule server.equality) (simp_all add: s3_def s1_def add_calls_def put_conn_def)
  then have "(if me = T l then establish ucb me (srv_next s1) s3 else (queue_task l (SEstablish (srv_next s1)) s3, Inr ())) = (s', Inr ())"
    using ret nl la by (auto simp: newConnection_def Let_def s1_def add_calls_def put_conn_def split: if_splits prod.splits)
  then show ?thesis
    using establish_ref [OF cbs inv3 ref3] queue_task_ref [OF ref3] by (auto split: if_splits)
qed

lemma accept_ready_ref:
  assumes cbs: "cbs_ok ucb" and inv: "server_inv T X s" and ref: "ref_ok s" and ret: "accept_ready T ucb k me s = (s', Inr ())"
  shows "ref_ok s'"
proof -
  obtain cs accepted where each:
    "do_each (\<lambda>(fd, peer). newConnection T ucb k me fd peer) accepted (add_calls cs s) = (s', Inr ())"
    using ret by (auto simp: accept_ready_def split: option.splits prod.splits sum.splits)
  have "server_inv T X v \<and> ref_ok v"
    if "server_inv T X u \<and> ref_ok u" "(case x of (fd, peer) \<Rightarrow> newConnection T ucb k me fd peer) u = (v, Inr ())" for x u v
    using that newConnection_inv [OF cbs] newConnection_ref [OF cbs] by (cases x) auto
  from do_each_inv [of "\<lambda>s. server_inv T X s \<and> ref_ok s", OF this _ each] inv ref show ?thesis by simp
qed

lemma run_server_task_ref:
  assumes cbs: "cbs_ok ucb" and wr: "write_documented wr" and inv: "server_inv T {} s" and ref: "ref_ok s"
    and b: "srv_batch s = b1 @ (l, t) # b2"
    and ret: "run_server_task ucb wr k me t (s\<lparr>srv_batch := b1 @ b2, srv_held := srv_held s @ [(l, t)]\<rparr>) = (s', Inr ())"
  shows "ref_ok s'"
proof -
  let ?s = "s\<lparr>srv_batch := b1 @ b2, srv_held := srv_held s @ [(l, t)]\<rparr>"
  have ref0: "ref_ok ?s" using ref b by (auto simp: ref_ok_def referenced_def)
  have inv0: "server_inv T {c. t = SDestroy c} ?s" by (rule dequeue_inv [OF inv b])
  show ?thesis
  proof (cases t)
    case (SDestroy c)
    have "SDestroy c \<in> set (srv_log s)"
      using inv b SDestroy by (force simp: server_inv_def dest!: destroy_okD(1))
    then have "destroys ?s c \<noteq> 0" by (simp add: destroys_def count_list_0_iff)
    then have "Queued DestroyTask \<in> set (trace w)" if "srv_conns ?s c = Some w" for w
      using inv0 that destroy_okD(3) by (auto simp: server_inv_def)
    then have "conn_step w w'" if "srv_conns ?s c = Some w" "run_task (server_cbs ucb) wr me DestroyTask w = Inr w'" for w w'
      using that by (intro step_task [OF server_cbs_ok [OF cbs] wr, of DestroyTask]) simp_all
    with run_conn_ref [OF inv0 ref0, of me "run_task (server_cbs ucb) wr me DestroyTask" c s'] ret SDestroy show ?thesis by simp
  qed (use ret in \<open>auto intro: listen_ref [OF ref0] stop_in_loop_ref [OF inv0 ref0] establish_ref [OF cbs inv0 ref0]
        removeConnectionInLoop_ref [OF inv0 ref0]\<close>)
qed


text \<open>What releasing does to one object, and to all that a list names.\<close>

lemma release_frame:
  assumes "release c s = (s', r)"
  shows "referenced x s' = referenced x s" and "r = Inr () \<Longrightarrow> srv_conns s' x = (if x = c \<and> \<not> referenced c s then None else srv_conns s x)"
  using assms by (auto simp: release_def referenced_def add_calls_def put_conn_def split: if_splits option.splits sum.splits)

lemma release_each_frees:
  "do_each release cs s = (s', Inr ()) \<Longrightarrow>
     (\<forall>x. referenced x s' = referenced x s) \<and> (\<forall>x. srv_conns s' x = (if x \<in> set cs \<and> \<not> referenced x s then None else srv_conns s x))"
proof (induction cs arbitrary: s)
  case Nil
  then show ?case by simp
next
  case (Cons c cs)
  obtain s1 where s1: "release c s = (s1, Inr ())" "do_each release cs s1 = (s', Inr ())"
    using Cons.prems by (auto dest!: then_do_ok)
  then have "srv_conns s1 x = (if x = c \<and> \<not> referenced c s then None else srv_conns s x)" "referenced x s1 = referenced x s" for x
    using release_frame [OF s1(1)] by blast+
  with Cons.IH [OF s1(2)] show ?case by auto
qed

lemma end_round_frees:
  assumes "ref_ok s" and "end_round l s = (s', Inr ())"
  shows "srv_conns s' x = (if referenced x (s\<lparr>srv_held := filter (\<lambda>e. fst e \<noteq> l) (srv_held s)\<rparr>) then srv_conns s x else None)"
    and "ref_ok s'"
proof -
  let ?s = "s\<lparr>srv_held := filter (\<lambda>e. fst e \<noteq> l) (srv_held s)\<rparr>" and ?cs = "List.map_filter (task_conn \<circ> snd) (filter (\<lambda>e. fst e = l) (srv_held s))"
  have e: "referenced y s' = referenced y ?s" "srv_conns s' y = (if y \<in> set ?cs \<and> \<not> referenced y ?s then None else srv_conns s y)" for y
    using release_each_frees [of ?cs ?s s'] assms(2) by (simp_all add: end_round_def)
  have "y \<in> set ?cs" if "referenced y s" "\<not> referenced y ?s" for y
    using that by (fastforce simp: referenced_def map_filter_def image_iff)
  then have c: "srv_conns s' y = (if referenced y ?s then srv_conns s y else None)" for y
    using e(2) [of y] assms(1) unfolding ref_ok_def by (cases "srv_conns s y") auto
  show "srv_conns s' x = (if referenced x ?s then srv_conns s x else None)" by (rule c)
  show "ref_ok s'" using c e(1) by (simp add: ref_ok_def)
qed

lemma user_drop_frees:
  assumes "ref_ok s" and "user_drop c s = (s', Inr ())"
  shows "srv_conns s' x = (if referenced x (s\<lparr>srv_users := remove1 c (srv_users s)\<rparr>) then srv_conns s x else None)"
    and "ref_ok s'"
proof -
  let ?s = "s\<lparr>srv_users := remove1 c (srv_users s)\<rparr>"
  have e: "referenced y s' = referenced y ?s" "srv_conns s' y = (if y = c \<and> \<not> referenced c ?s then None else srv_conns s y)" for y
    using release_frame [of c ?s s' "Inr ()"] assms(2) by (simp_all add: user_drop_def)
  have "y = c" if "referenced y s" "\<not> referenced y ?s" for y
    using that by (fastforce simp: referenced_def)
  then have c: "srv_conns s' y = (if referenced y ?s then srv_conns s y else None)" for y
    using e(2) [of y] assms(1) unfolding ref_ok_def by (cases "srv_conns s y") auto
  show "srv_conns s' x = (if referenced x ?s then srv_conns s x else None)" by (rule c)
  show "ref_ok s'" using c e(1) by (simp add: ref_ok_def)
qed

lemma server_step_ref: "server_step T s s' \<Longrightarrow> server_inv T {} s \<Longrightarrow> ref_ok s \<Longrightarrow> ref_ok s'"
proof (induction rule: server_step.induct)
  case (srv_start mk k me s s')
  then show ?case
    by (auto simp: TcpServer_start_def Let_def split: if_splits sum.splits intro!: queue_task_ref elim!: listen_ref [rotated])
next
  case (srv_stop me s s')
  then show ?case
    by (cases "me = srv_tid s") (auto simp: TcpServer_stop_def Let_def elim!: stop_in_loop_ref [rotated 2] intro!: queue_task_ref)
next
  case (srv_loops n s s')
  then show ?case by (auto simp: setIoLoopNum_def split: if_splits sum.splits)
next
  case (srv_accept ucb k me s s')
  then show ?case by (blast intro: accept_ready_ref)
next
  case (srv_swap l s)
  then show ?case by (fastforce simp: ref_ok_def referenced_def swap_functors_def)
next
  case (srv_task ucb wr s b1 l t b2 k s')
  then show ?case by (blast intro: run_server_task_ref)
next
  case (srv_round l s s')
  then show ?case by (blast intro: end_round_frees(2))
next
  case (srv_hold s c)
  then show ?case by (auto simp: ref_ok_def referenced_def user_hold_def)
next
  case (srv_drop c s s')
  then show ?case by (blast intro: user_drop_frees(2))
next
  case (srv_conn_event ucb wr readv me alive r c s s')
  from srv_conn_event.prems srv_conn_event.hyps(4) show ?case
    by (rule run_conn_ref) (rule step_event [OF server_cbs_ok [OF srv_conn_event.hyps(1)] srv_conn_event.hyps(2,3)])
next
  case (srv_conn_task ucb wr t s c w me s')
  from srv_conn_task.prems srv_conn_task.hyps(7) show ?case
    by (rule run_conn_ref)
       (rule step_task [OF server_cbs_ok [OF srv_conn_task.hyps(1)] srv_conn_task.hyps(2,3)], use srv_conn_task.hyps(5,6) in auto)
next
  case (srv_conn_api f c s me s')
  from srv_conn_api.prems srv_conn_api.hyps(3) show ?case
    by (rule run_conn_ref) (rule step_api [OF srv_conn_api.hyps(1)])
qed

lemma reachable_ref: "reachable (server_start T) (server_step T) s \<Longrightarrow> ref_ok s"
proof (induction rule: reachable.induct)
  case (reachable_start s)
  then show ?case by (simp add: ref_ok_def server_start_fields)
next
  case (reachable_step s s')
  then show ?case using server_step_ref server.reachable_inv by blast
qed

lemma release_returns: "ref_ok s \<Longrightarrow> \<exists>s'. release c s = (s', Inr ())"
  by (cases "srv_conns s c") (auto simp: release_def dest: ref_okD)

text \<open>Objects that nothing refers to any more are disconnected, unless a thread overwrote their state late.\<close>

lemma unreferenced_disconnected:
  assumes "server_inv T {} s" and "\<not> referenced c s" and "srv_conns s c = Some w" and "no_late (trace w)"
  shows "conn_state (conn w) = Disconnected"
proof -
  have "c \<notin> live s" "SDestroy c \<notin> snd ` set (srv_queue s @ srv_batch s)"
    using assms(2) by (force simp: referenced_def live_def)+
  with assms show ?thesis
    using destroy_okD(4) [of "{}" s c w] by (auto simp: server_inv_def)
qed

definition on_time :: "server \<Rightarrow> bool" where
  "on_time s \<longleftrightarrow> (\<forall>c w. srv_conns s c = Some w \<longrightarrow> LateSet Disconnected \<notin> set (trace w))"

lemma release_on_time: "server_inv T {} s \<Longrightarrow> on_time s \<Longrightarrow> \<exists>s'. release c s = (s', Inr ()) \<and> on_time s'"
proof (cases "referenced c s \<or> srv_conns s c = None")
  case False
  assume a: "server_inv T {} s" "on_time s"
  from False obtain w where w: "srv_conns s c = Some w" "\<not> referenced c s" by auto
  with a have "conn_state (conn w) = Disconnected"
    using unreferenced_disconnected by (simp add: on_time_def no_late_iff)
  with w a(2) show ?thesis by (simp add: release_def TcpConnection_dtor_def on_time_def add_calls_def put_conn_def)
qed (auto simp: release_def split: option.splits)

lemma release_each_on_time: "server_inv T {} s \<Longrightarrow> on_time s \<Longrightarrow> \<exists>s'. do_each release cs s = (s', Inr ())"
proof (induction cs arbitrary: s)
  case (Cons c cs)
  obtain s1 where "release c s = (s1, Inr ())" "on_time s1" using release_on_time [OF Cons.prems] by blast
  with Cons.IH [of s1] release_inv [OF Cons.prems(1)] show ?case by (auto simp: then_do_def)
qed simp

lemma drops_return:
  assumes "server_inv T {} s" and "on_time s"
  shows "\<exists>s'. end_round l s = (s', Inr ())" and "\<exists>s'. user_drop c s = (s', Inr ())"
  using release_each_on_time [where s = "s\<lparr>srv_held := filter (\<lambda>e. fst e \<noteq> l) (srv_held s)\<rparr>" and T = T]
    release_on_time [where s = "s\<lparr>srv_users := remove1 c (srv_users s)\<rparr>" and T = T and c = c] assms
  by (auto simp: end_round_def user_drop_def on_time_def)

section \<open>Sample server\<close>

definition good_kernel :: kernel where
  "good_kernel = \<lparr>ret = (\<lambda>c. case c of SysSocket \<Rightarrow> 4 | SysAccept _ \<Rightarrow> 9 | _ \<Rightarrow> 0), errno = (\<lambda>_. 0), addr_of = (\<lambda>_. sample_addr)\<rparr>"

definition sample_server :: server where
  "sample_server = (case snd (TcpServer_ctor good_kernel (Some 1) 0 sample_addr ''s'') of Inr s \<Rightarrow> s)"

definition sample_running :: server where
  "sample_running = fst (TcpServer_start (\<lambda>i. i) good_kernel 0 sample_server)"

definition sample_serving :: server where
  "sample_serving = fst (accept_ready (\<lambda>l. 0) silent_cbs good_kernel 0 sample_running)"

lemma sample_server_start: "server_start (\<lambda>l. 0) sample_server"
proof -
  have "TcpServer_ctor good_kernel (Some 1) 0 sample_addr ''s''
      = (fst (TcpServer_ctor good_kernel (Some 1) 0 sample_addr ''s''), Inr sample_server)"
    by (simp add: sample_server_def TcpServer_ctor_def Acceptor_ctor_def acceptor_setup Socket_ctor_def good_kernel_def
        EventLoopThreadPool_ctor_def)
  then show ?thesis unfolding server_start_def by blast
qed

lemma sample_server_fields:
  "srv_tid sample_server = 0" "srv_loop sample_server = 1" "srv_name sample_server = ''s''" "connections sample_server = []"
  "nextConnId sample_server = 1" "\<not> srv_started sample_server" "srv_conns sample_server = (\<lambda>_. None)" "srv_next sample_server = 0"
  "threadPool sample_server = \<lparr>baseLoop = 1, base_tid = 0, numThreads = 0, pool_loops = [], next_counter = 0, pool_started = False\<rparr>"
  "\<exists>a. srv_acceptor sample_server = Some a \<and> acc_tid a = 0" "srv_queue sample_server = []"
  "srv_batch sample_server = []" "srv_held sample_server = []" "srv_users sample_server = []"
  by (simp_all add: sample_server_def TcpServer_ctor_def Acceptor_ctor_def acceptor_setup Socket_ctor_def good_kernel_def
        EventLoopThreadPool_ctor_def)

lemma sample_server_started: "TcpServer_start (\<lambda>i. i) good_kernel 0 sample_server = (sample_running, Inr ())"
proof -
  obtain a where a: "srv_acceptor sample_server = Some a" "acc_tid a = 0" using sample_server_fields(10) by blast
  have "snd (TcpServer_start (\<lambda>i. i) good_kernel 0 sample_server) = Inr ()"
    using a by (simp add: TcpServer_start_def Pool_start_def pool_assertInLoopThread_def listen_in_loop_def Acceptor_listen_def
        Socket_listen_def sys_check_def good_kernel_def sample_server_fields Let_def)
  then show ?thesis by (simp add: sample_running_def prod_eq_iff)
qed

lemma sample_running_fields:
  "srv_tid sample_running = 0" "srv_name sample_running = ''s''" "connections sample_running = []" "nextConnId sample_running = 1"
  "srv_started sample_running" "srv_next sample_running = 0" "srv_conns sample_running = (\<lambda>_. None)"
  "pool_started (threadPool sample_running)" "pool_loops (threadPool sample_running) = []"
  "base_tid (threadPool sample_running) = 0" "baseLoop (threadPool sample_running) = 1"
  "\<exists>a. srv_acceptor sample_running = Some a \<and> acc_tid a = 0" "srv_queue sample_running = []"
  "srv_batch sample_running = []" "srv_held sample_running = []" "srv_users sample_running = []"
proof -
  obtain a where a: "srv_acceptor sample_server = Some a" "acc_tid a = 0" using sample_server_fields(10) by blast
  show "srv_tid sample_running = 0" "srv_name sample_running = ''s''" "connections sample_running = []" "nextConnId sample_running = 1"
    "srv_started sample_running" "srv_next sample_running = 0" "srv_conns sample_running = (\<lambda>_. None)"
    "pool_started (threadPool sample_running)" "pool_loops (threadPool sample_running) = []"
    "base_tid (threadPool sample_running) = 0" "baseLoop (threadPool sample_running) = 1"
    "\<exists>a. srv_acceptor sample_running = Some a \<and> acc_tid a = 0" "srv_queue sample_running = []"
  "srv_batch sample_running = []" "srv_held sample_running = []" "srv_users sample_running = []"
    using a by (simp_all add: sample_running_def TcpServer_start_def Pool_start_def pool_assertInLoopThread_def
        listen_in_loop_def Acceptor_listen_def Socket_listen_def sys_check_def good_kernel_def sample_server_fields Let_def add_calls_def)
qed

lemma sample_accept:
  "accept_ready (\<lambda>l. 0) silent_cbs good_kernel 0 sample_running = (sample_serving, Inr ())"
  "\<exists>w. srv_conns sample_serving 0 = Some w \<and> conn_state (conn w) = Connected \<and> conn_name (conn w) = ''s#1''
     \<and> conn_thread (conn w) = 0 \<and> no_drop (trace w) \<and> no_late (trace w) \<and> srv_conns sample_serving = [0 \<mapsto> w] \<and> conn_loop (conn w) = 1 \<and> tied (conn_chan (conn w))
     \<and> tie_obj (conn_chan (conn w)) = Some 0"
  "connections sample_serving = [(''s#1'', 0)]" "srv_tid sample_serving = 0" "srv_queue sample_serving = []"
  "srv_batch sample_serving = []" "srv_held sample_serving = []" "srv_users sample_serving = []" "srv_next sample_serving = 1"
proof -
  obtain a where a: "srv_acceptor sample_running = Some a" "acc_tid a = 0" using sample_running_fields(12) by blast
  have key: "conn_key ''s'' 1 = ''s#1''"
    by (simp add: conn_key_def fmt_int_def dec.simps digit_char_def char_of_def bit_0)
  have "snd (accept_ready (\<lambda>l. 0) silent_cbs good_kernel 0 sample_running) = Inr () \<and>
    (\<exists>w. srv_conns sample_serving 0 = Some w \<and> conn_state (conn w) = Connected \<and> conn_name (conn w) = ''s#1''
       \<and> conn_thread (conn w) = 0 \<and> no_drop (trace w) \<and> no_late (trace w) \<and> srv_conns sample_serving = [0 \<mapsto> w] \<and> conn_loop (conn w) = 1 \<and> tied (conn_chan (conn w))
       \<and> tie_obj (conn_chan (conn w)) = Some 0) \<and>
    connections sample_serving = [(''s#1'', 0)] \<and> srv_tid sample_serving = 0 \<and> srv_queue sample_serving = []
      \<and> srv_batch sample_serving = [] \<and> srv_held sample_serving = [] \<and> srv_users sample_serving = [] \<and> srv_next sample_serving = 1"
    using a unfolding sample_serving_def
    by (simp add: accept_ready_def Acceptor_handleRead_def Socket_accept_def setSockAddr_def newConnection_def getNextLoop_def
        pool_assertInLoopThread_def getLocalAddr_def InetAddress_raw_def establish_def run_conn_def connectEstablished_def
        conn_assert_loop_def conn_in_loop_def TcpConnection_ctor_def call_optional_def server_cbs_eq silent_cbs_def
        new_closes_def then_do_def good_kernel_def sample_running_fields key int_max_def Let_def add_calls_def put_conn_def world_defs
        enableReading_mask_def tie_def)
  then show "accept_ready (\<lambda>l. 0) silent_cbs good_kernel 0 sample_running = (sample_serving, Inr ())"
    "\<exists>w. srv_conns sample_serving 0 = Some w \<and> conn_state (conn w) = Connected \<and> conn_name (conn w) = ''s#1''
       \<and> conn_thread (conn w) = 0 \<and> no_drop (trace w) \<and> no_late (trace w) \<and> srv_conns sample_serving = [0 \<mapsto> w] \<and> conn_loop (conn w) = 1 \<and> tied (conn_chan (conn w))
       \<and> tie_obj (conn_chan (conn w)) = Some 0"
    "connections sample_serving = [(''s#1'', 0)]" "srv_tid sample_serving = 0" "srv_queue sample_serving = []"
  "srv_batch sample_serving = []" "srv_held sample_serving = []" "srv_users sample_serving = []" "srv_next sample_serving = 1"
    by (simp_all add: sample_serving_def prod_eq_iff)
qed

lemma sample_serving_reachable: "reachable (server_start (\<lambda>l. 0)) (server_step (\<lambda>l. 0)) sample_serving"
proof -
  have "reachable (server_start (\<lambda>l. 0)) (server_step (\<lambda>l. 0)) sample_server"
    using sample_server_start by (rule reachable_start)
  then have "reachable (server_start (\<lambda>l. 0)) (server_step (\<lambda>l. 0)) sample_running"
    using srv_start [OF sample_server_started] by (rule reachable_step)
  then show ?thesis
    using srv_accept [OF silent_cbs_ok sample_accept(1)] by (rule reachable_step)
qed

section \<open>Properties\<close>

text \<open>C20. Connection names identify connections, in every reachable state of a server: no two connection objects
  share a name, the map sends each name to the connection that bears it, and the name the next
  connection will get is not in the map, so a new connection never replaces a live one.\<close>

theorem names_identify_connections:
  assumes "reachable (server_start T) (server_step T) s"
  shows "distinct (map fst (connections s)) \<and> distinct (map snd (connections s))
    \<and> conn_key (srv_name s) (nextConnId s) \<notin> fst ` set (connections s)
    \<and> \<not> (\<exists>c c' w w'. srv_conns s c = Some w \<and> srv_conns s c' = Some w' \<and> c \<noteq> c' \<and> conn_name (conn w) = conn_name (conn w'))"
proof -
  have h: "heap_ok T s" "map_ok s"
    using server.reachable_inv [OF assms] by (simp_all add: server_inv_def)
  note next_key_fresh(2) [OF h]
  moreover have "inj_on snd (set (connections s))"
  proof (rule inj_onI)
    fix x y assume "x \<in> set (connections s)" "y \<in> set (connections s)" "snd x = snd y"
    then show "x = y"
      using map_okD [OF h(2), of "fst x" "snd x"] map_okD [OF h(2), of "fst y" "snd y"]
      by (metis option.inject prod.collapse)
  qed
  moreover have "distinct (connections s)" "distinct (map fst (connections s))"
    using h(2) by (simp_all add: map_ok_def distinct_map)
  ultimately show ?thesis
    using heap_okD(5) [OF h(1)] by (force simp: distinct_map)
qed

theorem names_identify_connections_witness:
  "connections sample_serving = [(''s#1'', 0)] \<and> conn_key (srv_name sample_serving) (nextConnId sample_serving) \<notin> {''s#1''}"
  using names_identify_connections [OF sample_serving_reachable] sample_accept(3) by simp

text \<open>What \<^verbatim>\<open>start\<close> does: on a running server nothing; the first time, on the loop's own thread, the pool runs
  and the socket listens; on any other thread it aborts, and after a \<^verbatim>\<open>stop\<close> the pool refuses to
  start a second time, so a server cannot be restarted.\<close>

theorem start_behaviour:
  assumes "srv_tid s = base_tid (threadPool s)" and "srv_acceptor s = Some a" and "acc_tid a = srv_tid s"
  shows "TcpServer_start mk k me s =
    (if srv_started s then (s, Inr ())
     else if pool_started (threadPool s) then (s\<lparr>srv_started := True\<rparr>, Inl AssertFailed)
     else if me \<noteq> srv_tid s then (s\<lparr>srv_started := True\<rparr>, Inl Aborted)
     else listen_in_loop k me (s\<lparr>srv_started := True, threadPool :=
       (threadPool s)\<lparr>pool_started := True, pool_loops := pool_loops (threadPool s) @ map mk [0..<numThreads (threadPool s)]\<rparr>\<rparr>))"
  using assms
  by (auto simp: TcpServer_start_def Pool_start_def pool_assertInLoopThread_def start_threads_loops Let_def)

theorem start_behaviour_witness:
  "TcpServer_start (\<lambda>i. i) good_kernel 5 sample_server = (sample_server\<lparr>srv_started := True\<rparr>, Inl Aborted)"
proof -
  obtain a where a: "srv_acceptor sample_server = Some a" "acc_tid a = 0" using sample_server_fields(10) by blast
  with start_behaviour [of sample_server a "\<lambda>i. i" good_kernel 5] show ?thesis
    by (simp add: sample_server_fields)
qed

text \<open>The destructor of a server that still has connections, all of them on threads other than the calling one,
  aborts before anything is released.\<close>

theorem dtor_aborts_on_foreign_connections:
  assumes "map snd (connections s) = c # cs" and "srv_conns s c = Some w" and "conn_thread (conn w) \<noteq> me"
  shows "TcpServer_dtor ucb me s = (s, Inl Aborted)"
  using assms
  by (simp add: TcpServer_dtor_def then_do_def run_conn_def connectDestroyed_def conn_assert_loop_def conn_in_loop_def)

theorem dtor_aborts_on_foreign_connections_witness:
  "TcpServer_dtor silent_cbs 5 sample_serving = (sample_serving, Inl Aborted)"
proof -
  obtain w where w: "srv_conns sample_serving 0 = Some w" "conn_thread (conn w) = 0" using sample_accept(2) by blast
  with dtor_aborts_on_foreign_connections [of sample_serving 0 "[]" w 5 silent_cbs] show ?thesis
    by (simp add: sample_accept(3))
qed



section \<open>The end of a connection\<close>

lemma destroy_disconnected:
  assumes "conn_inv w" and "conn_state (conn w) = Disconnected" and "conn_thread (conn w) = me" and "srv_conns s c = Some w"
  shows "run_server_task ucb wr k me (SDestroy c) s = (put_conn c (Some (set_state Disconnected w)) s, Inr ())"
proof -
  have "run_task (server_cbs ucb) wr me DestroyTask w = Inr (set_state Disconnected w)"
    using assms(1-3) by (simp add: connectDestroyed_def conn_assert_loop_def conn_in_loop_def conn_inv_def set_state_def Let_def)
  moreover have "new_closes w (set_state Disconnected w) = 0" by (simp add: new_closes_def set_state_def)
  ultimately show ?thesis
    using assms(4) by (simp add: run_conn_def del: run_task.simps)
qed

text \<open>The peer of the sample connection closes it.\<close>

definition peer_closes :: "conn_world \<Rightarrow> conn_world res" where
  "peer_closes = handle_event (server_cbs silent_cbs) take_all (\<lambda>_. Inl 35) (\<lambda>_. True) 0 kCloseEvent"

definition sample_closed :: server where
  "sample_closed = fst (run_conn 0 peer_closes 0 sample_serving)"

definition sample_swapped :: server where
  "sample_swapped = swap_functors 1 sample_closed"

lemma peer_closes_run:
  assumes w: "srv_conns s 0 = Some w" "conn_state (conn w) = Connected" "conn_thread (conn w) = 0" "conn_name (conn w) = ''s#1''"
      "conn_loop (conn w) = 1" "tied (conn_chan (conn w))" "tie_obj (conn_chan (conn w)) = Some 0"
    and s: "connections s = [(''s#1'', 0)]" "srv_tid s = 0"
  shows "\<exists>w'. run_conn 0 peer_closes 0 s = (queue_task 1 (SDestroy 0) (put_conn 0 (Some w') (s\<lparr>connections := []\<rparr>)), Inr ())
    \<and> conn_state (conn w') = Disconnected \<and> conn_thread (conn w') = 0
    \<and> trace w' = trace w @ [Interest False False, ChanDisabled, CbConnection Disconnected, CbClose, Queued DestroyTask]"
proof -
  let ?w1 = "emit CbClose (emit (CbConnection Disconnected) (disable_all (set_state Disconnected w)))"
  have f: "peer_closes w = Inr ?w1"
    using w(2,3,6,7) by (simp add: peer_closes_def handle_event_def handleEvent_def handleEventWithGuard_def call_if_def conn_channel_callbacks_def
        event_masks handleClose_def conn_assert_loop_def conn_in_loop_def call_optional_def call_required_def
        silent_cbs_def server_cbs_eq setRevents_def set_state_def disable_all_def update_interest_def set_chan_def emit_def)
  have "new_closes w ?w1 = 1"
    by (simp add: new_closes_def world_defs)
  with w f s show ?thesis
    by (intro exI [of _ "emit (Queued DestroyTask) ?w1"])
       (simp add: run_conn_def removeConnection_def removeConnectionInLoop_def put_conn_def map_erase_def then_do_def world_defs)
qed

lemma peer_closes_step:
  assumes "run_conn 0 peer_closes 0 s = (s', Inr ())"
  shows "server_step T s s'"
proof -
  have "readv_documented (\<lambda>_. Inl 35)" by (simp add: readv_documented_def)
  from srv_conn_event [OF silent_cbs_ok take_all_documented this] assms show ?thesis unfolding peer_closes_def by blast
qed

lemma sample_closed:
  "reachable (server_start (\<lambda>l. 0)) (server_step (\<lambda>l. 0)) sample_closed" "connections sample_closed = []"
  "srv_queue sample_closed = [(1, SDestroy 0)]" "srv_batch sample_closed = []" "srv_held sample_closed = []"
  "srv_users sample_closed = []" "srv_next sample_closed = 1"
  "\<exists>w. srv_conns sample_closed = [0 \<mapsto> w] \<and> conn_state (conn w) = Disconnected \<and> conn_thread (conn w) = 0 \<and> no_late (trace w)"
proof -
  obtain v where v: "srv_conns sample_serving 0 = Some v" "conn_state (conn v) = Connected" "conn_thread (conn v) = 0" "conn_name (conn v) = ''s#1''"
      "conn_loop (conn v) = 1" "tied (conn_chan (conn v))" "tie_obj (conn_chan (conn v)) = Some 0" "no_late (trace v)" "srv_conns sample_serving = [0 \<mapsto> v]"
    using sample_accept(2) by auto
  obtain w where r: "run_conn 0 peer_closes 0 sample_serving
        = (queue_task 1 (SDestroy 0) (put_conn 0 (Some w) (sample_serving\<lparr>connections := []\<rparr>)), Inr ())"
      "conn_state (conn w) = Disconnected" "conn_thread (conn w) = 0" "no_late (trace w)"
    using peer_closes_run [OF v(1-7)] v(8) sample_accept(3,4) by auto
  then have "server_step (\<lambda>l. 0) sample_serving sample_closed" by (intro peer_closes_step) (simp add: sample_closed_def)
  with sample_serving_reachable show "reachable (server_start (\<lambda>l. 0)) (server_step (\<lambda>l. 0)) sample_closed" by (rule reachable_step)
  show "connections sample_closed = []" "srv_queue sample_closed = [(1, SDestroy 0)]" "srv_batch sample_closed = []"
    "srv_held sample_closed = []" "srv_users sample_closed = []" "srv_next sample_closed = 1"
    using r(1) by (simp_all add: sample_closed_def queue_task_def put_conn_def sample_accept)
  show "\<exists>w. srv_conns sample_closed = [0 \<mapsto> w] \<and> conn_state (conn w) = Disconnected \<and> conn_thread (conn w) = 0 \<and> no_late (trace w)"
    using r v(9) by (intro exI [of _ w]) (simp add: sample_closed_def queue_task_def put_conn_def)
qed

lemma sample_swapped:
  "reachable (server_start (\<lambda>l. 0)) (server_step (\<lambda>l. 0)) sample_swapped" "connections sample_swapped = []"
  "srv_queue sample_swapped = []" "srv_batch sample_swapped = [(1, SDestroy 0)]" "srv_held sample_swapped = []"
  "srv_users sample_swapped = []" "srv_conns sample_swapped = srv_conns sample_closed" "srv_next sample_swapped = 1"
  using reachable_step [OF sample_closed(1) srv_swap [of 1]] sample_closed(2-7)
  by (simp_all add: sample_swapped_def swap_functors_def)

text \<open>The loop runs the functor that destroys the connection; its reference goes when the round ends.\<close>

definition sample_destroyed :: server where
  "sample_destroyed =
     fst (run_server_task silent_cbs take_all good_kernel 0 (SDestroy 0) (sample_swapped\<lparr>srv_batch := [], srv_held := [(1, SDestroy 0)]\<rparr>))"

lemma sample_destroyed:
  "reachable (server_start (\<lambda>l. 0)) (server_step (\<lambda>l. 0)) sample_destroyed" "connections sample_destroyed = []"
  "srv_queue sample_destroyed = []" "srv_batch sample_destroyed = []" "srv_held sample_destroyed = [(1, SDestroy 0)]" "srv_users sample_destroyed = []"
  "\<exists>w. srv_conns sample_destroyed = [0 \<mapsto> w] \<and> LateSet Disconnected \<notin> set (trace w)"
  "srv_next sample_destroyed = 1"
proof -
  obtain w where w: "srv_conns sample_swapped 0 = Some w" "srv_conns sample_swapped = [0 \<mapsto> w]" "conn_state (conn w) = Disconnected" "conn_thread (conn w) = 0"
      "LateSet Disconnected \<notin> set (trace w)"
    using sample_closed(8) by (auto simp: sample_swapped(7) no_late_iff)
  let ?s = "sample_swapped\<lparr>srv_batch := [] @ [], srv_held := srv_held sample_swapped @ [(1, SDestroy 0)]\<rparr>"
  have "conn_inv w"
    using connection.reachable_inv heap_okD(2) w(1) server.reachable_inv [OF sample_swapped(1)] by (metis server_inv_def)
  then have run: "run_server_task silent_cbs take_all good_kernel 0 (SDestroy 0) ?s = (put_conn 0 (Some (set_state Disconnected w)) ?s, Inr ())"
    using destroy_disconnected [of w 0 ?s 0] w by simp
  then have d: "sample_destroyed = put_conn 0 (Some (set_state Disconnected w)) ?s"
    by (simp add: sample_destroyed_def sample_swapped(5))
  have "server_step (\<lambda>l. 0) sample_swapped sample_destroyed"
    using srv_task [OF silent_cbs_ok take_all_documented, of sample_swapped "[]" 1 "SDestroy 0" "[]" good_kernel "\<lambda>l. 0" sample_destroyed] run d sample_swapped(4)
    by simp
  with sample_swapped(1) show "reachable (server_start (\<lambda>l. 0)) (server_step (\<lambda>l. 0)) sample_destroyed" by (rule reachable_step)
  show "connections sample_destroyed = []" "srv_queue sample_destroyed = []" "srv_batch sample_destroyed = []"
    "srv_held sample_destroyed = [(1, SDestroy 0)]" "srv_users sample_destroyed = []" "srv_next sample_destroyed = 1"
    by (simp_all add: d put_conn_def sample_swapped)
  show "\<exists>w. srv_conns sample_destroyed = [0 \<mapsto> w] \<and> LateSet Disconnected \<notin> set (trace w)"
    using w(2,5) by (intro exI [of _ "set_state Disconnected w"]) (simp add: d put_conn_def set_state_def)
qed

text \<open>C17. Connections are destroyed exactly when they may be, in every reachable state of a server: every connection
  object that exists is referenced; \<^verbatim>\<open>connectDestroyed\<close> has been queued once for a connection that was in the
  map and left it, however often its close callback ran, and not before. A round of a loop that ends and
  a user who drops a pointer destroy exactly the objects they held the last reference to, and the
  assertion of the destructor holds for each, so both return; provided that no \<^verbatim>\<open>shutdown\<close> or \<^verbatim>\<open>forceClose\<close> on
  another thread overwrote the state of a closed connection.\<close>

theorem destroyed_once_when_disconnected:
  assumes "reachable (server_start T) (server_step T) s"
  shows "(\<forall>c. srv_conns s c \<noteq> None \<longrightarrow> referenced c s)
    \<and> count_list (srv_log s) (SDestroy c) = (if c \<in> snd ` set (connections s) \<or> srv_next s \<le> c then 0 else 1)
    \<and> ((\<forall>c w. srv_conns s c = Some w \<longrightarrow> LateSet Disconnected \<notin> set (trace w)) \<longrightarrow>
        (\<exists>s'. end_round l s = (s', Inr ()) \<and>
          srv_conns s' = (\<lambda>c. if referenced c (s\<lparr>srv_held := filter (\<lambda>e. fst e \<noteq> l) (srv_held s)\<rparr>) then srv_conns s c else None))
      \<and> (\<exists>s'. user_drop c s = (s', Inr ()) \<and>
          srv_conns s' = (\<lambda>x. if referenced x (s\<lparr>srv_users := remove1 c (srv_users s)\<rparr>) then srv_conns s x else None)))"
proof (intro conjI impI)
  have inv: "server_inv T {} s" by (rule server.reachable_inv [OF assms])
  have ref: "ref_ok s" by (rule reachable_ref [OF assms])
  then show "\<forall>c. srv_conns s c \<noteq> None \<longrightarrow> referenced c s" by (simp add: ref_ok_def)
  show "count_list (srv_log s) (SDestroy c) = (if c \<in> snd ` set (connections s) \<or> srv_next s \<le> c then 0 else 1)"
    using inv destroy_okD(2) [of "{}" s c] by (simp add: server_inv_def destroys_def live_def)
  assume "\<forall>c w. srv_conns s c = Some w \<longrightarrow> LateSet Disconnected \<notin> set (trace w)"
  then have "on_time s" by (simp add: on_time_def)
  then obtain s1 s2 where ret: "end_round l s = (s1, Inr ())" "user_drop c s = (s2, Inr ())"
    using drops_return [OF inv] by blast
  show "\<exists>s'. end_round l s = (s', Inr ()) \<and>
      srv_conns s' = (\<lambda>c. if referenced c (s\<lparr>srv_held := filter (\<lambda>e. fst e \<noteq> l) (srv_held s)\<rparr>) then srv_conns s c else None)"
    using ret(1) end_round_frees(1) [OF ref ret(1)] by blast
  show "\<exists>s'. user_drop c s = (s', Inr ()) \<and>
      srv_conns s' = (\<lambda>x. if referenced x (s\<lparr>srv_users := remove1 c (srv_users s)\<rparr>) then srv_conns s x else None)"
    using ret(2) user_drop_frees(1) [OF ref ret(2)] by blast
qed

theorem destroyed_once_when_disconnected_witness:
  "\<exists>s'. srv_conns sample_destroyed 0 \<noteq> None \<and> count_list (srv_log sample_destroyed) (SDestroy 0) = 1
     \<and> end_round 1 sample_destroyed = (s', Inr ()) \<and> srv_conns s' 0 = None"
proof -
  obtain w where w: "srv_conns sample_destroyed = [0 \<mapsto> w]" "LateSet Disconnected \<notin> set (trace w)" using sample_destroyed(7) by blast
  have "\<not> referenced 0 (sample_destroyed\<lparr>srv_held := filter (\<lambda>e. fst e \<noteq> 1) (srv_held sample_destroyed)\<rparr>)"
    by (simp add: referenced_def sample_destroyed)
  with destroyed_once_when_disconnected [where c = 0 and l = 1, OF sample_destroyed(1)] w show ?thesis
    by (auto simp: sample_destroyed(2,8) split: if_splits)
qed

end
