(* ===== verification/AsyncLifetime.thy ===== *)
theory AsyncLifetime
  imports AsyncServer TcpServer
begin

text \<open>
  The awaitable server as an object (\<^verbatim>\<open>include/hayai/coro/AsyncServer.h\<close>, \<^verbatim>\<open>src/coro/AsyncServer.cc\<close>): construction on top of a
  \<^verbatim>\<open>TcpServer\<close>, the forwarding members, and destruction in the order of the language.
\<close>

section \<open>The object\<close>

text \<open>\<open>as_members\<close> are the members after \<^verbatim>\<open>server_\<close>: the queue and the waiting handle; \<open>None\<close> once they are destroyed.\<close>

record async_server_obj =
  as_tcp :: server
  as_members :: "async_server option"

definition AsyncServer_ctor :: "kernel \<Rightarrow> nat option \<Rightarrow> nat \<Rightarrow> sockaddr_in \<Rightarrow> string \<Rightarrow> async_world \<Rightarrow> nat \<Rightarrow> async_server_obj sys" where
  "AsyncServer_ctor k lp tid addr name W n =
     bind_sys (TcpServer_ctor k lp tid addr name)
       (\<lambda>s. ([], Inr \<lparr>as_tcp = s,
          as_members = Some \<lparr>as_world = W, next_addr = n, pendingConnections = [], acceptCoroutine = None, as_resumes = []\<rparr>\<rparr>))"

definition on_tcp :: "(server \<Rightarrow> server outcome) \<Rightarrow> async_server_obj \<Rightarrow> async_server_obj outcome" where
  "on_tcp f S = (case f (as_tcp S) of (s, r) \<Rightarrow> (S\<lparr>as_tcp := s\<rparr>, r))"

definition AsyncServer_start :: "(nat \<Rightarrow> nat) \<Rightarrow> kernel \<Rightarrow> nat \<Rightarrow> async_server_obj \<Rightarrow> async_server_obj outcome" where
  "AsyncServer_start mk k me S = on_tcp (TcpServer_start mk k me) S"

definition AsyncServer_setIoLoopNum :: "nat \<Rightarrow> async_server_obj \<Rightarrow> async_server_obj outcome" where
  "AsyncServer_setIoLoopNum n S = on_tcp (setIoLoopNum n) S"

definition AsyncServer_name :: "async_server_obj \<Rightarrow> string" where
  "AsyncServer_name S = TcpServer_name (as_tcp S)"

definition AsyncServer_getLoop :: "async_server_obj \<Rightarrow> nat" where
  "AsyncServer_getLoop S = TcpServer_getLoop (as_tcp S)"

section \<open>Destruction\<close>

text \<open>
  Members go in reverse order: the queue with the wrappers in it, then \<^verbatim>\<open>server_\<close>, whose destructor may
  still invoke the connection callback. That callback captured \<^verbatim>\<open>this\<close>: for a connected connection it
  locks the mutex and pushes to the queue, which are gone; otherwise it does nothing.
\<close>

fun destroy_wrappers :: "nat list \<Rightarrow> async_world \<Rightarrow> async_world res" where
  "destroy_wrappers [] W = Inr W"
| "destroy_wrappers (a # as) W = bind_res (AsyncConnection_dtor a W) (destroy_wrappers as)"

definition late_callback :: "conn_world \<Rightarrow> conn_world res" where
  "late_callback w = (if connected (conn w) then Inl UseAfterFree else Inr w)"

definition late_cbs :: conn_cbs where
  "late_cbs = TcpServer_setConnectionCallback (Some late_callback) no_cbs"

definition AsyncServer_dtor :: "nat \<Rightarrow> async_server_obj \<Rightarrow> async_server_obj outcome" where
  "AsyncServer_dtor me S =
     (case as_members S of
        None \<Rightarrow> (S, Inl UseAfterFree)
      | Some M \<Rightarrow>
          (case destroy_wrappers (pendingConnections M) (as_world M) of
             Inl e \<Rightarrow> (S, Inl e)
           | Inr W \<Rightarrow> on_tcp (TcpServer_dtor late_cbs me) (S\<lparr>as_members := None\<rparr>)))"

section \<open>Properties\<close>

lemma late_cbs_simps: "connectionCb (server_cbs late_cbs) = Some late_callback" "closeCb (server_cbs late_cbs) = Some Inr"
  by (simp_all add: server_cbs_eq late_cbs_def TcpServer_setConnectionCallback_def)

lemma connectDestroyed_late:
  "connectDestroyed (server_cbs late_cbs) me w =
     (if \<not> conn_in_loop me w then Inl Aborted
      else if conn_state (conn w) = Connected then Inl UseAfterFree
      else let w1 = set_state Disconnected w in Inr (if 0 \<le> index (conn_chan (conn w1)) then emit ChanRemoved w1 else w1))"
proof -
  have "connected (conn (emit e (disable_all w)))" if "conn_state (conn w) = Connected" for e
    using that by (simp add: connected_def world_defs)
  then show ?thesis
    by (simp add: connectDestroyed_def conn_assert_loop_def late_cbs_simps late_callback_def call_optional_def)
qed
text \<open>The first connection in the way of the destructor, and how.\<close>

fun first_obstacle :: "nat \<Rightarrow> conn_world list \<Rightarrow> fault option" where
  "first_obstacle me [] = None"
| "first_obstacle me (w # ws) =
     (if \<not> conn_in_loop me w then Some Aborted
      else if conn_state (conn w) = Connected then Some UseAfterFree
      else first_obstacle me ws)"

lemma first_obstacle_None:
  "first_obstacle me ws = None \<longleftrightarrow> (\<forall>w \<in> set ws. conn_thread (conn w) = me \<and> conn_state (conn w) \<noteq> Connected)"
  by (induction ws) (auto simp: conn_in_loop_def)

lemma destroyed_in_turn:
  assumes "map (srv_conns s) cs = map Some ws" and "distinct cs"
  shows "\<exists>s'. do_each (\<lambda>c. run_conn me (connectDestroyed (server_cbs late_cbs) me) c) cs s
    = (s', case first_obstacle me ws of None \<Rightarrow> Inr () | Some e \<Rightarrow> Inl e)"
  using assms
proof (induction cs arbitrary: s ws)
  case (Cons c cs)
  then obtain w ws' where ws: "ws = w # ws'" "srv_conns s c = Some w" "map (srv_conns s) cs = map Some ws'"
    by (cases ws) auto
  show ?case
  proof (cases "first_obstacle me [w]")
    case None
    define w' where "w' = (let w1 = set_state Disconnected w in if 0 \<le> index (conn_chan (conn w1)) then emit ChanRemoved w1 else w1)"
    have "new_closes w w' = 0" by (simp add: new_closes_def w'_def Let_def set_state_def emit_def)
    moreover have "connectDestroyed (server_cbs late_cbs) me w = Inr w'"
      using None by (auto simp: connectDestroyed_late w'_def Let_def split: if_splits)
    ultimately have "run_conn me (connectDestroyed (server_cbs late_cbs) me) c s = (put_conn c (Some w') s, Inr ())"
      using ws(2) by (simp add: run_conn_def)
    moreover have "map (srv_conns (put_conn c (Some w') s)) cs = map Some ws'"
    proof -
      have "map (srv_conns (put_conn c (Some w') s)) cs = map (srv_conns s) cs"
        using Cons.prems(2) by (intro map_cong) (auto simp: put_conn_def)
      with ws(3) show ?thesis by simp
    qed
    ultimately show ?thesis
      using Cons.IH [of "put_conn c (Some w') s" ws'] Cons.prems(2) None ws(1) by (simp add: then_do_def split: if_splits)
  next
    case (Some e)
    then show ?thesis
      using ws(1,2) by (auto simp: then_do_def run_conn_def connectDestroyed_late split: if_splits)
  qed
qed (auto split: option.splits)

text \<open>The connections of the map, in its order; in a reachable server each of them exists and is named once.\<close>

definition mapped :: "server \<Rightarrow> conn_world list" where
  "mapped s = map (\<lambda>e. the (srv_conns s (snd e))) (connections s)"

lemma map_connections:
  assumes "map_ok s"
  shows "map (srv_conns s) (map snd (connections s)) = map Some (mapped s)" "distinct (map snd (connections s))"
proof -
  have m: "\<exists>w. srv_conns s (snd e) = Some w \<and> conn_name (conn w) = fst e" if "e \<in> set (connections s)" for e
    using assms that by (auto simp: map_ok_def)
  then show "map (srv_conns s) (map snd (connections s)) = map Some (mapped s)"
    unfolding mapped_def by fastforce
  have "inj_on snd (set (connections s))"
    by (rule inj_onI) (use m in \<open>metis option.inject prod.collapse\<close>)
  moreover have "distinct (connections s)" using assms by (simp add: map_ok_def distinct_map)
  ultimately show "distinct (map snd (connections s))" by (simp add: distinct_map)
qed

lemma destroy_wrappers_ok:
  "distinct as \<Longrightarrow> \<forall>a \<in> set as. conn_of W a \<noteq> None \<Longrightarrow> \<exists>W'. destroy_wrappers as W = Inr W'"
proof (induction as arbitrary: W)
  case (Cons a as)
  then obtain W1 where W1: "AsyncConnection_dtor a W = Inr W1"
    by (auto simp: AsyncConnection_dtor_def with_ac_def conn_of_def split: option.splits)
  have "\<forall>b \<in> set as. conn_of W1 b \<noteq> None" using Cons.prems conn_of_dtor [OF W1] by auto
  with Cons W1 show ?case by auto
qed simp

text \<open>C29. Destroying an awaitable server that still has clients does not work, in any reachable state of its server:
  the first client that belongs to another thread aborts the program; the first one that is still
  connected makes the callback run on the members that were destroyed before; the destructor can only
  return when every client left in the map is on the calling thread and no longer connected.\<close>

theorem async_server_dtor_with_clients:
  assumes "reachable (server_start T) (server_step T) (as_tcp S)" and "as_members S = Some M" and "accept_good M"
  shows "(\<forall>e. first_obstacle me (mapped (as_tcp S)) = Some e \<longrightarrow> snd (AsyncServer_dtor me S) = Inl e)
    \<and> (snd (AsyncServer_dtor me S) = Inr () \<longrightarrow>
        (\<forall>w \<in> set (mapped (as_tcp S)). conn_thread (conn w) = me \<and> conn_state (conn w) \<noteq> Connected))"
proof -
  let ?ws = "mapped (as_tcp S)"
  have m: "map_ok (as_tcp S)" using server.reachable_inv [OF assms(1)] by (simp add: server_inv_def)
  obtain W where W: "destroy_wrappers (pendingConnections M) (as_world M) = Inr W"
    using destroy_wrappers_ok [of "pendingConnections M" "as_world M"] assms(3) by (auto simp: accept_good_def)
  from destroyed_in_turn [OF map_connections [OF m], of me] obtain s' where
    "do_each (\<lambda>c. run_conn me (connectDestroyed (server_cbs late_cbs) me) c) (map snd (connections (as_tcp S))) (as_tcp S)
      = (s', case first_obstacle me ?ws of None \<Rightarrow> Inr () | Some e \<Rightarrow> Inl e)" by blast
  then have "snd (AsyncServer_dtor me S) = Inl e" if "first_obstacle me ?ws = Some e" for e
    using that assms(2) W by (simp add: AsyncServer_dtor_def on_tcp_def TcpServer_dtor_def then_do_def)
  then show ?thesis
    using first_obstacle_None [of me ?ws] by (cases "first_obstacle me ?ws") auto
qed

theorem async_server_dtor_with_clients_witness:
  "snd (AsyncServer_dtor 0 \<lparr>as_tcp = sample_serving, as_members = Some sample_async_server\<rparr>) = Inl UseAfterFree"
proof -
  let ?S = "\<lparr>as_tcp = sample_serving, as_members = Some sample_async_server\<rparr>"
  obtain w where w: "srv_conns sample_serving 0 = Some w" "conn_thread (conn w) = 0" "conn_state (conn w) = Connected"
    using sample_accept(2) by blast
  then have "first_obstacle 0 (mapped (as_tcp ?S)) = Some UseAfterFree"
    by (simp add: mapped_def sample_accept(3) conn_in_loop_def)
  moreover have "accept_good sample_async_server" by (simp add: accept_good_def sample_async_server_def)
  ultimately show ?thesis
    using async_server_dtor_with_clients [where S = ?S and me = 0 and M = sample_async_server] sample_serving_reachable by auto
qed

end
