(* ===== verification/Coroutine.thy ===== *)
theory Coroutine
  imports Hayai_Prelude
begin

text \<open>
  Coroutines: the promise types and awaiters of \<^verbatim>\<open>include/hayai/coro/Task.h\<close> and \<^verbatim>\<open>include/hayai/coro/Awaiter.h\<close>,
  over a heap of coroutine frames. A coroutine body is a possibly infinite tree of what it does between
  suspension points; a machine resumes frames the way compiled coroutines do, with control passed
  directly between a coroutine, the task it awaits and its continuation. \<open>'w\<close> is the state outside the
  frames that bodies read and change.
\<close>

section \<open>Values\<close>

text \<open>The result types \<^verbatim>\<open>Task\<close> is used with in the repository.\<close>

datatype ty = TInt | TString | TVoid

datatype val = VInt int | VString string | VVoid

fun ty_of :: "val \<Rightarrow> ty" where
  "ty_of (VInt i) = TInt"
| "ty_of (VString s) = TString"
| "ty_of VVoid = TVoid"

text \<open>
  \<^verbatim>\<open>value_\<close> of a new promise: an \<^verbatim>\<open>int\<close> is not initialised (\<open>garbage\<close> is what is there), a string is
  empty, \<^verbatim>\<open>Task<void>\<close> has no such member.
\<close>

fun fresh_value :: "int \<Rightarrow> ty \<Rightarrow> val" where
  "fresh_value garbage TInt = VInt garbage"
| "fresh_value garbage TString = VString []"
| "fresh_value garbage TVoid = VVoid"

section \<open>Coroutine bodies\<close>

text \<open>
  \<^item> \<open>Ret\<close>, \<open>Raise\<close>: \<^verbatim>\<open>co_return\<close> and an exception that leaves the body;
  \<^item> \<open>Do\<close>: statements without an await: they change the outside state and choose how the body goes on;
    \<open>Inl\<close> is undefined behaviour or the end of the program;
  \<^item> \<open>Park\<close>: an await whose \<^verbatim>\<open>await_suspend\<close> gets the coroutine's handle and returns control to whoever
    resumed the coroutine;
  \<^item> \<open>Call\<close>: \<^verbatim>\<open>co_await f()\<close> where \<^verbatim>\<open>f()\<close> is a coroutine that makes a temporary \<^verbatim>\<open>Task\<close> of the given type;
  \<^item> \<open>Join\<close>: \<^verbatim>\<open>co_await std::move(t)\<close> for a \<^verbatim>\<open>Task\<close> parameter of the coroutine.

  After an awaited task the rest of the body gets the value, or the exception \<^verbatim>\<open>await_resume\<close> rethrows,
  which it may catch.
\<close>

codatatype 'w prog =
    Ret val
  | Raise fault
  | Do "'w \<Rightarrow> ('w \<times> 'w prog) res"
  | Park "nat \<Rightarrow> 'w \<Rightarrow> 'w res" "'w prog"
  | Call ty "'w prog" "val res \<Rightarrow> 'w prog"
  | Join nat "val res \<Rightarrow> 'w prog"

text \<open>
  \<^verbatim>\<open>co_await\<close> of an awaiter with \<^verbatim>\<open>await_ready\<close>, an \<^verbatim>\<open>await_suspend\<close> that returns nothing, and
  \<^verbatim>\<open>await_resume\<close>, as the language expands it.
\<close>

definition co_await :: "('w \<Rightarrow> bool res) \<Rightarrow> (nat \<Rightarrow> 'w \<Rightarrow> 'w res) \<Rightarrow> ('w \<Rightarrow> ('r \<times> 'w) res) \<Rightarrow> ('r \<Rightarrow> 'w prog) \<Rightarrow> 'w prog" where
  "co_await ready suspend finish k =
     (let go_on = Do (\<lambda>w. bind_res (finish w) (\<lambda>(x, w'). Inr (w', k x))) in
      Do (\<lambda>w. bind_res (ready w) (\<lambda>b. Inr (w, if b then go_on else Park suspend go_on))))"

definition makeReadyAwaiter :: "'a \<Rightarrow> ('a \<Rightarrow> 'w prog) \<Rightarrow> 'w prog" where
  "makeReadyAwaiter v k = co_await (\<lambda>w. Inr True) (\<lambda>h. Inr) (\<lambda>w. Inr (v, w)) k"

definition SuspendNever :: "'w prog \<Rightarrow> 'w prog" where
  "SuspendNever p = co_await (\<lambda>w. Inr True) (\<lambda>h. Inr) (\<lambda>w. Inr ((), w)) (\<lambda>_. p)"

definition SuspendAlways :: "'w prog \<Rightarrow> 'w prog" where
  "SuspendAlways p = co_await (\<lambda>w. Inr False) (\<lambda>h. Inr) (\<lambda>w. Inr ((), w)) (\<lambda>_. p)"

text \<open>A statement that only changes the outside state.\<close>

definition stmt :: "('w \<Rightarrow> 'w) \<Rightarrow> 'w prog \<Rightarrow> 'w prog" where
  "stmt f p = Do (\<lambda>w. Inr (f w, p))"

text \<open>
  Bodies with loops: blocks of code that end or go on at a label; \<open>code\<close> says which block a label
  stands for.
\<close>

datatype (discs_sels) ('w, 'l) block =
    BRet val
  | BRaise fault
  | BDo "'w \<Rightarrow> ('w \<times> ('w, 'l) block) res"
  | BPark "nat \<Rightarrow> 'w \<Rightarrow> 'w res" "('w, 'l) block"
  | BNext 'l

primcorec prog_of :: "('l \<Rightarrow> ('w, 'l) block) \<Rightarrow> ('w, 'l) block \<Rightarrow> 'w prog" where
  "prog_of code b =
     (case b of
        BRet v \<Rightarrow> Ret v
      | BRaise e \<Rightarrow> Raise e
      | BDo f \<Rightarrow> Do (\<lambda>w. map_sum id (map_prod id (prog_of code)) (f w))
      | BPark f b' \<Rightarrow> Park f (prog_of code b')
      | BNext l \<Rightarrow> Do (\<lambda>w. map_sum id (map_prod id (prog_of code)) (Inr (w, code l))))"

definition co_await_block :: "('w \<Rightarrow> bool res) \<Rightarrow> (nat \<Rightarrow> 'w \<Rightarrow> 'w res) \<Rightarrow> ('w \<Rightarrow> ('r \<times> 'w) res) \<Rightarrow>
    ('r \<Rightarrow> ('w, 'l) block) \<Rightarrow> ('w, 'l) block" where
  "co_await_block ready suspend finish k =
     (let go_on = BDo (\<lambda>w. bind_res (finish w) (\<lambda>(x, w'). Inr (w', k x))) in
      BDo (\<lambda>w. bind_res (ready w) (\<lambda>b. Inr (w, if b then go_on else BPark suspend go_on))))"

lemma prog_of_simps [simp]:
  "prog_of code (BRet v) = Ret v"
  "prog_of code (BRaise e) = Raise e"
  "prog_of code (BDo f) = Do (\<lambda>w. map_sum id (map_prod id (prog_of code)) (f w))"
  "prog_of code (BPark g b) = Park g (prog_of code b)"
  "prog_of code (BNext l) = Do (\<lambda>w. Inr (w, prog_of code (code l)))"
  by (subst prog_of.code; simp)+

lemma prog_of_co_await:
  "prog_of code (co_await_block ready suspend finish k) = co_await ready suspend finish (\<lambda>x. prog_of code (k x))"
proof -
  have push: "map_sum id (map_prod id g) (bind_res m f) = bind_res m (\<lambda>x. map_sum id (map_prod id g) (f x))"
    for m :: "'x res" and f :: "'x \<Rightarrow> ('y \<times> 'z) res" and g :: "'z \<Rightarrow> 'u"
    by (cases m) simp_all
  show ?thesis
    by (simp add: co_await_block_def co_await_def Let_def push case_prod_unfold if_distrib [of "prog_of code"] cong: if_cong)
qed

section \<open>Frames\<close>

text \<open>
  \<open>Waiting keep t k\<close> is a coroutine suspended in the await of task \<open>t\<close>; without \<open>keep\<close> the task is a
  temporary of the await expression. \<open>AtEnd\<close> is the final suspension point.
\<close>

datatype 'w status = Run "'w prog" | Waiting bool nat "val res \<Rightarrow> 'w prog" | AtEnd

text \<open>
  The promise: value, exception and continuation; \<open>result_ty\<close> is the template argument, \<open>is_spawn\<close>
  marks the coroutine type of \<^verbatim>\<open>spawn\<close>, whose promise has \<open>spawn_loop\<close> only; \<open>params\<close> are the tasks the
  frame owns as parameters.
\<close>

record 'w frame =
  status :: "'w status"
  result_ty :: ty
  ret_value :: val
  exception :: "fault option"
  continuation :: "nat option"
  spawn_loop :: "nat option"
  is_spawn :: bool
  params :: "nat list"

text \<open>\<open>cleanups\<close> are the functors that spawned coroutines queued on their loop when they ended.\<close>

record 'w cstate =
  frames :: "nat \<Rightarrow> 'w frame option"
  next_frame :: nat
  cleanups :: "nat list"
  world :: 'w

text \<open>A call of a coroutine function: a frame suspended at its start.\<close>

definition new_frame :: "int \<Rightarrow> ty \<Rightarrow> 'w prog \<Rightarrow> 'w frame" where
  "new_frame garbage T p = \<lparr>status = Run p, result_ty = T, ret_value = fresh_value garbage T, exception = None,
     continuation = None, spawn_loop = None, is_spawn = False, params = []\<rparr>"

definition create :: "'w frame \<Rightarrow> 'w cstate \<Rightarrow> nat \<times> 'w cstate" where
  "create f S = (next_frame S, S\<lparr>frames := (frames S)(next_frame S \<mapsto> f), next_frame := Suc (next_frame S)\<rparr>)"

definition put_frame :: "nat \<Rightarrow> 'w frame option \<Rightarrow> 'w cstate \<Rightarrow> 'w cstate" where
  "put_frame h f S = S\<lparr>frames := (frames S)(h := f)\<rparr>"

text \<open>
  Destruction of a frame destroys the tasks it owns: its parameters and the temporary it waits for.
  The bound on the depth is the number of frames ever made.
\<close>

definition owned_tasks :: "'w frame \<Rightarrow> nat list" where
  "owned_tasks f = params f @ (case status f of Waiting keep t k \<Rightarrow> if keep then [] else [t] | _ \<Rightarrow> [])"

primrec destroy_frames :: "nat \<Rightarrow> nat list \<Rightarrow> 'w cstate \<Rightarrow> 'w cstate res" where
  "destroy_frames 0 hs S = (if hs = [] then Inr S else Inl Diverges)"
| "destroy_frames (Suc n) hs S =
     (case hs of
        [] \<Rightarrow> Inr S
      | h # hs' \<Rightarrow> (case frames S h of
            None \<Rightarrow> Inl UseAfterFree
          | Some f \<Rightarrow> destroy_frames n (owned_tasks f @ hs') (put_frame h None S)))"

definition destroy :: "nat \<Rightarrow> 'w cstate \<Rightarrow> 'w cstate res" where
  "destroy h S = destroy_frames (Suc (next_frame S)) [h] S"

section \<open>Awaiting a task\<close>

definition Task_await_suspend :: "nat \<Rightarrow> nat \<Rightarrow> 'w cstate \<Rightarrow> 'w cstate res" where
  "Task_await_suspend t cont S =
     (case frames S t of
        None \<Rightarrow> Inl UseAfterFree
      | Some g \<Rightarrow> Inr (put_frame t (Some (g\<lparr>continuation := Some cont\<rparr>)) S))"

text \<open>
  \<^verbatim>\<open>await_resume\<close> moves the value out of the promise. For an \<^verbatim>\<open>int\<close> that is a copy; a \<^verbatim>\<open>std::string\<close> is left in a valid
  but unspecified state, and the model takes the one in which it is unchanged. Only a second \<^verbatim>\<open>get\<close> or
  await of the same task could tell the difference.
\<close>

definition Task_await_resume :: "nat \<Rightarrow> 'w cstate \<Rightarrow> val res res" where
  "Task_await_resume t S =
     (case frames S t of
        None \<Rightarrow> Inl UseAfterFree
      | Some g \<Rightarrow> Inr (case exception g of Some e \<Rightarrow> Inl e | None \<Rightarrow> Inr (ret_value g)))"

text \<open>The specialisation for \<^verbatim>\<open>void\<close> has its own text for both.\<close>

definition TaskVoid_await_suspend :: "nat \<Rightarrow> nat \<Rightarrow> 'w cstate \<Rightarrow> 'w cstate res" where
  "TaskVoid_await_suspend t cont S =
     (case frames S t of
        None \<Rightarrow> Inl UseAfterFree
      | Some g \<Rightarrow> Inr (put_frame t (Some (g\<lparr>continuation := Some cont\<rparr>)) S))"

definition TaskVoid_await_resume :: "nat \<Rightarrow> 'w cstate \<Rightarrow> unit res res" where
  "TaskVoid_await_resume t S =
     (case frames S t of
        None \<Rightarrow> Inl UseAfterFree
      | Some g \<Rightarrow> Inr (case exception g of Some e \<Rightarrow> Inl e | None \<Rightarrow> Inr ()))"

text \<open>What an await expression of either kind yields.\<close>

definition as_val :: "unit res \<Rightarrow> val res" where
  "as_val r = bind_res r (\<lambda>_. Inr VVoid)"

definition await_result :: "ty \<Rightarrow> nat \<Rightarrow> 'w cstate \<Rightarrow> val res res" where
  "await_result T t S =
     (if T = TVoid then bind_res (TaskVoid_await_resume t S) (\<lambda>r. Inr (as_val r)) else Task_await_resume t S)"

section \<open>The end of a coroutine\<close>

text \<open>\<^verbatim>\<open>return_value\<close>, \<^verbatim>\<open>unhandled_exception\<close> and the final awaiter of \<^verbatim>\<open>Task<T>\<close>.\<close>

definition return_value :: "val \<Rightarrow> 'w frame \<Rightarrow> 'w frame" where
  "return_value v f = f\<lparr>ret_value := v\<rparr>"

definition unhandled_exception :: "fault \<Rightarrow> 'w frame \<Rightarrow> 'w frame" where
  "unhandled_exception e f = f\<lparr>exception := Some e\<rparr>"

definition Task_final_suspend :: "'w frame \<Rightarrow> nat option" where
  "Task_final_suspend f = (case continuation f of Some c \<Rightarrow> Some c | None \<Rightarrow> None)"

text \<open>The same of \<^verbatim>\<open>Task<void>\<close>.\<close>

definition TaskVoid_return_void :: "'w frame \<Rightarrow> 'w frame" where
  "TaskVoid_return_void f = f"

definition TaskVoid_unhandled_exception :: "fault \<Rightarrow> 'w frame \<Rightarrow> 'w frame" where
  "TaskVoid_unhandled_exception e f = f\<lparr>exception := Some e\<rparr>"

definition TaskVoid_final_suspend :: "'w frame \<Rightarrow> nat option" where
  "TaskVoid_final_suspend f = (case continuation f of Some c \<Rightarrow> Some c | None \<Rightarrow> None)"

text \<open>
  \<^verbatim>\<open>SpawnTask\<close>: an exception ends the program; at the end the coroutine queues its own destruction on
  its loop.
\<close>

definition SpawnTask_return_void :: "'w frame \<Rightarrow> 'w frame" where
  "SpawnTask_return_void f = f"

definition SpawnTask_unhandled_exception :: "fault \<Rightarrow> 'w frame \<Rightarrow> 'w frame res" where
  "SpawnTask_unhandled_exception e f = Inl Aborted"

definition SpawnTask_final_suspend :: "nat \<Rightarrow> 'w frame \<Rightarrow> 'w cstate \<Rightarrow> 'w cstate" where
  "SpawnTask_final_suspend h f S = (if spawn_loop f = None then S else S\<lparr>cleanups := cleanups S @ [h]\<rparr>)"

text \<open>Which of them a frame has.\<close>

definition finish_frame :: "val res \<Rightarrow> 'w frame \<Rightarrow> 'w frame res" where
  "finish_frame r f =
     bind_res
       (case r of
          Inr v \<Rightarrow> Inr (if is_spawn f then SpawnTask_return_void f
                     else if result_ty f = TVoid then TaskVoid_return_void f else return_value v f)
        | Inl e \<Rightarrow> if is_spawn f then SpawnTask_unhandled_exception e f
                   else Inr (if result_ty f = TVoid then TaskVoid_unhandled_exception e f else unhandled_exception e f))
       (\<lambda>f'. Inr (f'\<lparr>status := AtEnd\<rparr>))"

definition final_suspend :: "nat \<Rightarrow> 'w frame \<Rightarrow> 'w cstate \<Rightarrow> nat option \<times> 'w cstate" where
  "final_suspend h f S =
     (if is_spawn f then (None, SpawnTask_final_suspend h f S)
      else (if result_ty f = TVoid then TaskVoid_final_suspend f else Task_final_suspend f, S))"

section \<open>Resumption\<close>

text \<open>What one resumption does next: stop, with control back at the resumer, or go on with a handle.\<close>

datatype 'a jump = Stop 'a | Goto nat 'a

definition complete :: "nat \<Rightarrow> val res \<Rightarrow> 'w frame \<Rightarrow> 'w cstate \<Rightarrow> 'w cstate jump res" where
  "complete h r f S =
     bind_res (finish_frame r f)
       (\<lambda>f'. case final_suspend h f' (put_frame h (Some f') S) of
          (Some c, S') \<Rightarrow> Inr (Goto c S')
        | (None, S') \<Rightarrow> Inr (Stop S'))"

definition run_to_jump :: "int \<Rightarrow> nat \<Rightarrow> 'w frame \<Rightarrow> 'w prog \<Rightarrow> 'w cstate \<Rightarrow> 'w cstate jump res" where
  "run_to_jump garbage h f p S =
     (case p of
        Ret v \<Rightarrow> complete h (Inr v) f S
      | Raise e \<Rightarrow> complete h (Inl e) f S
      | Do act \<Rightarrow> bind_res (act (world S))
          (\<lambda>(w, q). Inr (Goto h (put_frame h (Some (f\<lparr>status := Run q\<rparr>)) (S\<lparr>world := w\<rparr>))))
      | Park suspend q \<Rightarrow> bind_res (suspend h (world S))
          (\<lambda>w. Inr (Stop (put_frame h (Some (f\<lparr>status := Run q\<rparr>)) (S\<lparr>world := w\<rparr>))))
      | Call T q k \<Rightarrow>
          (let (t, S1) = create (new_frame garbage T q) S;
               S2 = put_frame h (Some (f\<lparr>status := Waiting False t k\<rparr>)) S1 in
           bind_res (if T = TVoid then TaskVoid_await_suspend t h S2 else Task_await_suspend t h S2) (\<lambda>S3. Inr (Goto t S3)))
      | Join t k \<Rightarrow>
          bind_res (TaskVoid_await_suspend t h (put_frame h (Some (f\<lparr>status := Waiting True t k\<rparr>)) S)) (\<lambda>S1. Inr (Goto t S1)))"

text \<open>
  Resuming handle \<open>h\<close> once: from the start or a suspension point it runs on; a coroutine that waits
  for a task goes on with that task's \<^verbatim>\<open>await_resume\<close>, whether or not the task has ended, and a
  temporary task is destroyed.
\<close>

definition resume_step :: "int \<Rightarrow> nat \<Rightarrow> 'w cstate \<Rightarrow> 'w cstate jump res" where
  "resume_step garbage h S =
     (case frames S h of
        None \<Rightarrow> Inl UseAfterFree
      | Some f \<Rightarrow> (case status f of
            AtEnd \<Rightarrow> Inl ResumeDone
          | Run p \<Rightarrow> run_to_jump garbage h f p S
          | Waiting keep t k \<Rightarrow>
              (case frames S t of
                 None \<Rightarrow> Inl UseAfterFree
               | Some g \<Rightarrow>
                   bind_res (await_result (result_ty g) t S)
                     (\<lambda>r. bind_res (if keep then Inr S else destroy t S)
                       (\<lambda>S1. Inr (Goto h (put_frame h (Some (f\<lparr>status := Run (k r)\<rparr>)) S1)))))))"

text \<open>Control passes from handle to handle until it is back at the resumer; it may never be.\<close>

partial_function (option) resume :: "int \<Rightarrow> nat \<Rightarrow> 'w cstate \<Rightarrow> 'w cstate res option" where
  "resume garbage h S =
     (case resume_step garbage h S of
        Inl e \<Rightarrow> Some (Inl e)
      | Inr (Stop S') \<Rightarrow> Some (Inr S')
      | Inr (Goto h' S') \<Rightarrow> resume garbage h' S')"

section \<open>Direct-style meaning\<close>

text \<open>
  What a body does when awaits of tasks are read as calls: the specification of the machine.
  \<open>runs ho w p r w'\<close>: from outside state \<open>w\<close> body \<open>p\<close> ends with result \<open>r\<close> in \<open>w'\<close>. With \<open>ho = None\<close> it does
  not suspend; with \<open>ho = Some h\<close> it may suspend in its own frame, whose handle is \<open>h\<close>, and is resumed
  without delay. The result of a \<^verbatim>\<open>Task<void>\<close> is forgotten.
\<close>

definition seen :: "ty \<Rightarrow> val res \<Rightarrow> val res" where
  "seen T r = (if T = TVoid then bind_res r (\<lambda>_. Inr VVoid) else r)"

inductive runs :: "nat option \<Rightarrow> 'w \<Rightarrow> 'w prog \<Rightarrow> val res \<Rightarrow> 'w \<Rightarrow> bool" where
  runs_Ret: "runs ho w (Ret v) (Inr v) w"
| runs_Raise: "runs ho w (Raise e) (Inl e) w"
| runs_Do: "act w = Inr (w1, p) \<Longrightarrow> runs ho w1 p r w' \<Longrightarrow> runs ho w (Do act) r w'"
| runs_Park: "suspend h w = Inr w1 \<Longrightarrow> runs (Some h) w1 p r w' \<Longrightarrow> runs (Some h) w (Park suspend p) r w'"
| runs_Call: "runs None w q r1 w1 \<Longrightarrow> runs ho w1 (k (seen T r1)) r w' \<Longrightarrow> runs ho w (Call T q k) r w'"

inductive_cases runs_RetE [elim!]: "runs ho w (Ret v) r w'"
inductive_cases runs_RaiseE [elim!]: "runs ho w (Raise e) r w'"
inductive_cases runs_DoE: "runs ho w (Do act) r w'"
inductive_cases runs_ParkE: "runs ho w (Park suspend p) r w'"
inductive_cases runs_CallE: "runs ho w (Call T q k) r w'"

text \<open>To run a body symbolically: everything but awaited tasks is computed by simplification.\<close>

inductive_simps runs_Ret_iff [simp]: "runs ho w (Ret v) r w'"
inductive_simps runs_Raise_iff [simp]: "runs ho w (Raise e) r w'"
inductive_simps runs_Do_iff [simp]: "runs ho w (Do act) r w'"
inductive_simps runs_Park_iff [simp]: "runs ho w (Park suspend p) r w'"

text \<open>A body has one meaning.\<close>

lemma runs_deterministic: "runs ho w p r w' \<Longrightarrow> runs ho w p r2 w2 \<Longrightarrow> r2 = r \<and> w2 = w'"
proof (induction arbitrary: r2 w2 rule: runs.induct)
  case (runs_Do act w w1 p ho r w')
  from runs_Do.prems runs_Do.hyps(1) have "runs ho w1 p r2 w2" by (auto elim: runs_DoE)
  then show ?case by (rule runs_Do.IH)
next
  case (runs_Park suspend h w w1 p r w')
  from runs_Park.prems runs_Park.hyps(1) have "runs (Some h) w1 p r2 w2" by (auto elim: runs_ParkE)
  then show ?case by (rule runs_Park.IH)
next
  case (runs_Call w q r1 w1 ho k T r w')
  from runs_Call.prems runs_Call.IH(1) have "runs ho w1 (k (seen T r1)) r2 w2" by (fastforce elim: runs_CallE)
  then show ?case by (rule runs_Call.IH(2))
qed auto

definition heap_fresh :: "'w cstate \<Rightarrow> bool" where
  "heap_fresh S \<longleftrightarrow> (\<forall>a \<ge> next_frame S. frames S a = None)"

text \<open>The state in which a frame has ended with result \<open>r\<close>.\<close>

definition ended :: "val res \<Rightarrow> 'w frame \<Rightarrow> 'w frame" where
  "ended r f = (case r of Inr v \<Rightarrow> if result_ty f = TVoid then f\<lparr>status := AtEnd\<rparr> else f\<lparr>status := AtEnd, ret_value := v\<rparr>
                        | Inl e \<Rightarrow> f\<lparr>status := AtEnd, exception := Some e\<rparr>)"

section \<open>The machine computes the direct-style meaning\<close>

lemma resume_Goto: "resume_step g h S = Inr (Goto h' S') \<Longrightarrow> resume g h S = resume g h' S'"
  by (subst resume.simps) simp

lemma resume_Stop: "resume_step g h S = Inr (Stop S') \<Longrightarrow> resume g h S = Some (Inr S')"
  by (subst resume.simps) simp

lemma resume_Inl: "resume_step g h S = Inl e \<Longrightarrow> resume g h S = Some (Inl e)"
  by (subst resume.simps) simp

lemma void_same [simp]:
  "TaskVoid_await_suspend = Task_await_suspend" "TaskVoid_final_suspend = Task_final_suspend"
  "TaskVoid_unhandled_exception = unhandled_exception"
  by (simp_all add: fun_eq_iff TaskVoid_await_suspend_def Task_await_suspend_def TaskVoid_final_suspend_def
      Task_final_suspend_def TaskVoid_unhandled_exception_def unhandled_exception_def)

lemma Task_final_suspend_eq [simp]: "Task_final_suspend f = continuation f"
  by (simp add: Task_final_suspend_def split: option.split)

lemma run_to_jump_simps [simp]:
  "run_to_jump g h f (Ret v) S = complete h (Inr v) f S"
  "run_to_jump g h f (Raise e) S = complete h (Inl e) f S"
  "run_to_jump g h f (Do act) S = bind_res (act (world S))
     (\<lambda>(w, q). Inr (Goto h (put_frame h (Some (f\<lparr>status := Run q\<rparr>)) (S\<lparr>world := w\<rparr>))))"
  "run_to_jump g h f (Park suspend q) S = bind_res (suspend h (world S))
     (\<lambda>w. Inr (Stop (put_frame h (Some (f\<lparr>status := Run q\<rparr>)) (S\<lparr>world := w\<rparr>))))"
  "run_to_jump g h f (Call T q k) S =
     (let (t, S1) = create (new_frame g T q) S;
          S2 = put_frame h (Some (f\<lparr>status := Waiting False t k\<rparr>)) S1 in
      bind_res (Task_await_suspend t h S2) (\<lambda>S3. Inr (Goto t S3)))"
  "run_to_jump g h f (Join t k) S =
     bind_res (Task_await_suspend t h (put_frame h (Some (f\<lparr>status := Waiting True t k\<rparr>)) S)) (\<lambda>S1. Inr (Goto t S1))"
  by (simp_all add: run_to_jump_def Let_def create_def)

lemma put_frame_simps [simp]:
  "frames (put_frame h f S) = (frames S)(h := f)" "next_frame (put_frame h f S) = next_frame S"
  "cleanups (put_frame h f S) = cleanups S" "put_frame h f (put_frame h g S) = put_frame h f S"
  "world (put_frame h f S) = world S"
  by (simp_all add: put_frame_def)

lemma put_frame_world [simp]: "(put_frame h f S)\<lparr>world := w\<rparr> = put_frame h f (S\<lparr>world := w\<rparr>)"
  by (simp add: put_frame_def)

lemma put_frame_next [simp]: "(put_frame h f S)\<lparr>next_frame := n\<rparr> = put_frame h f (S\<lparr>next_frame := n\<rparr>)"
  by (simp add: put_frame_def)

lemma put_frame_same: "frames S h = f \<Longrightarrow> put_frame h f S = S"
  by (auto simp: put_frame_def)

lemma destroy_frames_Nil [simp]: "destroy_frames n [] S = Inr S"
  by (cases n) simp_all

lemma destroy_leaf: "frames S t = Some g \<Longrightarrow> owned_tasks g = [] \<Longrightarrow> destroy t S = Inr (put_frame t None S)"
  by (simp add: destroy_def)

lemma ended_status [simp]: "ended r (f\<lparr>status := st\<rparr>) = ended r f"
  by (simp add: ended_def split: sum.splits)

lemma ended_fields [simp]:
  "status (ended r f) = AtEnd" "result_ty (ended r f) = result_ty f" "continuation (ended r f) = continuation f"
  "params (ended r f) = params f" "is_spawn (ended r f) = is_spawn f" "owned_tasks (ended r f) = params f"
  by (simp_all add: ended_def owned_tasks_def split: sum.splits)

lemma finish_frame_ended: "\<not> is_spawn f \<Longrightarrow> finish_frame r f = Inr (ended r f)"
  by (auto simp: finish_frame_def ended_def TaskVoid_return_void_def return_value_def unhandled_exception_def split: sum.splits)

text \<open>What the awaiting coroutine gets of a task that has ended.\<close>

lemma await_result_ended:
  "frames S t = Some (ended r f) \<Longrightarrow> exception f = None \<Longrightarrow> result_ty f = T \<Longrightarrow> await_result T t S = Inr (seen T r)"
  by (auto simp: await_result_def TaskVoid_await_resume_def Task_await_resume_def as_val_def seen_def ended_def
      split: sum.splits)

text \<open>
  \<open>runs_to g h f r w S\<close>: resuming frame \<open>h\<close> runs it to its end with result \<open>r\<close> and outside state \<open>w\<close>,
  leaves every other frame as it was and the frames it made destroyed; then its continuation goes on,
  or control is back.
\<close>

definition runs_to :: "int \<Rightarrow> nat \<Rightarrow> 'w frame \<Rightarrow> val res \<Rightarrow> 'w \<Rightarrow> 'w cstate \<Rightarrow> bool" where
  "runs_to g h f r w S \<longleftrightarrow> (\<exists>n \<ge> next_frame S. resume g h S =
     (let S' = put_frame h (Some (ended r f)) (S\<lparr>next_frame := n, world := w\<rparr>) in
      case continuation f of None \<Rightarrow> Some (Inr S') | Some c \<Rightarrow> resume g c S'))"

definition at_point :: "nat \<Rightarrow> 'w frame \<Rightarrow> 'w prog \<Rightarrow> 'w cstate \<Rightarrow> bool" where
  "at_point h f p S \<longleftrightarrow> frames S h = Some f \<and> status f = Run p \<and> heap_fresh S \<and> h < next_frame S
     \<and> \<not> is_spawn f \<and> exception f = None"

lemma at_point_go_on:
  "at_point h f p S \<Longrightarrow> next_frame S \<le> n \<Longrightarrow>
     at_point h (f\<lparr>status := Run q\<rparr>) q (put_frame h (Some (f\<lparr>status := Run q\<rparr>)) (S\<lparr>next_frame := n, world := w\<rparr>))"
  by (auto simp: at_point_def heap_fresh_def)

lemma runs_to_from:
  assumes "resume g h S = resume g h (put_frame h (Some (f\<lparr>status := st\<rparr>)) (S\<lparr>next_frame := n, world := w1\<rparr>))"
    and "next_frame S \<le> n"
    and "runs_to g h (f\<lparr>status := st\<rparr>) r w (put_frame h (Some (f\<lparr>status := st\<rparr>)) (S\<lparr>next_frame := n, world := w1\<rparr>))"
  shows "runs_to g h f r w S"
proof -
  obtain m where "n \<le> m" and m: "resume g h (put_frame h (Some (f\<lparr>status := st\<rparr>)) (S\<lparr>next_frame := n, world := w1\<rparr>)) =
     (let S' = put_frame h (Some (ended r f)) (S\<lparr>next_frame := m, world := w\<rparr>) in
      case continuation f of None \<Rightarrow> Some (Inr S') | Some c \<Rightarrow> resume g c S')"
    using assms(3) by (auto simp: runs_to_def put_frame_def)
  with assms(1,2) show ?thesis unfolding runs_to_def by (intro exI [of _ m]) simp
qed

text \<open>The end of an awaited temporary: its result is read, its frame destroyed, the awaiting body goes on.\<close>

lemma await_ended_call:
  assumes "t \<noteq> h" and "frames S t = None"
    and S4: "S4 = put_frame t (Some (ended r ((new_frame g T q)\<lparr>continuation := Some h\<rparr>)))
                  (put_frame h (Some (f\<lparr>status := Waiting False t k\<rparr>)) S)"
  shows "resume g h S4 = resume g h (put_frame h (Some (f\<lparr>status := Run (k (seen T r))\<rparr>)) S)"
proof (rule resume_Goto)
  let ?c = "ended r ((new_frame g T q)\<lparr>continuation := Some h\<rparr>)"
  have ft: "frames S4 t = Some ?c" by (simp add: S4)
  have "await_result T t S4 = Inr (seen T r)"
    by (rule await_result_ended [OF ft]) (simp_all add: new_frame_def)
  moreover have "destroy t S4 = Inr (put_frame t None S4)"
    by (rule destroy_leaf [OF ft]) (simp add: new_frame_def)
  moreover have "put_frame h x (put_frame t None S4) = put_frame h x S" for x
    using assms(1,2) by (auto simp: S4 put_frame_def fun_eq_iff)
  ultimately show "resume_step g h S4 = Inr (Goto h (put_frame h (Some (f\<lparr>status := Run (k (seen T r))\<rparr>)) S))"
    using assms(1) ft by (simp add: S4 resume_step_def new_frame_def)
qed

text \<open>A whole \<^verbatim>\<open>co_await f()\<close> whose callee runs to its end.\<close>

lemma call_run:
  assumes at: "at_point h f (Call T q k) S"
    and callee: "\<And>S' t f'. at_point t f' q S' \<Longrightarrow> world S' = world S \<Longrightarrow> runs_to g t f' r w S'"
  shows "\<exists>n \<ge> next_frame S. resume g h S =
    resume g h (put_frame h (Some (f\<lparr>status := Run (k (seen T r))\<rparr>)) (S\<lparr>next_frame := n, world := w\<rparr>))"
proof -
  let ?t = "next_frame S"
  let ?c = "(new_frame g T q)\<lparr>continuation := Some h\<rparr>"
  let ?S3 = "put_frame ?t (Some ?c) (put_frame h (Some (f\<lparr>status := Waiting False ?t k\<rparr>)) (S\<lparr>next_frame := Suc ?t\<rparr>))"
  have ne: "?t \<noteq> h" and free: "frames S ?t = None"
    using at by (auto simp: at_point_def heap_fresh_def)
  have "resume g h S = resume g ?t ?S3"
    using at ne
    by (intro resume_Goto) (simp add: at_point_def resume_step_def create_def Task_await_suspend_def put_frame_def fun_upd_twist)
  moreover have "runs_to g ?t ?c r w ?S3"
    using at ne by (intro callee) (auto simp: at_point_def heap_fresh_def new_frame_def)
  then obtain n where "Suc ?t \<le> n"
    and "resume g ?t ?S3 = resume g h (put_frame ?t (Some (ended r ?c)) (?S3\<lparr>next_frame := n, world := w\<rparr>))"
    by (auto simp: runs_to_def Let_def)
  moreover have "put_frame ?t (Some (ended r ?c)) (?S3\<lparr>next_frame := n, world := w\<rparr>)
      = put_frame ?t (Some (ended r ?c)) (put_frame h (Some (f\<lparr>status := Waiting False ?t k\<rparr>)) (S\<lparr>next_frame := n, world := w\<rparr>))"
    by (simp add: put_frame_def)
  ultimately show ?thesis
    using await_ended_call [of ?t h "S\<lparr>next_frame := n, world := w\<rparr>", OF ne _ refl] free by (intro exI [of _ n]) simp
qed

lemma do_run:
  assumes "at_point h f (Do act) S" and "act (world S) = Inr (w, p)"
  shows "resume g h S = resume g h (put_frame h (Some (f\<lparr>status := Run p\<rparr>)) (S\<lparr>next_frame := next_frame S, world := w\<rparr>))"
  using assms by (intro resume_Goto) (simp add: resume_step_def at_point_def)

lemma end_run:
  assumes "at_point h f p S" and "p = Ret v \<and> r = Inr v \<or> p = Raise e \<and> r = Inl e"
  shows "runs_to g h f r (world S) S"
  using assms unfolding runs_to_def
  by (subst resume.simps)
     (auto simp: at_point_def resume_step_def complete_def finish_frame_ended final_suspend_def Let_def
       intro!: exI [of _ "next_frame S"] split: option.splits)

lemma runs_machine: "runs ho w p r w' \<Longrightarrow> ho = None \<Longrightarrow> at_point h f p S \<Longrightarrow> world S = w \<Longrightarrow> runs_to g h f r w' S"
proof (induction arbitrary: S h f rule: runs.induct)
  case (runs_Ret ho w v)
  then show ?case using end_run [OF runs_Ret.prems(2), of v "Inr v"] by simp
next
  case (runs_Raise ho w e)
  then show ?case using end_run [OF runs_Raise.prems(2), of _ "Inl e"] by simp
next
  case (runs_Do act w w1 p ho r w')
  have act: "act (world S) = Inr (w1, p)" using runs_Do.hyps(1) runs_Do.prems(3) by simp
  show ?case
    by (rule runs_to_from [OF do_run [OF runs_Do.prems(2) act] order_refl], rule runs_Do.IH [OF runs_Do.prems(1)])
       (use at_point_go_on [OF runs_Do.prems(2) order_refl] in simp_all)
next
  case (runs_Call w q r1 w1 ho k T r w')
  from call_run [OF runs_Call.prems(2), of g r1 w1] runs_Call.IH(1) runs_Call.prems(3) obtain n where
    n: "next_frame S \<le> n"
      "resume g h S = resume g h (put_frame h (Some (f\<lparr>status := Run (k (seen T r1))\<rparr>)) (S\<lparr>next_frame := n, world := w1\<rparr>))"
    by auto
  show ?case
    by (rule runs_to_from [OF n(2,1)], rule runs_Call.IH(2) [OF runs_Call.prems(1)])
       (use at_point_go_on [OF runs_Call.prems(2) n(1)] in simp_all)
qed simp

end
