(* ===== verification/Task.thy ===== *)
theory Task
  imports Coroutine
begin

text \<open>
  The owner type of coroutines: the classes \<^verbatim>\<open>Task<T>\<close> and \<^verbatim>\<open>Task<void>\<close> of \<^verbatim>\<open>include/hayai/coro/Task.h\<close>: moves,
  destruction, \<^verbatim>\<open>get\<close> and \<^verbatim>\<open>detach\<close>.
\<close>

section \<open>The owner type\<close>

text \<open>A \<^verbatim>\<open>Task\<close> object is its handle, null after a move or \<^verbatim>\<open>detach\<close>.\<close>

type_synonym task = "nat option"

definition Task_ctor :: "nat \<Rightarrow> task" where
  "Task_ctor h = Some h"

definition Task_move :: "task \<Rightarrow> task \<times> task" where
  "Task_move other = (other, None)"

definition Task_dtor :: "task \<Rightarrow> 'w cstate \<Rightarrow> 'w cstate res" where
  "Task_dtor t S = (case t of Some h \<Rightarrow> destroy h S | None \<Rightarrow> Inr S)"

text \<open>Assignment; \<open>same\<close> is the test whether both are the same object.\<close>

definition Task_move_assign :: "bool \<Rightarrow> task \<Rightarrow> task \<Rightarrow> 'w cstate \<Rightarrow> (task \<times> task \<times> 'w cstate) res" where
  "Task_move_assign same this other S =
     (if \<not> same
      then bind_res (case this of Some h \<Rightarrow> destroy h S | None \<Rightarrow> Inr S) (\<lambda>S'. Inr (other, None, S'))
      else Inr (this, other, S))"

definition Task_handle :: "task \<Rightarrow> nat option" where
  "Task_handle t = t"

definition is_done :: "nat \<Rightarrow> 'w cstate \<Rightarrow> bool res" where
  "is_done h S = (case frames S h of None \<Rightarrow> Inl UseAfterFree | Some f \<Rightarrow> Inr (status f = AtEnd))"

text \<open>The loop of \<^verbatim>\<open>get\<close>: resume the task's own handle until it is done.\<close>

partial_function (option) get_loop :: "int \<Rightarrow> nat \<Rightarrow> 'w cstate \<Rightarrow> 'w cstate res option" where
  "get_loop garbage h S =
     (case is_done h S of
        Inl e \<Rightarrow> Some (Inl e)
      | Inr d \<Rightarrow>
          if d then Some (Inr S)
          else (case resume garbage h S of
              None \<Rightarrow> None
            | Some (Inl e) \<Rightarrow> Some (Inl e)
            | Some (Inr S') \<Rightarrow> get_loop garbage h S'))"

definition Task_get :: "int \<Rightarrow> task \<Rightarrow> 'w cstate \<Rightarrow> (val res \<times> 'w cstate) res option" where
  "Task_get garbage t S =
     (case t of
        None \<Rightarrow> Some (Inr (Inl (RuntimeError ''Task is empty''), S))
      | Some h \<Rightarrow> (case get_loop garbage h S of
            None \<Rightarrow> None
          | Some (Inl e) \<Rightarrow> Some (Inl e)
          | Some (Inr S') \<Rightarrow> Some (bind_res (Task_await_resume h S') (\<lambda>r. Inr (r, S')))))"

definition Task_detach :: "int \<Rightarrow> task \<Rightarrow> 'w cstate \<Rightarrow> (task \<times> 'w cstate) res option" where
  "Task_detach garbage t S =
     (case t of
        None \<Rightarrow> Some (Inr (None, S))
      | Some h \<Rightarrow> (case resume garbage h S of
            None \<Rightarrow> None
          | Some (Inl e) \<Rightarrow> Some (Inl e)
          | Some (Inr S') \<Rightarrow> Some (Inr (None, S'))))"

section \<open>The specialisation for \<^verbatim>\<open>void\<close>\<close>

definition TaskVoid_move :: "task \<Rightarrow> task \<times> task" where
  "TaskVoid_move other = (other, None)"

definition TaskVoid_dtor :: "task \<Rightarrow> 'w cstate \<Rightarrow> 'w cstate res" where
  "TaskVoid_dtor t S = (case t of Some h \<Rightarrow> destroy h S | None \<Rightarrow> Inr S)"

definition TaskVoid_move_assign :: "bool \<Rightarrow> task \<Rightarrow> task \<Rightarrow> 'w cstate \<Rightarrow> (task \<times> task \<times> 'w cstate) res" where
  "TaskVoid_move_assign same this other S =
     (if \<not> same
      then bind_res (case this of Some h \<Rightarrow> destroy h S | None \<Rightarrow> Inr S) (\<lambda>S'. Inr (other, None, S'))
      else Inr (this, other, S))"

definition TaskVoid_get :: "int \<Rightarrow> task \<Rightarrow> 'w cstate \<Rightarrow> (unit res \<times> 'w cstate) res option" where
  "TaskVoid_get garbage t S =
     (case t of
        None \<Rightarrow> Some (Inr (Inl (RuntimeError ''Task is empty''), S))
      | Some h \<Rightarrow> (case get_loop garbage h S of
            None \<Rightarrow> None
          | Some (Inl e) \<Rightarrow> Some (Inl e)
          | Some (Inr S') \<Rightarrow> Some (bind_res (TaskVoid_await_resume h S') (\<lambda>r. Inr (r, S')))))"

definition TaskVoid_detach :: "int \<Rightarrow> task \<Rightarrow> 'w cstate \<Rightarrow> (task \<times> 'w cstate) res option" where
  "TaskVoid_detach garbage t S =
     (case t of
        None \<Rightarrow> Some (Inr (None, S))
      | Some h \<Rightarrow> (case resume garbage h S of
            None \<Rightarrow> None
          | Some (Inl e) \<Rightarrow> Some (Inl e)
          | Some (Inr S') \<Rightarrow> Some (Inr (None, S'))))"

text \<open>The members that do not touch the value are the same for both classes.\<close>

lemma TaskVoid_same [simp]:
  "TaskVoid_move = Task_move" "TaskVoid_dtor = Task_dtor" "TaskVoid_move_assign = Task_move_assign"
  "TaskVoid_detach = Task_detach"
  by (simp_all add: fun_eq_iff TaskVoid_move_def Task_move_def TaskVoid_dtor_def Task_dtor_def TaskVoid_move_assign_def
      Task_move_assign_def TaskVoid_detach_def Task_detach_def)

section \<open>The loop of \<^verbatim>\<open>get\<close>\<close>

lemma is_done_at_point: "at_point h f p S \<Longrightarrow> is_done h S = Inr False"
  by (simp add: at_point_def is_done_def)

lemma is_done_ended [simp]: "is_done h (put_frame h (Some (ended r f)) S) = Inr True"
  by (simp add: is_done_def)

lemma get_loop_done: "is_done h S = Inr True \<Longrightarrow> get_loop g h S = Some (Inr S)"
  by (subst get_loop.simps) simp

lemma get_loop_resume: "is_done h S = Inr False \<Longrightarrow> resume g h S = Some (Inr S') \<Longrightarrow> get_loop g h S = get_loop g h S'"
  by (subst get_loop.simps) simp

lemma get_loop_same:
  "is_done h S = Inr False \<Longrightarrow> is_done h S' = Inr False \<Longrightarrow> resume g h S = resume g h S' \<Longrightarrow> get_loop g h S = get_loop g h S'"
  by (subst (1 2) get_loop.simps) simp

text \<open>The state in which the loop ends: the frame ended with \<open>r\<close>, nothing else left behind.\<close>

definition loop_ends :: "int \<Rightarrow> nat \<Rightarrow> 'w frame \<Rightarrow> val res \<Rightarrow> 'w \<Rightarrow> 'w cstate \<Rightarrow> bool" where
  "loop_ends g h f r w S \<longleftrightarrow>
     (\<exists>m. get_loop g h S = Some (Inr (put_frame h (Some (ended r f)) (S\<lparr>next_frame := m, world := w\<rparr>))))"

lemma loop_ends_from:
  assumes at: "at_point h f p S" and n: "next_frame S \<le> n"
    and res: "resume g h S = resume g h (put_frame h (Some (f\<lparr>status := Run q\<rparr>)) (S\<lparr>next_frame := n, world := w1\<rparr>))"
    and rest: "loop_ends g h (f\<lparr>status := Run q\<rparr>) r w (put_frame h (Some (f\<lparr>status := Run q\<rparr>)) (S\<lparr>next_frame := n, world := w1\<rparr>))"
  shows "loop_ends g h f r w S"
  using get_loop_same [OF is_done_at_point [OF at] is_done_at_point [OF at_point_go_on [OF at n]] res] rest
  by (auto simp: loop_ends_def put_frame_def)

lemma loop_ends_now:
  assumes "at_point h f p S" and "runs_to g h f r w S" and "continuation f = None"
  shows "loop_ends g h f r w S"
  using assms(2,3) get_loop_resume [OF is_done_at_point [OF assms(1)]]
  by (auto simp: runs_to_def loop_ends_def Let_def get_loop_done)

lemma get_loop_ends:
  "runs ho w p r w' \<Longrightarrow> ho = Some h \<Longrightarrow> at_point h f p S \<Longrightarrow> world S = w \<Longrightarrow> continuation f = None \<Longrightarrow>
     loop_ends g h f r w' S"
proof (induction arbitrary: S f rule: runs.induct)
  case (runs_Ret ho w v)
  then show ?case
    using loop_ends_now [OF runs_Ret.prems(2) end_run [OF runs_Ret.prems(2), of v "Inr v"]] by simp
next
  case (runs_Raise ho w e)
  then show ?case
    using loop_ends_now [OF runs_Raise.prems(2) end_run [OF runs_Raise.prems(2), of _ "Inl e"]] by simp
next
  case (runs_Do act w w1 p ho r w')
  then have act: "act (world S) = Inr (w1, p)" by simp
  show ?case
    by (rule loop_ends_from [OF runs_Do.prems(2) order_refl do_run [OF runs_Do.prems(2) act]], rule runs_Do.IH)
       (use runs_Do.prems at_point_go_on [OF runs_Do.prems(2) order_refl] in simp_all)
next
  case (runs_Park suspend k w w1 p r w')
  let ?S1 = "put_frame h (Some (f\<lparr>status := Run p\<rparr>)) (S\<lparr>next_frame := next_frame S, world := w1\<rparr>)"
  have "resume g h S = Some (Inr ?S1)"
    using runs_Park.prems runs_Park.hyps(1) by (intro resume_Stop) (simp add: resume_step_def at_point_def)
  then have "get_loop g h S = get_loop g h ?S1"
    by (rule get_loop_resume [OF is_done_at_point [OF runs_Park.prems(2)]])
  moreover have "loop_ends g h (f\<lparr>status := Run p\<rparr>) r w' ?S1"
    by (rule runs_Park.IH) (use runs_Park.prems at_point_go_on [OF runs_Park.prems(2) order_refl] in simp_all)
  ultimately show ?case by (auto simp: loop_ends_def put_frame_def)
next
  case (runs_Call w q r1 w1 ho k T r w')
  from call_run [OF runs_Call.prems(2), of g r1 w1] runs_machine [OF runs_Call.hyps(1) refl] runs_Call.prems(3) obtain n where
    n: "next_frame S \<le> n"
      "resume g h S = resume g h (put_frame h (Some (f\<lparr>status := Run (k (seen T r1))\<rparr>)) (S\<lparr>next_frame := n, world := w1\<rparr>))"
    by auto
  show ?case
    by (rule loop_ends_from [OF runs_Call.prems(2) n], rule runs_Call.IH(2))
       (use runs_Call.prems at_point_go_on [OF runs_Call.prems(2) n(1)] in simp_all)
qed

text \<open>A new task whose loop is run and that is then destroyed leaves the heap as it was.\<close>

lemma new_task_loop:
  assumes "runs (Some h) (world S) p r w'" and "heap_fresh S" and "create (new_frame g T p) S = (h, S1)"
  obtains S2 n where "get_loop g h S1 = Some (Inr S2)" "frames S2 h = Some (ended r (new_frame g T p))"
    "destroy h S2 = Inr (S\<lparr>next_frame := n, world := w'\<rparr>)"
proof -
  have h: "h = next_frame S" and S1: "S1 = put_frame h (Some (new_frame g T p)) (S\<lparr>next_frame := Suc h\<rparr>)"
    using assms(3) by (auto simp: create_def put_frame_def)
  have at: "at_point h (new_frame g T p) p S1"
    using assms(2) by (auto simp: at_point_def heap_fresh_def h S1 new_frame_def)
  have "loop_ends g h (new_frame g T p) r w' S1"
    by (rule get_loop_ends [OF assms(1) refl at]) (simp_all add: S1 new_frame_def)
  then obtain n where
    n: "get_loop g h S1 = Some (Inr (put_frame h (Some (ended r (new_frame g T p))) (S1\<lparr>next_frame := n, world := w'\<rparr>)))"
    by (auto simp: loop_ends_def)
  let ?S2 = "put_frame h (Some (ended r (new_frame g T p))) (S1\<lparr>next_frame := n, world := w'\<rparr>)"
  have "destroy h ?S2 = Inr (put_frame h None ?S2)"
    by (rule destroy_leaf [of _ _ "ended r (new_frame g T p)"]) (simp_all add: new_frame_def)
  moreover have "put_frame h None ?S2 = S\<lparr>next_frame := n, world := w'\<rparr>"
    using assms(2) by (auto simp: S1 h put_frame_def heap_fresh_def fun_eq_iff)
  ultimately show thesis using that n by simp
qed

lemma await_resume_new_task:
  assumes "frames S h = Some (ended r (new_frame g T p))"
  shows "T \<noteq> TVoid \<Longrightarrow> Task_await_resume h S = Inr r"
    and "T = TVoid \<Longrightarrow> TaskVoid_await_resume h S = Inr (bind_res r (\<lambda>_. Inr ()))"
  using assms
  by (auto simp: Task_await_resume_def TaskVoid_await_resume_def ended_def new_frame_def split: sum.splits)

text \<open>Both forms of \<^verbatim>\<open>get\<close> on a new task, followed by the task's destruction.\<close>

lemma get_new_task:
  assumes "runs (Some h) (world S) p r w'" and "heap_fresh S" and "create (new_frame g T p) S = (h, S1)"
  shows "\<exists>S2 n. (if T = TVoid then TaskVoid_get g (Some h) S1 = Some (Inr (bind_res r (\<lambda>_. Inr ()), S2))
                 else Task_get g (Some h) S1 = Some (Inr (r, S2)))
    \<and> Task_dtor (Some h) S2 = Inr (S\<lparr>next_frame := n, world := w'\<rparr>)"
proof -
  obtain S2 n where S2: "get_loop g h S1 = Some (Inr S2)" "frames S2 h = Some (ended r (new_frame g T p))"
    "destroy h S2 = Inr (S\<lparr>next_frame := n, world := w'\<rparr>)"
    using new_task_loop [OF assms] .
  with await_resume_new_task [OF S2(2)] show ?thesis
    by (intro exI [of _ S2] exI [of _ n]) (simp add: Task_get_def TaskVoid_get_def Task_dtor_def)
qed

section \<open>Properties\<close>

definition empty_heap :: "'w \<Rightarrow> 'w cstate" where
  "empty_heap w = \<lparr>frames = (\<lambda>_. None), next_frame = 0, cleanups = [], world = w\<rparr>"

definition rethrow :: "val res \<Rightarrow> 'w prog" where
  "rethrow r = (case r of Inr v \<Rightarrow> Ret v | Inl e \<Rightarrow> Raise e)"

lemma empty_heap_simps [simp]:
  "frames (empty_heap w) = (\<lambda>_. None)" "next_frame (empty_heap w) = 0" "cleanups (empty_heap w) = []"
  "world (empty_heap w) = w" "heap_fresh (empty_heap w)"
  by (simp_all add: empty_heap_def heap_fresh_def)

lemma runs_rethrow: "runs ho w (rethrow r) r w"
  by (auto simp: rethrow_def intro: runs.intros split: sum.split)

text \<open>C5. \<^verbatim>\<open>get\<close> computes what the coroutine says, awaits read as calls: for every body that ends, with any nesting of
  awaits, callees that do not suspend, and its own suspensions, it returns, with the value or the
  exception of the direct-style meaning and with the same effects on the outside state (\<^verbatim>\<open>Task<void>\<close>
  forgets the value); and when the task is then destroyed every frame made on the way is gone.\<close>

theorem get_computes_meaning:
  assumes "runs (Some h) (world S) p r w'" and "heap_fresh S" and "create (new_frame g T p) S = (h, S1)"
  shows "\<exists>S2 n. (if T = TVoid then TaskVoid_get g (Some h) S1 = Some (Inr (bind_res r (\<lambda>_. Inr ()), S2))
                 else Task_get g (Some h) S1 = Some (Inr (r, S2)))
    \<and> Task_dtor (Some h) S2 = Inr (S\<lparr>next_frame := n, world := w'\<rparr>)"
  using assms by (rule get_new_task)

definition sample_nested :: "string list prog" where
  "sample_nested =
     Call TInt (Call TInt (Ret (VInt 10)) rethrow) (\<lambda>r. stmt (\<lambda>out. out @ [''got'']) (SuspendAlways (rethrow r)))"

lemma sample_nested_runs: "runs (Some h) out sample_nested (Inr (VInt 10)) (out @ [''got''])"
proof -
  have "runs None out (Call TInt (Ret (VInt 10)) rethrow) (Inr (VInt 10)) out"
    by (rule runs_Call [OF runs_Ret]) (simp add: seen_def runs_rethrow)
  moreover have "runs (Some h) out (stmt (\<lambda>out. out @ [''got'']) (SuspendAlways (rethrow (Inr (VInt 10))))) (Inr (VInt 10)) (out @ [''got''])"
    by (simp add: stmt_def SuspendAlways_def co_await_def rethrow_def)
  ultimately show ?thesis
    unfolding sample_nested_def by (auto intro!: runs_Call [where r = "Inr (VInt 10)" and T = TInt] simp: seen_def rethrow_def)
qed

theorem get_computes_meaning_witness:
  "\<exists>S2 n. Task_get 0 (Some 0) (snd (create (new_frame 0 TInt sample_nested) (empty_heap [])))
     = Some (Inr (Inr (VInt 10), S2)) \<and> Task_dtor (Some 0) S2 = Inr ((empty_heap [])\<lparr>next_frame := n, world := [''got'']\<rparr>)"
proof -
  have "runs (Some 0) (world (empty_heap [])) sample_nested (Inr (VInt 10)) [''got'']"
    using sample_nested_runs [of 0 "[]"] by simp
  moreover have "create (new_frame 0 TInt sample_nested) (empty_heap []) = (0, snd (create (new_frame 0 TInt sample_nested) (empty_heap [])))"
    by (simp add: create_def)
  ultimately show ?thesis
    using get_computes_meaning [of 0 "empty_heap []" sample_nested "Inr (VInt 10)" "[''got'']" 0 TInt] by simp
qed

text \<open>\<^verbatim>\<open>get\<close> resumes the outermost frame, so a callee that suspends is abandoned: the await of the outer body
  goes on at once, with the uninitialised value of a callee that has not ended, and the callee's frame
  is destroyed before it ran to its end.\<close>

theorem get_abandons_suspended_callee:
  "\<exists>S2. Task_get g (Some 0) (snd (create (new_frame g TInt (Call TInt (Park (\<lambda>h. Inr) (Ret (VInt v))) rethrow)) (empty_heap w)))
       = Some (Inr (Inr (VInt g), S2))
     \<and> runs (Some 0) w (Call TInt (Ret (VInt v)) rethrow) (Inr (VInt v)) w"
proof -
  let ?p = "Call TInt (Park (\<lambda>h. Inr) (Ret (VInt v))) rethrow"
  let ?f = "new_frame g TInt ?p"
  let ?E = "\<lambda>n. (empty_heap w)\<lparr>next_frame := n\<rparr>"
  let ?S = "put_frame 0 (Some ?f) (?E 1)"
  let ?c = "(new_frame g TInt (Park (\<lambda>h. Inr) (Ret (VInt v))))\<lparr>continuation := Some 0\<rparr>"
  let ?W = "?f\<lparr>status := Waiting False 1 rethrow\<rparr>"
  let ?S1 = "put_frame 1 (Some ?c) (put_frame 0 (Some ?W) (?E 2))"
  let ?S2 = "put_frame 1 (Some (?c\<lparr>status := Run (Ret (VInt v))\<rparr>)) ?S1"
  let ?S3 = "put_frame 0 (Some (?f\<lparr>status := Run (Ret (VInt g))\<rparr>)) (?E 2)"
  let ?S4 = "put_frame 0 (Some (?f\<lparr>status := AtEnd, ret_value := VInt g\<rparr>)) (?E 2)"
  have "snd (create ?f (empty_heap w)) = ?S"
    by (simp add: create_def empty_heap_def put_frame_def)
  moreover have "resume g 0 ?S = resume g 1 ?S1"
    by (rule resume_Goto)
       (simp add: resume_step_def new_frame_def create_def Task_await_suspend_def put_frame_def fun_upd_twist eval_nat_numeral)
  moreover have "resume g 1 ?S1 = Some (Inr ?S2)"
    by (rule resume_Stop) (simp add: resume_step_def new_frame_def empty_heap_def put_frame_def)
  moreover have "resume g 0 ?S2 = resume g 0 ?S3"
  proof (rule resume_Goto)
    have "destroy 1 ?S2 = Inr (put_frame 1 None ?S2)"
      by (rule destroy_leaf [of _ _ "?c\<lparr>status := Run (Ret (VInt v))\<rparr>"]) (simp_all add: owned_tasks_def new_frame_def)
    then show "resume_step g 0 ?S2 = Inr (Goto 0 ?S3)"
      by (auto simp: resume_step_def await_result_def Task_await_resume_def new_frame_def rethrow_def put_frame_def
          empty_heap_def fun_eq_iff)
  qed
  moreover have "resume g 0 ?S3 = Some (Inr ?S4)"
    by (rule resume_Stop)
       (simp add: resume_step_def new_frame_def complete_def finish_frame_ended final_suspend_def ended_def)
  ultimately have "get_loop g 0 (snd (create ?f (empty_heap w))) = Some (Inr ?S4)"
    by (simp add: get_loop.simps is_done_def new_frame_def)
  moreover have "runs (Some 0) w (Call TInt (Ret (VInt v)) rethrow) (Inr (VInt v)) w"
    by (rule runs_Call [OF runs_Ret]) (simp add: seen_def runs_rethrow)
  ultimately show ?thesis
    by (simp add: Task_get_def Task_await_resume_def new_frame_def)
qed

text \<open>\<^verbatim>\<open>detach\<close> leaks: even when the coroutine runs to its end in that one resumption, its frame stays in the
  heap although no task object refers to it any more.\<close>

theorem detach_leaks:
  assumes "runs None (world S) p r w'" and "heap_fresh S" and "create (new_frame g T p) S = (h, S1)"
  shows "\<exists>S2. Task_detach g (Some h) S1 = Some (Inr (None, S2)) \<and> is_done h S2 = Inr True \<and> frames S2 h \<noteq> None"
proof -
  have h: "h = next_frame S" and S1: "S1 = put_frame h (Some (new_frame g T p)) (S\<lparr>next_frame := Suc h\<rparr>)"
    using assms(3) by (auto simp: create_def put_frame_def)
  have "at_point h (new_frame g T p) p S1"
    using assms(2) by (auto simp: at_point_def heap_fresh_def h S1 new_frame_def)
  from runs_machine [OF assms(1) refl this, of g] obtain n where
    "resume g h S1 = Some (Inr (put_frame h (Some (ended r (new_frame g T p))) (S1\<lparr>next_frame := n, world := w'\<rparr>)))"
    by (auto simp: runs_to_def new_frame_def S1)
  then show ?thesis by (auto simp: Task_detach_def)
qed

theorem detach_leaks_witness:
  "\<exists>S2. Task_detach 0 (Some 0) (snd (create (new_frame 0 TInt (Ret (VInt 1))) (empty_heap ()))) = Some (Inr (None, S2)) \<and> frames S2 0 \<noteq> None"
proof -
  have "create (new_frame 0 TInt (Ret (VInt 1))) (empty_heap ()) = (0, snd (create (new_frame 0 TInt (Ret (VInt 1))) (empty_heap ())))"
    by (simp add: create_def)
  from detach_leaks [OF _ _ this, of "Inr (VInt 1)" "()"] show ?thesis
    by (auto simp: empty_heap_def heap_fresh_def)
qed

end
