(* ===== verification/Spawn.thy ===== *)
theory Spawn
  imports Task EventLoop
begin

text \<open>
  Fire-and-forget coroutines: \<^verbatim>\<open>include/hayai/coro/spawn.h\<close> on top of \<^verbatim>\<open>EventLoop::spawn\<close> and
  \<^verbatim>\<open>EventLoop::cleanupSpawnedTask\<close>. The state is the loop together with the coroutine frames.
\<close>

section \<open>Operations\<close>

datatype loop_functor = StartSpawned nat | CleanupSpawned nat

text \<open>The wrapper coroutine: it owns the task as a parameter, awaits it and ends.\<close>

definition wrapper_rest :: "val res \<Rightarrow> 'w prog" where
  "wrapper_rest r = (case r of Inr v \<Rightarrow> Ret VVoid | Inl e \<Rightarrow> Raise e)"

definition wrapper_frame :: "int \<Rightarrow> nat \<Rightarrow> 'w frame" where
  "wrapper_frame garbage t =
     (new_frame garbage TVoid (Join t wrapper_rest))\<lparr>is_spawn := True, params := [t]\<rparr>"

text \<open>
  Resuming a handle on the loop's thread; the destructions that spawned coroutines asked for at
  their end are queued on the loop.
\<close>

definition resume_on :: "int \<Rightarrow> nat \<Rightarrow> nat \<Rightarrow> ('k, loop_functor) event_loop \<times> 'w cstate \<Rightarrow>
    (('k, loop_functor) event_loop \<times> 'w cstate) res" where
  "resume_on garbage me h s =
     (case resume garbage h (snd s) of
        None \<Rightarrow> Inl Diverges
      | Some (Inl e) \<Rightarrow> Inl e
      | Some (Inr S) \<Rightarrow>
          Inr (fold (\<lambda>c l. queueInLoop me (CleanupSpawned c) l) (cleanups S) (fst s), S\<lparr>cleanups := []\<rparr>))"

fun exec_spawn :: "int \<Rightarrow> nat \<Rightarrow> loop_functor \<Rightarrow> ('k, loop_functor) event_loop \<times> 'w cstate \<Rightarrow>
    (('k, loop_functor) event_loop \<times> 'w cstate) res" where
  "exec_spawn garbage me (StartSpawned h) s = spawn_functor (resume_on garbage me) h s"
| "exec_spawn garbage me (CleanupSpawned h) s = cleanupSpawnedTask destroy h s"

definition spawn :: "int \<Rightarrow> nat \<Rightarrow> nat \<Rightarrow> ('k, loop_functor) event_loop \<times> 'w cstate \<Rightarrow>
    (('k, loop_functor) event_loop \<times> 'w cstate) res" where
  "spawn garbage me t s =
     (let (h, S1) = create (wrapper_frame garbage t) (snd s);
          S2 = put_frame h (map_option (\<lambda>f. f\<lparr>spawn_loop := Some (loop_id (fst s))\<rparr>) (frames S1 h)) S1 in
      runInLoop (exec_spawn garbage me) me (StartSpawned h) (fst s, S2))"

section \<open>Lemmas\<close>

text \<open>A spawned coroutine \<open>h\<close> that waits for its task \<open>t\<close>, which is at \<open>q\<close>.\<close>

definition spawned_at :: "nat \<Rightarrow> nat \<Rightarrow> 'w prog \<Rightarrow> 'w cstate \<Rightarrow> bool" where
  "spawned_at h t q S \<longleftrightarrow> h \<noteq> t \<and>
     (\<exists>f. at_point t f q S \<and> continuation f = Some h \<and> params f = []) \<and>
     (\<exists>w. frames S h = Some w \<and> status w = Waiting True t wrapper_rest \<and> is_spawn w \<and> spawn_loop w \<noteq> None \<and> params w = [t])"

text \<open>The end of a wrapper that has awaited its task: both frames are at their ends.\<close>

definition spawned_done :: "nat \<Rightarrow> nat \<Rightarrow> 'w cstate \<Rightarrow> bool" where
  "spawned_done h t S \<longleftrightarrow> h \<noteq> t \<and> t < next_frame S \<and>
     (\<exists>w f. frames S h = Some w \<and> status w = AtEnd \<and> params w = [t] \<and> frames S t = Some f \<and> status f = AtEnd \<and> params f = [])"

lemma destroy_spawned:
  assumes "spawned_done h t S"
  shows "destroy h S = Inr (S\<lparr>frames := (frames S)(h := None, t := None)\<rparr>)"
proof -
  obtain m where m: "next_frame S = Suc m" using assms by (cases "next_frame S") (auto simp: spawned_done_def)
  show ?thesis using assms by (auto simp: spawned_done_def destroy_def m owned_tasks_def put_frame_def)
qed

lemma spawned_end:
  assumes sp: "spawned_at h t q S" and q: "runs None (world S) q r w'"
  shows "case r of
      Inl e \<Rightarrow> resume g t S = Some (Inl Aborted)
    | Inr v \<Rightarrow> \<exists>S'. resume g t S = Some (Inr S') \<and> cleanups S' = cleanups S @ [h] \<and> world S' = w' \<and> spawned_done h t S'
        \<and> next_frame S \<le> next_frame S' \<and> frames S' = (frames S)(h := frames S' h, t := frames S' t)"
proof -
  obtain f w where f: "at_point t f q S" "continuation f = Some h" "params f = []" and ne: "h \<noteq> t"
    and w: "frames S h = Some w" "status w = Waiting True t wrapper_rest" "is_spawn w" "spawn_loop w \<noteq> None" "params w = [t]"
    using sp by (auto simp: spawned_at_def)
  obtain n where n: "next_frame S \<le> n"
      "resume g t S = resume g h (put_frame t (Some (ended r f)) (S\<lparr>next_frame := n, world := w'\<rparr>))"
    using runs_machine [OF q refl f(1) refl, of g] f(2) by (auto simp: runs_to_def Let_def)
  let ?S1 = "put_frame t (Some (ended r f)) (S\<lparr>next_frame := n, world := w'\<rparr>)"
  let ?S2 = "put_frame h (Some (w\<lparr>status := Run (wrapper_rest (seen (result_ty f) r))\<rparr>)) ?S1"
  have "await_result (result_ty f) t ?S1 = Inr (seen (result_ty f) r)"
    by (rule await_result_ended [of _ _ r f]) (use f(1) in \<open>simp_all add: at_point_def\<close>)
  then have s2: "resume g h ?S1 = resume g h ?S2"
    using w ne by (intro resume_Goto) (simp add: resume_step_def)
  show ?thesis
  proof (cases r)
    case (Inl e)
    then have "resume g h ?S2 = Some (Inl Aborted)"
      using w(3) by (intro resume_Inl)
        (simp add: resume_step_def wrapper_rest_def seen_def complete_def finish_frame_def SpawnTask_unhandled_exception_def)
    with Inl n(2) s2 show ?thesis by simp
  next
    case (Inr v)
    let ?S3 = "(put_frame h (Some (w\<lparr>status := AtEnd\<rparr>)) ?S1)\<lparr>cleanups := cleanups S @ [h]\<rparr>"
    have "resume g h ?S2 = Some (Inr ?S3)"
      using Inr w by (intro resume_Stop)
        (auto simp: resume_step_def wrapper_rest_def seen_def complete_def finish_frame_def SpawnTask_return_void_def
          final_suspend_def SpawnTask_final_suspend_def put_frame_def)
    moreover have "spawned_done h t ?S3"
      using w(5) f(1,3) ne n(1) by (auto simp: spawned_done_def at_point_def)
    ultimately show ?thesis
      using Inr n s2 by (auto simp: fun_eq_iff)
  qed
qed

text \<open>A wrapper \<open>h\<close> that was created for task \<open>t\<close> with body \<open>p\<close> and has not been resumed yet.\<close>

definition spawn_ready :: "nat \<Rightarrow> nat \<Rightarrow> 'w prog \<Rightarrow> 'w cstate \<Rightarrow> bool" where
  "spawn_ready h t p S \<longleftrightarrow> h \<noteq> t \<and> t < next_frame S \<and>
     (\<exists>w. frames S h = Some w \<and> status w = Run (Join t wrapper_rest) \<and> is_spawn w \<and> spawn_loop w \<noteq> None \<and> params w = [t]) \<and>
     (\<exists>f. frames S t = Some f \<and> status f = Run p \<and> \<not> is_spawn f \<and> exception f = None \<and> params f = [])"

lemma wrapper_begins:
  assumes ready: "spawn_ready h t p S" and fresh: "heap_fresh S"
  shows "\<exists>S1. resume g h S = resume g t S1 \<and> spawned_at h t p S1 \<and> cleanups S1 = cleanups S \<and> world S1 = world S
    \<and> next_frame S1 = next_frame S \<and> frames S1 = (frames S)(h := frames S1 h, t := frames S1 t)"
proof -
  obtain w f where w: "frames S h = Some w" "status w = Run (Join t wrapper_rest)" "is_spawn w" "spawn_loop w \<noteq> None" "params w = [t]"
    and f: "frames S t = Some f" "status f = Run p" "\<not> is_spawn f" "exception f = None" "params f = []"
    and ne: "h \<noteq> t" "t < next_frame S"
    using ready by (auto simp: spawn_ready_def)
  have h: "h < next_frame S" using w(1) fresh by (auto simp: heap_fresh_def not_le [symmetric])
  let ?S1 = "put_frame t (Some (f\<lparr>continuation := Some h\<rparr>)) (put_frame h (Some (w\<lparr>status := Waiting True t wrapper_rest\<rparr>)) S)"
  have "resume g h S = resume g t ?S1"
    using ne w(1,2) f(1) by (intro resume_Goto) (simp add: resume_step_def Task_await_suspend_def)
  moreover have "spawned_at h t p ?S1"
    using fresh w f ne h by (auto simp: spawned_at_def at_point_def heap_fresh_def)
  ultimately show ?thesis
    using ne by (intro exI [of _ ?S1]) (auto simp: fun_eq_iff)
qed

text \<open>What \<^verbatim>\<open>spawn\<close> leaves for the loop.\<close>

lemma spawn_makes_ready:
  assumes fresh: "heap_fresh S" and t: "frames S t = Some f" "t < next_frame S" "status f = Run p" "\<not> is_spawn f" "exception f = None" "params f = []"
  shows "\<exists>S1. spawn g me t (l, S) = runInLoop (exec_spawn g me) me (StartSpawned (next_frame S)) (l, S1)
    \<and> spawn_ready (next_frame S) t p S1 \<and> heap_fresh S1 \<and> cleanups S1 = cleanups S \<and> world S1 = world S
    \<and> next_frame S1 = Suc (next_frame S) \<and> frames S1 = (frames S)(next_frame S := frames S1 (next_frame S))"
proof -
  let ?h = "next_frame S"
  let ?S1 = "put_frame ?h (Some ((wrapper_frame g t)\<lparr>spawn_loop := Some (loop_id l)\<rparr>)) (S\<lparr>next_frame := Suc ?h\<rparr>)"
  have "spawn g me t (l, S) = runInLoop (exec_spawn g me) me (StartSpawned ?h) (l, ?S1)"
    by (simp add: spawn_def create_def put_frame_def)
  moreover have "spawn_ready ?h t p ?S1"
    using t by (auto simp: spawn_ready_def wrapper_frame_def new_frame_def)
  ultimately show ?thesis
    using fresh by (intro exI [of _ ?S1]) (auto simp: heap_fresh_def)
qed

lemma spawn_starts:
  assumes loop: "threadId l = me" and fresh: "heap_fresh S" and t: "frames S t = Some f" "t < next_frame S" "status f = Run p"
    "\<not> is_spawn f" "exception f = None" "params f = []"
  shows "\<exists>S1. spawn g me t (l, S) = resume_on g me t (l\<lparr>spawnedTasks := insert (next_frame S) (spawnedTasks l)\<rparr>, S1)
    \<and> spawned_at (next_frame S) t p S1 \<and> cleanups S1 = cleanups S \<and> world S1 = world S
    \<and> frames S1 = (frames S)(next_frame S := frames S1 (next_frame S), t := frames S1 t)"
proof -
  obtain S0 where S0: "spawn g me t (l, S) = runInLoop (exec_spawn g me) me (StartSpawned (next_frame S)) (l, S0)"
      "spawn_ready (next_frame S) t p S0" "heap_fresh S0" "cleanups S0 = cleanups S" "world S0 = world S"
      "frames S0 = (frames S)(next_frame S := frames S0 (next_frame S))"
    using spawn_makes_ready [OF fresh t, of g me l] by blast
  obtain S1 where S1: "resume g (next_frame S) S0 = resume g t S1" "spawned_at (next_frame S) t p S1" "cleanups S1 = cleanups S0"
      "world S1 = world S0" "frames S1 = (frames S0)(next_frame S := frames S1 (next_frame S), t := frames S1 t)"
    using wrapper_begins [OF S0(2,3), of g] by blast
  have "frames S1 = (frames S)(next_frame S := frames S1 (next_frame S), t := frames S1 t)"
    by (subst S1(5), subst S0(6)) (simp add: fun_eq_iff)
  then show ?thesis
    using S0(1,4,5) S1 loop by (intro exI [of _ S1]) (simp add: runInLoop_def isInLoopThread_def spawn_functor_def resume_on_def split: option.split sum.split)
qed

section \<open>Properties\<close>

definition sample_spawn_state :: "unit cstate" where
  "sample_spawn_state = snd (create (new_frame 0 TVoid (Call TInt (Ret (VInt 3)) (\<lambda>_. Ret VVoid))) (empty_heap ()))"

definition sample_spawn_loop :: "(kregs, loop_functor) event_loop" where
  "sample_spawn_loop =
     \<lparr>loop_id = 7, looping = True, quit_flag = False, eventHandling = False, callingPendingFunctors = False, threadId = 0,
      loop_poller = loop_poller sample_loop, loop_chans = loop_chans sample_loop, wakeup_chan = 1, wakeup_words = 0, wakeupFd = (3, 4),
      activeChannels = [], pendingFunctors = [], spawnedTasks = {}\<rparr>"

text \<open>A spawned coroutine is cleaned up, and exactly once: spawning a fresh task on the loop's own thread runs it;
  when it returns, its destruction is queued on the loop, and running that functor destroys both the
  wrapper's and the task's frame and forgets the handle, so that the frames are those from before and
  running it again does nothing; when it throws, the program is terminated.\<close>

theorem spawn_cleans_up:
  assumes "threadId l = me" and "heap_fresh S" and "frames S t = Some (new_frame g' TVoid p)" and "t < next_frame S"
    and "runs None (world S) p r w'" and "cleanups S = []" and "next_frame S \<notin> spawnedTasks l"
  shows "case r of
      Inl e \<Rightarrow> spawn g me t (l, S) = Inl Aborted
    | Inr v \<Rightarrow> \<exists>l1 S1 l2 S2. spawn g me t (l, S) = Inr (l1, S1)
        \<and> pendingFunctors l1 = pendingFunctors l @ [CleanupSpawned (next_frame S)]
        \<and> exec_spawn g me (CleanupSpawned (next_frame S)) (l1, S1) = Inr (l2, S2)
        \<and> frames S2 = (frames S)(t := None) \<and> world S2 = w' \<and> spawnedTasks l2 = spawnedTasks l
        \<and> exec_spawn g me (CleanupSpawned (next_frame S)) (l2, S2) = Inr (l2, S2)"
proof -
  let ?h = "next_frame S"
  let ?l = "l\<lparr>spawnedTasks := insert ?h (spawnedTasks l)\<rparr>"
  obtain S0 where S0: "spawn g me t (l, S) = resume_on g me t (?l, S0)" "spawned_at ?h t p S0" "cleanups S0 = []" "world S0 = world S"
      "frames S0 = (frames S)(?h := frames S0 ?h, t := frames S0 t)"
    using spawn_starts [OF assms(1,2,3,4), of p g] assms(6) by (auto simp: new_frame_def)
  have free: "frames S ?h = None" using assms(2) by (simp add: heap_fresh_def)
  show ?thesis
  proof (cases r)
    case (Inl e)
    with spawned_end [OF S0(2), of r w' g] assms(5) S0(4) have "resume g t S0 = Some (Inl Aborted)" by simp
    with Inl S0(1) show ?thesis by (simp add: resume_on_def)
  next
    case (Inr v)
    with spawned_end [OF S0(2), of r w' g] assms(5) S0(4) S0(3) obtain S1 where S1: "resume g t S0 = Some (Inr S1)" "cleanups S1 = [?h]" "world S1 = w'"
        "spawned_done ?h t S1" "frames S1 = (frames S0)(?h := frames S1 ?h, t := frames S1 t)"
      by auto
    let ?l1 = "queueInLoop me (CleanupSpawned ?h) ?l"
    have fr: "(frames S1)(?h := None, t := None) = (frames S)(t := None)"
      by (subst S1(5), subst S0(5)) (use free in \<open>simp add: fun_eq_iff\<close>)
    have d: "destroy ?h (S1\<lparr>cleanups := []\<rparr>) = Inr (S1\<lparr>cleanups := [], frames := (frames S)(t := None)\<rparr>)"
      using destroy_spawned [of ?h t "S1\<lparr>cleanups := []\<rparr>"] S1(4) fr by (simp add: spawned_done_def)
    have sp: "spawnedTasks ?l1 = insert ?h (spawnedTasks l)" "pendingFunctors ?l1 = pendingFunctors l @ [CleanupSpawned ?h]"
      by (simp_all add: queueInLoop_def queue_push_def wakeup_def Let_def)
    have "spawn g me t (l, S) = Inr (?l1, S1\<lparr>cleanups := []\<rparr>)"
      using S0(1) S1 by (simp add: resume_on_def)
    then show ?thesis
      using Inr sp d assms(7) S1(3)
      by (auto simp: cleanupSpawnedTask_def intro!: exI)
  qed
qed

theorem spawn_cleans_up_witness:
  "\<exists>l1 S1 l2 S2. spawn 0 0 0 (sample_spawn_loop, sample_spawn_state) = Inr (l1, S1) \<and> pendingFunctors l1 = [CleanupSpawned 1]
     \<and> exec_spawn 0 0 (CleanupSpawned 1) (l1, S1) = Inr (l2, S2) \<and> frames S2 = (\<lambda>_. None) \<and> spawnedTasks l2 = {}"
proof -
  let ?p = "Call TInt (Ret (VInt 3)) (\<lambda>_. Ret VVoid)"
  have s: "next_frame sample_spawn_state = 1" "frames sample_spawn_state = [0 \<mapsto> new_frame 0 TVoid ?p]"
      "cleanups sample_spawn_state = []"
    by (simp_all add: sample_spawn_state_def create_def)
  have "runs None (world sample_spawn_state) ?p (Inr VVoid) (world sample_spawn_state)"
    by (rule runs_Call [OF runs_Ret]) simp
  with spawn_cleans_up [of sample_spawn_loop 0 sample_spawn_state 0 0 ?p "Inr VVoid" "world sample_spawn_state" 0] s show ?thesis
    by (auto simp: sample_spawn_loop_def heap_fresh_def)
qed

end
