(* ===== verification/EchoServer.thy ===== *)
theory EchoServer
  imports TcpServer "HOL-Library.Sublist"
begin

text \<open>
  The example program \<^verbatim>\<open>examples/echo_server.cc\<close>: the callbacks it installs on a \<^verbatim>\<open>TcpServer\<close>, its \<^verbatim>\<open>main\<close> up to the
  event loop, and one of its connections from establishment to destruction.
\<close>

section \<open>Callbacks\<close>

text \<open>
  Both callbacks print a line; \<open>inet_ntop\<close> is the C library's. On the connection itself the first has no
  effect, the second sends back what was received. \<open>wr\<close> is what \<^verbatim>\<open>write\<close> answers and \<open>me\<close> the thread.
\<close>

definition connection_line :: "(32 word \<Rightarrow> string) \<Rightarrow> tcp_conn \<Rightarrow> string" where
  "connection_line inet_ntop c =
     (if connected c then ''New connection from '' else ''Connection closed from '') @ toIpPort inet_ntop (peerAddress c) @ [CHR 10]"

definition onConnection_echo :: "conn_world \<Rightarrow> conn_world res" where
  "onConnection_echo w = Inr w"

definition message_line :: "(32 word \<Rightarrow> string) \<Rightarrow> tcp_conn \<Rightarrow> string \<Rightarrow> string" where
  "message_line inet_ntop c msg =
     ''Received '' @ dec (length msg) @ '' bytes from '' @ toIpPort inet_ntop (peerAddress c) @ '': '' @ msg"

definition onMessage_echo :: "write_fun \<Rightarrow> nat \<Rightarrow> conn_world \<Rightarrow> conn_world res" where
  "onMessage_echo wr me w =
     bind_res (retrieveAllAsString (inputBuffer (conn w))) (\<lambda>(msg, b). send wr me msg (set_in b w))"

definition echo_user_cbs :: "write_fun \<Rightarrow> nat \<Rightarrow> conn_cbs" where
  "echo_user_cbs wr me =
     TcpServer_setMessageCallback (Some (onMessage_echo wr me))
       (TcpServer_setConnectionCallback (Some onConnection_echo) no_cbs)"

text \<open>What a connection of this server has.\<close>

definition echo_cbs :: "write_fun \<Rightarrow> nat \<Rightarrow> conn_cbs" where
  "echo_cbs wr me = server_cbs (echo_user_cbs wr me)"

section \<open>The main program\<close>

definition signalHandler :: "nat \<Rightarrow> bool \<Rightarrow> ('k, 'f) event_loop \<Rightarrow> ('k, 'f) event_loop" where
  "signalHandler me g_loop_set l = (if g_loop_set then quit me l else l)"

text \<open>
  Everything \<^verbatim>\<open>main\<close> does before it enters the loop, its printing aside: \<open>lp\<close> is its loop, \<open>tid\<close> its thread, \<open>mk\<close> the worker
  loops that are made, \<open>k\<close> what the kernel answers.
\<close>

definition echo_setup :: "kernel \<Rightarrow> (nat \<Rightarrow> nat) \<Rightarrow> nat \<Rightarrow> nat \<Rightarrow> syscall list \<times> (server outcome) res" where
  "echo_setup k mk lp tid =
     (case TcpServer_ctor k (Some lp) tid (InetAddress_port 9999 False) ''EchoServer'' of
        (cs, Inl e) \<Rightarrow> (cs, Inl e)
      | (cs, Inr s) \<Rightarrow> (cs, Inr (then_do (setIoLoopNum 4 s) (TcpServer_start mk k tid))))"

section \<open>One connection of the server\<close>

text \<open>\<open>got\<close> are the bytes the kernel delivered on the connection so far.\<close>

record echo =
  ec :: conn_world
  got :: string

text \<open>
  Every event handler and functor of the connection, on its own loop's thread, and \<^verbatim>\<open>shutdown\<close> from
  \<^verbatim>\<open>TcpServer::stop\<close> on any thread. Nothing is read before the channel is enabled, which is when the
  connection is established.
\<close>

inductive echo_step :: "echo \<Rightarrow> echo \<Rightarrow> bool" where
  es_established: "write_documented wr \<Longrightarrow> connectEstablished (echo_cbs wr me) self me (ec s) = Inr w' \<Longrightarrow> echo_step s (s\<lparr>ec := w'\<rparr>)"
| es_read: "write_documented wr \<Longrightarrow> readv_documented readv \<Longrightarrow> conn_state (conn (ec s)) \<noteq> Connecting \<Longrightarrow>
    readFd readv (inputBuffer (conn (ec s))) 0 = Inr (n, e, b) \<Longrightarrow> handleRead (echo_cbs wr me) readv me (ec s) = Inr w' \<Longrightarrow>
    echo_step s \<lparr>ec = w', got = got s @ drop (length (content (inputBuffer (conn (ec s))))) (content b)\<rparr>"
| es_write: "write_documented wr \<Longrightarrow> handleWrite wr me (ec s) = Inr w' \<Longrightarrow> echo_step s (s\<lparr>ec := w'\<rparr>)"
| es_close: "write_documented wr \<Longrightarrow> handleClose (echo_cbs wr me) me (ec s) = Inr w' \<Longrightarrow> echo_step s (s\<lparr>ec := w'\<rparr>)"
| es_stop: "shutdown me (ec s) = Inr w' \<Longrightarrow> echo_step s (s\<lparr>ec := w'\<rparr>)"
| es_remove: "echo_step s (s\<lparr>ec := emit (Queued DestroyTask) (ec s)\<rparr>)"
| es_task: "write_documented wr \<Longrightarrow> Queued t \<in> set (trace (ec s)) \<Longrightarrow> run_task (echo_cbs wr me) wr me t (ec s) = Inr w' \<Longrightarrow>
    echo_step s (s\<lparr>ec := w'\<rparr>)"

definition echo_start :: "echo \<Rightarrow> bool" where
  "echo_start s \<longleftrightarrow> conn_start (ec s) \<and> got s = []"

section \<open>Invariant\<close>

text \<open>
  Between events the input buffer is empty, with its indices at the front and at least its initial
  size; everything received while the connection is up has been sent back.
\<close>

definition empty_input :: "buffer \<Rightarrow> bool" where
  "empty_input b \<longleftrightarrow> readerIndex b = kCheapPrepend \<and> writerIndex b = kCheapPrepend \<and> kCheapPrepend + kInitialSize \<le> length (buf_data b)"

definition echo_inv :: "echo \<Rightarrow> bool" where
  "echo_inv s \<longleftrightarrow> conn_inv (ec s) \<and> empty_input (inputBuffer (conn (ec s))) \<and> prefix (sent (trace (ec s))) (got s) \<and>
     (conn_state (conn (ec s)) \<in> {Connecting, Connected} \<longrightarrow> sent (trace (ec s)) = got s) \<and>
     (\<forall>m. Queued (SendTask m) \<notin> set (trace (ec s)))"

lemma echo_cbs_fields [simp]:
  "connectionCb (echo_cbs wr me) = Some onConnection_echo" "messageCb (echo_cbs wr me) = Some (onMessage_echo wr me)"
  "closeCb (echo_cbs wr me) = Some Inr"
  by (simp_all add: echo_cbs_def server_cbs_eq echo_user_cbs_def TcpServer_setMessageCallback_def
      TcpServer_setConnectionCallback_def no_cbs_def)

lemma echo_cbs_ok: "write_documented wr \<Longrightarrow> cbs_ok (echo_cbs wr me)"
proof -
  assume wr: "write_documented wr"
  have "onConnection_echo = Inr" by (simp add: fun_eq_iff onConnection_echo_def)
  moreover have "api_fun (onMessage_echo wr me)"
    unfolding onMessage_echo_def by (rule api_takeall) (rule api_send [OF wr])
  ultimately show "cbs_ok (echo_cbs wr me)"
    by (auto simp: cbs_ok_def cb_list_def intro: api_skip)
qed

text \<open>A step that neither receives nor sends.\<close>

definition keeps_stream :: "conn_world \<Rightarrow> conn_world \<Rightarrow> bool" where
  "keeps_stream w w' \<longleftrightarrow>
     (\<exists>tr. trace w' = trace w @ tr \<and> sent tr = [] \<and> (\<forall>m. Queued (SendTask m) \<notin> set tr)) \<and>
     inputBuffer (conn w') = inputBuffer (conn w) \<and>
     (conn_state (conn w') \<in> {Connecting, Connected} \<longrightarrow> conn_state (conn w) \<in> {Connecting, Connected})"

lemma keeps_stream_refl [simp]: "keeps_stream w w"
  by (simp add: keeps_stream_def)

lemma keeps_stream_trans:
  assumes "keeps_stream u v" and "keeps_stream v w"
  shows "keeps_stream u w"
proof -
  obtain t1 t2 where "trace v = trace u @ t1" "sent t1 = []" "\<forall>m. Queued (SendTask m) \<notin> set t1"
      "trace w = trace v @ t2" "sent t2 = []" "\<forall>m. Queued (SendTask m) \<notin> set t2"
    using assms by (auto simp: keeps_stream_def)
  with assms show ?thesis
    unfolding keeps_stream_def by (intro conjI exI [of _ "t1 @ t2"]) auto
qed

lemma keeps_stream_simps:
  "(\<And>m. e \<noteq> SendReq m) \<Longrightarrow> (\<And>m. e \<noteq> Queued (SendTask m)) \<Longrightarrow> keeps_stream w (emit e w)"
  "keeps_stream w (set_out b w)" "keeps_stream w (set_chan ch w)" "keeps_stream w (update_interest ch w)"
  "st \<in> {Connecting, Connected} \<longrightarrow> conn_state (conn w) \<in> {Connecting, Connected} \<Longrightarrow> keeps_stream w (set_state st w)"
  "keeps_stream w (disable_all w)"
proof -
  show "keeps_stream w (emit e w)" if "\<And>m. e \<noteq> SendReq m" "\<And>m. e \<noteq> Queued (SendTask m)"
    using that by (cases e) (auto simp: keeps_stream_def emit_def)
qed (auto simp: keeps_stream_def world_defs)

lemma shutdownInLoop_keeps: "shutdownInLoop me w = Inr w' \<Longrightarrow> keeps_stream w w'"
  by (auto simp: shutdownInLoop_def res_simps intro: keeps_stream_simps)

lemma shutdown_keeps: "shutdown me w = Inr w' \<Longrightarrow> keeps_stream w w'"
  by (auto simp: shutdown_def Let_def split: if_splits
      intro: keeps_stream_trans [OF keeps_stream_simps(5)] shutdownInLoop_keeps keeps_stream_simps)

lemma handleWrite_keeps: "handleWrite wr me w = Inr w' \<Longrightarrow> keeps_stream w w'"
proof -
  assume ret: "handleWrite wr me w = Inr w'"
  have base: "keeps_stream w (set_out b (emit (Wrote d) w))" "keeps_stream w (update_interest ch (set_out b (emit (Wrote d) w)))" for b d ch
    by (blast intro: keeps_stream_trans keeps_stream_simps)+
  show ?thesis
  proof (cases "w' = w")
    case False
    define go where "go n b data = (let w1 = set_out b (emit (Wrote (take n data)) w) in
         if readableBytes b = 0
         then let w2 = update_interest (disableWriting_mask (conn_chan (conn w1))) w1 in
           if conn_state (conn w2) = Disconnecting then shutdownInLoop me w2 else Inr w2
         else Inr w1 :: conn_world res)" for n b data
    obtain data where "(case wr data of
        Inr n \<Rightarrow> if 0 < n then bind_res (retrieve (outputBuffer (conn w)) n) (\<lambda>b. go n b data) else Inr w
      | Inl e \<Rightarrow> Inr w) = Inr w'"
      using ret False unfolding handleWrite_def go_def by (auto simp only: bind_res_eq_Inr sum.inject split: if_splits)
    then obtain n b where "go n b data = Inr w'"
      using False by (auto simp: bind_res_eq_Inr split: sum.splits if_splits)
    then show ?thesis
      by (auto simp: go_def Let_def split: if_splits intro: base keeps_stream_trans [OF base(2) shutdownInLoop_keeps])
  qed simp
qed

lemma handleClose_keeps: "handleClose (echo_cbs wr me) me w = Inr w' \<Longrightarrow> keeps_stream w w' \<and> conn_state (conn w') = Disconnected"
  by (auto simp: handleClose_def res_simps Let_def call_optional_def call_required_def onConnection_echo_def
      keeps_stream_def world_defs)

lemma connectDestroyed_keeps: "connectDestroyed (echo_cbs wr me) me w = Inr w' \<Longrightarrow> keeps_stream w w'"
  by (auto simp: connectDestroyed_def res_simps Let_def call_optional_def onConnection_echo_def
      keeps_stream_def world_defs split: if_splits)

lemma connectEstablished_keeps: "connectEstablished (echo_cbs wr me) self me w = Inr w' \<Longrightarrow> keeps_stream w w'"
  by (auto simp: connectEstablished_def res_simps Let_def call_optional_def onConnection_echo_def
      keeps_stream_def world_defs)
section \<open>Every step keeps the invariant\<close>

lemma keeps_echo_inv:
  assumes inv: "echo_inv s" and ok: "conn_ok (ec s) w'" and keeps: "keeps_stream (ec s) w'"
  shows "echo_inv (s\<lparr>ec := w'\<rparr>)"
proof -
  obtain tr where tr: "trace w' = trace (ec s) @ tr" "sent tr = []" "\<forall>m. Queued (SendTask m) \<notin> set tr"
    using keeps by (auto simp: keeps_stream_def)
  have "conn_inv w'" using inv ok by (simp add: echo_inv_def conn_ok_def)
  with inv keeps tr show ?thesis by (auto simp: echo_inv_def keeps_stream_def)
qed

lemma try_write_keeps: "try_write wr m w = (n, f, w1) \<Longrightarrow> keeps_stream w w1 \<and> conn_state (conn w1) = conn_state (conn w)"
  by (auto simp: try_write_def keeps_stream_simps split: if_splits sum.splits)

lemma sendInLoop_sends:
  assumes "sendInLoop wr me m w = Inr w'"
  shows "keeps_stream (emit (SendReq m) w) w' \<and> conn_state (conn w') = conn_state (conn w)"
proof -
  obtain n f w1 where t: "try_write wr m (emit (SendReq m) w) = (n, f, w1)" by (cases "try_write wr m (emit (SendReq m) w)") auto
  have k: "keeps_stream w1 (set_out b w1)" "keeps_stream w1 (update_interest ch (set_out b w1))" "keeps_stream w1 (emit (Dropped m) w1)"
    for b ch
    by (blast intro: keeps_stream_trans keeps_stream_simps)+
  have st: "conn_state (conn (update_interest ch u)) = conn_state (conn u)" for ch u
    by (simp add: update_interest_def set_chan_def)
  have "keeps_stream w1 w' \<and> conn_state (conn w') = conn_state (conn w1)"
    using assms t k by (auto simp: sendInLoop_def res_simps Let_def st split: if_splits)
  with try_write_keeps [OF t] show ?thesis by (auto intro: keeps_stream_trans)
qed

lemma onMessage_echo_inv:
  assumes inv: "conn_inv w" and b: "buf_inv b" "kCheapPrepend + kInitialSize \<le> length (buf_data b)"
    and ret: "onMessage_echo wr me (emit CbMessage (set_in b w)) = Inr w'" and me: "conn_in_loop me w"
  shows "empty_input (inputBuffer (conn w'))"
    and "conn_state (conn w') = conn_state (conn w)"
    and "\<exists>tr. trace w' = trace w @ tr \<and> sent tr = (if conn_state (conn w) = Connected then content b else [])
           \<and> (\<forall>m. Queued (SendTask m) \<notin> set tr)"
proof -
  let ?w = "set_in (retrieveAll b) (emit CbMessage (set_in b w))"
  have send: "send wr me (content b) ?w = Inr w'"
    using ret b(1) by (simp add: onMessage_echo_def retrieveAllAsString_ok set_in_def)
  have w: "conn_state (conn ?w) = conn_state (conn w)" "conn_in_loop me ?w" "trace ?w = trace w @ [CbMessage]"
      "inputBuffer (conn ?w) = retrieveAll b"
    using me by (simp_all add: set_in_def emit_def conn_in_loop_def)
  have e: "empty_input (retrieveAll b)" using b(2) by (simp add: empty_input_def retrieveAll_def)
  have "empty_input (inputBuffer (conn w')) \<and> conn_state (conn w') = conn_state (conn w) \<and>
    (\<exists>tr. trace w' = trace w @ tr \<and> sent tr = (if conn_state (conn w) = Connected then content b else [])
           \<and> (\<forall>m. Queued (SendTask m) \<notin> set tr))"
  proof (cases "conn_state (conn w) = Connected")
    case True
    then have "sendInLoop wr me (content b) ?w = Inr w'" using send w by (simp add: send_def)
    from sendInLoop_sends [OF this] w e True show ?thesis
      by (fastforce simp: keeps_stream_def)
  next
    case False
    then have "w' = ?w" using send w(1) by (simp add: send_def)
    with w e False show ?thesis by auto
  qed
  then show "empty_input (inputBuffer (conn w'))" "conn_state (conn w') = conn_state (conn w)"
    "\<exists>tr. trace w' = trace w @ tr \<and> sent tr = (if conn_state (conn w) = Connected then content b else [])
           \<and> (\<forall>m. Queued (SendTask m) \<notin> set tr)" by auto
qed

lemma empty_input_content: "empty_input b \<Longrightarrow> content b = []"
  by (simp add: empty_input_def content_def)

lemma read_keeps:
  assumes inv: "echo_inv s" and wr: "write_documented wr" and rv: "readv_documented readv"
    and st: "conn_state (conn (ec s)) \<noteq> Connecting"
    and rd: "readFd readv (inputBuffer (conn (ec s))) 0 = Inr (n, e, b)" and ret: "handleRead (echo_cbs wr me) readv me (ec s) = Inr w'"
  shows "echo_inv \<lparr>ec = w', got = got s @ drop (length (content (inputBuffer (conn (ec s))))) (content b)\<rparr>"
proof -
  let ?w = "ec s"
  have ci: "conn_inv ?w" and empty: "empty_input (inputBuffer (conn ?w))" using inv by (simp_all add: echo_inv_def)
  then have bi: "buf_inv (inputBuffer (conn ?w))" and c0: "content (inputBuffer (conn ?w)) = []"
    by (simp_all add: conn_inv_def empty_input_content)
  have me: "conn_in_loop me ?w" using ret by (auto simp: handleRead_def conn_assert_loop_def res_simps)
  have b: "buf_inv b" "kCheapPrepend + kInitialSize \<le> length (buf_data b)" "n \<le> 0 \<Longrightarrow> b = inputBuffer (conn ?w)"
    using readFd_sound [OF bi rv rd] readFd_storage [OF bi rv rd] empty by (auto simp: empty_input_def)
  have ci': "conn_inv w'"
    using handleRead_ok [OF echo_cbs_ok [OF wr] rv ret] ci by (simp add: conn_ok_def)
  show ?thesis
  proof (cases "0 < n")
    case True
    then have msg: "onMessage_echo wr me (emit CbMessage (set_in b ?w)) = Inr w'"
      using ret rd by (auto simp: handleRead_def res_simps call_required_def)
    note m = onMessage_echo_inv [OF ci b(1,2) msg me]
    from m(3) obtain tr where tr: "trace w' = trace ?w @ tr" "sent tr = (if conn_state (conn ?w) = Connected then content b else [])"
        "\<forall>m. Queued (SendTask m) \<notin> set tr" by blast
    show ?thesis
      using inv ci' m(1,2) tr st c0 by (auto simp: echo_inv_def)
  next
    case False
    then have same: "set_in b ?w = ?w" "content b = []" using b(3) c0 by (simp_all add: set_in_def)
    have upd: "\<lparr>ec = w', got = got s\<rparr> = s\<lparr>ec := w'\<rparr>" for w' by (cases s) simp
    show ?thesis
    proof (cases "n = 0")
      case True
      then have "handleClose (echo_cbs wr me) me ?w = Inr w'"
        using ret rd same by (auto simp: handleRead_def res_simps)
      from keeps_echo_inv [OF inv _ conjunct1 [OF handleClose_keeps [OF this]]] handleRead_ok [OF echo_cbs_ok [OF wr] rv ret]
      show ?thesis by (simp add: same(2) upd)
    next
      case neg: False
      then have "w' = ?w" using ret rd same False by (auto simp: handleRead_def res_simps handleError_def)
      with inv show ?thesis by (simp add: same(2) upd)
    qed
  qed
qed

lemma echo_step_inv: "echo_step s s' \<Longrightarrow> echo_inv s \<Longrightarrow> echo_inv s'"
proof (induction rule: echo_step.induct)
  case (es_established wr me self s w')
  then show ?case
    by (intro keeps_echo_inv) (auto intro: connectEstablished_ok [OF echo_cbs_ok] connectEstablished_keeps)
next
  case (es_read wr readv s n e b me w')
  then show ?case by (intro read_keeps)
next
  case (es_write wr me s w')
  then show ?case by (intro keeps_echo_inv handleWrite_ok [where wr = wr] handleWrite_keeps)
next
  case (es_close wr me s w')
  then show ?case
    using handleClose_keeps [OF es_close(2)] handleClose_ok [OF _ es_close(2)] cbs_ok_call [OF echo_cbs_ok [OF es_close(1)]]
    by (blast intro: keeps_echo_inv)
next
  case (es_stop me s w')
  then show ?case by (intro keeps_echo_inv shutdown_ok shutdown_keeps)
next
  case (es_remove s)
  then show ?case by (intro keeps_echo_inv emit_ok keeps_stream_simps) simp_all
next
  case (es_task wr t s me w')
  then have "conn_ok (ec s) w' \<and> keeps_stream (ec s) w'"
    using shutdownInLoop_ok shutdownInLoop_keeps handleClose_ok [OF cbs_ok_call [OF echo_cbs_ok [OF es_task(1)]]] handleClose_keeps
      connectDestroyed_ok [OF echo_cbs_ok [OF es_task(1)]] connectDestroyed_keeps
    by (cases t) (auto simp: echo_inv_def)
  with es_task.prems show ?case by (blast intro: keeps_echo_inv)
qed

lemma echo_start_inv: "echo_start s \<Longrightarrow> echo_inv s"
  using conn_start_inv [of "ec s"]
  by (auto simp: echo_start_def echo_inv_def conn_start_def TcpConnection_ctor_def empty_input_def Buffer_default_fields
      kInitialSize_def kCheapPrepend_def)

interpretation echoing: invariant_machine echo_start echo_step echo_inv
  by unfold_locales (blast intro: echo_start_inv echo_step_inv)+
text \<open>The dispatch of an event of the connection's channel is made of these steps.\<close>

lemma call_if_run: "call_if P (Some f) u = Inr v \<Longrightarrow> v = u \<or> f u = Inr v"
  by (auto simp: call_if_def split: if_splits)

lemma dispatch_is_steps:
  assumes wr: "write_documented wr" and rv: "readv_documented readv" and st: "conn_state (conn (ec s)) \<noteq> Connecting"
    and ret: "handle_event (echo_cbs wr me) wr readv alive me r (ec s) = Inr w'"
  shows "\<exists>s'. echo_step\<^sup>*\<^sup>* s s' \<and> ec s' = w'"
proof (cases "w' = ec s")
  case False
  have err: "call_if P (Some (\<lambda>w. Inr (handleError w))) u = Inr u" for P u
    by (simp add: call_if_def handleError_def)
  obtain w1 w2 where c: "call_if (r AND kCloseEvent \<noteq> 0) (Some (handleClose (echo_cbs wr me) me)) (ec s) = Inr w1"
      "call_if (r AND kReadEvent \<noteq> 0) (Some (handleRead (echo_cbs wr me) readv me)) w1 = Inr w2"
      "call_if (r AND kWriteEvent \<noteq> 0) (Some (handleWrite wr me)) w2 = Inr w'"
    using ret False
    by (auto simp: handle_event_def handleEvent_def handleEventWithGuard_def conn_channel_callbacks_def setRevents_def err
        bind_res_eq_Inr simp del: not_None_eq split: if_splits)
  let ?s1 = "s\<lparr>ec := w1\<rparr>"
  have s1: "echo_step\<^sup>*\<^sup>* s ?s1" "conn_state (conn w1) \<noteq> Connecting"
    using call_if_run [OF c(1)] es_close [OF wr, of me s w1] handleClose_keeps [of wr me "ec s" w1] st by auto
  obtain s2 where s2: "echo_step\<^sup>*\<^sup>* ?s1 s2" "ec s2 = w2"
  proof (cases "w2 = w1")
    case False
    then have h: "handleRead (echo_cbs wr me) readv me (ec ?s1) = Inr w2" using call_if_run [OF c(2)] by simp
    then obtain n e b where rd: "readFd readv (inputBuffer (conn (ec ?s1))) 0 = Inr (n, e, b)"
      by (auto simp: handleRead_def res_simps)
    let ?s2 = "\<lparr>ec = w2, got = got s @ drop (length (content (inputBuffer (conn w1)))) (content b)\<rparr>"
    have "echo_step ?s1 ?s2" using es_read [OF wr rv _ rd h] s1(2) by simp
    then show ?thesis by (intro that [of ?s2]) auto
  qed (use that [of ?s1] in simp)
  then have "echo_step\<^sup>*\<^sup>* s2 (s2\<lparr>ec := w'\<rparr>)"
    using call_if_run [OF c(3)] es_write [OF wr, of me s2 w'] by auto
  with s1(1) s2(1) show ?thesis
    by (intro exI [of _ "s2\<lparr>ec := w'\<rparr>"]) (auto intro: rtranclp_trans)
qed auto

text \<open>A chunk no longer than the initial size always fits an empty input buffer.\<close>

lemma read_chunk:
  assumes b: "buf_inv b" "empty_input b" and d: "length d \<le> kInitialSize" and rv: "\<And>lens. readv lens = Inr d"
  shows "\<exists>b'. readFd readv b se = Inr (int (length d), se, b') \<and> buf_inv b' \<and> content b' = d"
proof -
  have w: "length d \<le> writableBytes b" "writerIndex b + length d \<le> length (buf_data b)"
    using b d by (auto simp: writableBytes_inv empty_input_def)
  from readFd_fits [where readv = readv, OF b(1) w(1) rv w(2)] show ?thesis
    using empty_input_content [OF b(2)] by auto
qed

lemma sendInLoop_no_close:
  "sendInLoop wr me m w = Inr w' \<Longrightarrow> \<exists>tr. trace w' = trace w @ tr \<and> CbClose \<notin> set tr \<and> conn_state (conn w') = conn_state (conn w)"
  by (cases "wr m"; cases "isWriting (conn_chan (conn w))"; cases "readableBytes (outputBuffer (conn w)) = 0")
     (auto simp: sendInLoop_def try_write_def bind_res_eq_Inr Let_def world_defs split: if_splits)

text \<open>What the read handler of the echo server does with a chunk.\<close>

lemma echo_chunk:
  assumes inv: "conn_inv w" and empty: "empty_input (inputBuffer (conn w))" and st: "conn_state (conn w) = Connected"
    and me: "conn_in_loop me w" and idle: "\<not> isWriting (conn_chan (conn w))" "content (outputBuffer (conn w)) = []"
    and room: "writerIndex (outputBuffer (conn w)) + length d \<le> vec_max"
    and rv: "\<And>lens. readv lens = Inr d" and d: "0 < length d" "length d \<le> 1024"
    and wr: "write_documented wr" "wr d = Inr n"
  shows "\<exists>w' tr. handleRead (echo_cbs wr me) readv me w = Inr w' \<and> written (trace w') = written (trace w) @ take n d
    \<and> content (outputBuffer (conn w')) = drop n d \<and> isWriting (conn_chan (conn w')) = (n < length d)
    \<and> trace w' = trace w @ tr \<and> CbClose \<notin> set tr \<and> conn_state (conn w') = Connected"
proof -
  have "buf_inv (inputBuffer (conn w))" using inv by (simp add: conn_inv_def)
  from read_chunk [where se = 0 and readv = readv, OF this empty _ rv] d(2) obtain b where
    b: "readFd readv (inputBuffer (conn w)) 0 = Inr (int (length d), 0, b)" "buf_inv b" "content b = d"
    by (auto simp: kInitialSize_def)
  let ?w2 = "set_in (retrieveAll b) (emit CbMessage (set_in b w))"
  have ok: "conn_ok w (emit CbMessage (set_in b w))" "conn_ok (emit CbMessage (set_in b w)) ?w2"
    using b(2) by (auto intro: conn_ok_trans [OF set_in_ok emit_ok] set_in_ok)
  then have inv2: "conn_inv ?w2" using inv by (simp add: conn_ok_def)
  have f: "conn_in_loop me ?w2" "\<not> isWriting (conn_chan (conn ?w2))" "outputBuffer (conn ?w2) = outputBuffer (conn w)"
      "conn_state (conn ?w2) = Connected" "written (trace ?w2) = written (trace w)" "trace ?w2 = trace w @ [CbMessage]"
    using st me idle by (simp_all add: set_in_def emit_def conn_in_loop_def)
  have h: "handleRead (echo_cbs wr me) readv me w = sendInLoop wr me d ?w2"
    using st me d(1) b f(1,4)
    by (simp add: handleRead_def conn_assert_loop_def call_required_def onMessage_echo_def retrieveAllAsString_ok set_in_def send_def)
  from sendInLoop_outcome [OF inv2 f(1) wr(1) f(2), of d] idle(2) room wr(2) f obtain w' where
    w': "sendInLoop wr me d ?w2 = Inr w'" "written (trace w') = written (trace w) @ take n d"
      "content (outputBuffer (conn w')) = drop n d" "isWriting (conn_chan (conn w')) = (n < length d)" by auto
  with sendInLoop_no_close [OF w'(1)] h f(4,6) show ?thesis by auto
qed

section \<open>The main program reaches the loop\<close>

text \<open>When every call succeeds the server listens with four worker loops.\<close>

lemma echo_setup_serves:
  assumes "echo_setup k mk lp tid = (cs, Inr (s, Inr ()))"
  shows "srv_started s \<and> Pool_size (threadPool s) = 4 \<and> srv_name s = ''EchoServer'' \<and> connections s = []
    \<and> (\<exists>a. srv_acceptor s = Some a \<and> listening a)"
proof -
  obtain s0 where s0: "TcpServer_ctor k (Some lp) tid (InetAddress_port 9999 False) ''EchoServer'' = (cs, Inr s0)"
      "then_do (setIoLoopNum 4 s0) (TcpServer_start mk k tid) = (s, Inr ())"
    using assms by (auto simp: echo_setup_def split: prod.splits sum.splits)
  let ?p = "\<lparr>baseLoop = lp, base_tid = tid, numThreads = 4, pool_loops = [], next_counter = 0, pool_started = False\<rparr>"
  have f: "srv_loop s0 = lp" "srv_tid s0 = tid" "\<not> srv_started s0" "srv_name s0 = ''EchoServer''" "connections s0 = []"
    using s0(1) by (auto simp: TcpServer_ctor_def bind_sys_def res_simps split: prod.splits sum.splits)
  then have "TcpServer_start mk k tid (s0\<lparr>threadPool := ?p\<rparr>) = (s, Inr ())"
    using s0(2) by (simp add: setIoLoopNum_def EventLoopThreadPool_ctor_def then_do_def)
  with f show ?thesis
    by (auto simp: TcpServer_start_def Pool_start_def pool_assertInLoopThread_def listen_in_loop_def Acceptor_listen_def
        start_threads_loops Pool_size_def add_calls_def Let_def split: option.splits prod.splits sum.splits if_splits)
qed

section \<open>Properties\<close>

text \<open>A run: the connection is established, reads a chunk and answers it.\<close>

definition sample_echo :: echo where
  "sample_echo = \<lparr>ec = sample_established, got = []\<rparr>"

lemma sample_echo_reachable: "reachable echo_start echo_step sample_echo"
proof (rule reachable_step)
  let ?s = "\<lparr>ec = sample_conn, got = []\<rparr>"
  show "reachable echo_start echo_step ?s"
    by (rule reachable_start) (unfold echo_start_def conn_start_def sample_conn_def, simp, blast)
  have "connectEstablished (echo_cbs take_all 7) 3 7 sample_conn = Inr sample_established"
    by (simp add: connectEstablished_def sample_established_def sample_conn_def TcpConnection_ctor_def conn_assert_loop_def
        conn_in_loop_def call_optional_def onConnection_echo_def world_defs Let_def)
  from es_established [OF take_all_documented, of 7 3 ?s sample_established] this
  show "echo_step ?s sample_echo" by (simp add: sample_echo_def)
qed

text \<open>C8. The echo server returns what it receives: in every state of a connection, whatever sequence of events,
  functors and calls led to it, the bytes sent on it are a prefix of the bytes received from it, and all
  of them while the connection is up; what was written to the socket followed by what is still buffered
  is what was sent, unless the peer is gone. So nothing is invented, lost or reordered.\<close>

theorem echo_returns_input:
  assumes "reachable echo_start echo_step s"
  shows "prefix (sent (trace (ec s))) (got s)
    \<and> (conn_state (conn (ec s)) = Connected \<longrightarrow> sent (trace (ec s)) = got s)
    \<and> (no_drop (trace (ec s)) \<longrightarrow> written (trace (ec s)) @ content (outputBuffer (conn (ec s))) = sent (trace (ec s)))"
proof -
  have "echo_inv s" by (rule echoing.reachable_inv [OF assms])
  then show ?thesis unfolding echo_inv_def conn_inv_def by blast
qed

theorem echo_returns_input_witness:
  "sent (trace (ec sample_echo)) = got sample_echo \<and> written (trace (ec sample_echo)) = []"
  using echo_returns_input [OF sample_echo_reachable] by (simp add: sample_echo_def sample_fields)

text \<open>A chunk of up to 1024 bytes is answered at once: in every reachable state in which the connection is up and
  nothing is waiting to be written, the read handler returns, the first \<open>n\<close> bytes, which the kernel
  takes, are written back, and the rest is buffered with write interest on.\<close>

theorem echo_answers_chunk:
  assumes "reachable echo_start echo_step s" and "conn_state (conn (ec s)) = Connected" and "conn_in_loop me (ec s)"
    and "\<not> isWriting (conn_chan (conn (ec s)))" and "content (outputBuffer (conn (ec s))) = []"
    and "writerIndex (outputBuffer (conn (ec s))) + length d \<le> vec_max"
    and "\<And>lens. readv lens = Inr d" and "0 < length d" and "length d \<le> 1024"
    and "write_documented wr" and "wr d = Inr n"
  shows "\<exists>w'. handleRead (echo_cbs wr me) readv me (ec s) = Inr w' \<and> written (trace w') = written (trace (ec s)) @ take n d
    \<and> content (outputBuffer (conn w')) = drop n d \<and> isWriting (conn_chan (conn w')) = (n < length d)"
proof -
  have "conn_inv (ec s)" "empty_input (inputBuffer (conn (ec s)))"
    using echoing.reachable_inv [OF assms(1)] by (simp_all add: echo_inv_def)
  from echo_chunk [where readv = readv and wr = wr, OF this assms(2-11)] show ?thesis by blast
qed

theorem echo_answers_chunk_witness:
  "\<exists>w'. handleRead (echo_cbs take_all 7) (\<lambda>_. Inr ''hi'') 7 (ec sample_echo) = Inr w' \<and> written (trace w') = ''hi''"
proof -
  from echo_answers_chunk [OF sample_echo_reachable, of 7 "''hi''" "\<lambda>_. Inr ''hi''" take_all 2] show ?thesis
    by (auto simp: sample_echo_def sample_fields conn_in_loop_def Buffer_default_fields kCheapPrepend_def take_all_documented
        take_all_def)
qed

end
