(* ===== verification/CoroEcho.thy ===== *)
theory CoroEcho
  imports AsyncLifetime Spawn EchoServer
begin

text \<open>
  The example program \<^verbatim>\<open>examples/coro_echo_server.cc\<close>: the coroutines \<^verbatim>\<open>handleClient\<close> and \<^verbatim>\<open>runServer\<close> over the awaiters of
  \<^verbatim>\<open>AsyncConnection\<close> and \<^verbatim>\<open>AsyncServer\<close>, its \<^verbatim>\<open>main\<close> up to the event loop, and any number of its clients under the
  events of their connections.
\<close>

section \<open>What the coroutines see\<close>

text \<open>
  The awaitable server with its wrappers, the connections, what was printed, the flag \<^verbatim>\<open>running\<close>, the
  thread that runs and what \<^verbatim>\<open>write\<close> answers it, and the calls of \<^verbatim>\<open>spawn\<close> to be carried out: wrapper of the
  connection and calling coroutine.
\<close>

record echo_world =
  ew_srv :: async_server
  ew_conns :: "nat \<Rightarrow> conn_world option"
  ew_out :: "string list"
  ew_running :: bool
  ew_thread :: nat
  ew_write :: write_fun
  ew_spawns :: "(nat \<times> nat) list"

abbreviation async :: "echo_world \<Rightarrow> async_world" where
  "async W \<equiv> as_world (ew_srv W)"

definition put_async :: "async_world \<Rightarrow> echo_world \<Rightarrow> echo_world" where
  "put_async A W = W\<lparr>ew_srv := (ew_srv W)\<lparr>as_world := A\<rparr>\<rparr>"

definition put_ec :: "nat \<Rightarrow> conn_world \<Rightarrow> echo_world \<Rightarrow> echo_world" where
  "put_ec c w W = W\<lparr>ew_conns := (ew_conns W)(c \<mapsto> w)\<rparr>"

definition print :: "string \<Rightarrow> echo_world \<Rightarrow> echo_world" where
  "print s W = W\<lparr>ew_out := ew_out W @ [s @ [CHR 10]]\<rparr>"

definition conn_objs :: "echo_world \<Rightarrow> nat \<Rightarrow> tcp_conn option" where
  "conn_objs W c = map_option conn (ew_conns W c)"

section \<open>Completed writes\<close>

text \<open>
  The wrapper installs a write-complete callback on its connection. The connection marks its trace when
  it invokes it; for every mark that an operation left, \<^verbatim>\<open>onWriteComplete\<close> of the wrapper the callback was bound
  to runs.
\<close>

definition write_completes :: "nat \<Rightarrow> async_world \<Rightarrow> async_world res" where
  "write_completes c A = (case wc_cb A c of None \<Rightarrow> Inl BadFunctionCall | Some a \<Rightarrow> onWriteComplete a A)"

primrec complete_writes :: "nat \<Rightarrow> nat \<Rightarrow> async_world \<Rightarrow> async_world res" where
  "complete_writes 0 c A = Inr A"
| "complete_writes (Suc n) c A = bind_res (write_completes c A) (complete_writes n c)"

definition new_completions :: "conn_world \<Rightarrow> conn_world \<Rightarrow> nat" where
  "new_completions w w' = length (filter (\<lambda>e. e = CbWriteComplete) (drop (length (trace w)) (trace w')))"

definition announce :: "nat \<Rightarrow> conn_world \<Rightarrow> conn_world \<Rightarrow> echo_world \<Rightarrow> echo_world res" where
  "announce c w w' W = bind_res (complete_writes (new_completions w w') c (async W)) (\<lambda>A. Inr (put_async A W))"

text \<open>No operation of a connection announces a completed write.\<close>

lemma announce_none: "conn_inv w' \<Longrightarrow> announce c w w' W = Inr W"
proof -
  assume "conn_inv w'"
  then have "CbWriteComplete \<notin> set (trace w')" by (simp add: conn_inv_def)
  then have "filter (\<lambda>e. e = CbWriteComplete) (drop (length (trace w)) (trace w')) = []"
    by (auto simp: filter_empty_conv dest: in_set_dropD)
  then show ?thesis by (simp add: announce_def new_completions_def put_async_def)
qed

section \<open>Awaiting on a connection\<close>

text \<open>\<^verbatim>\<open>co_await conn.recv()\<close> and \<^verbatim>\<open>co_await conn.send(data)\<close> for the wrapper at \<open>a\<close>.\<close>

definition recv_suspend :: "nat \<Rightarrow> nat \<Rightarrow> echo_world \<Rightarrow> echo_world res" where
  "recv_suspend a h W = bind_res (recv_await_suspend a h (async W)) (\<lambda>A. Inr (put_async A W))"

definition recv_finish :: "nat \<Rightarrow> echo_world \<Rightarrow> (buffer \<times> echo_world) res" where
  "recv_finish a W = bind_res (recv_await_resume a (async W)) (\<lambda>(b, A). Inr (b, put_async A W))"

definition recv :: "nat \<Rightarrow> (buffer \<Rightarrow> (echo_world, 'l) block) \<Rightarrow> (echo_world, 'l) block" where
  "recv a k = co_await_block (\<lambda>W. recv_await_ready a (async W)) (recv_suspend a) (recv_finish a) k"

text \<open>The awaiter's \<^verbatim>\<open>conn_->send(data_)\<close> happens under the mutex, after the handle was stored.\<close>

definition send_suspend :: "nat \<Rightarrow> string \<Rightarrow> nat \<Rightarrow> echo_world \<Rightarrow> echo_world res" where
  "send_suspend a data h W =
     bind_res (send_await_suspend a h data (async W))
       (\<lambda>A. case conn_of A a of
          None \<Rightarrow> Inl NullDeref
        | Some c \<Rightarrow> (case ew_conns W c of
              None \<Rightarrow> Inl UseAfterFree
            | Some w \<Rightarrow> bind_res (send (ew_write W) (ew_thread W) data w) (\<lambda>w'. announce c w w' (put_ec c w' (put_async A W)))))"

definition send_data :: "nat \<Rightarrow> string \<Rightarrow> (unit \<Rightarrow> (echo_world, 'l) block) \<Rightarrow> (echo_world, 'l) block" where
  "send_data a data k = co_await_block (\<lambda>W. Inr (send_await_ready a (async W))) (send_suspend a data) (\<lambda>W. Inr ((), W)) k"

section \<open>The coroutine of a client\<close>

text \<open>
  \<open>ntop\<close> is \<^verbatim>\<open>inet_ntop\<close>. A label of the code is the peer's printed address, which the body computes first.
  The only exception the handler of the body could see is a \<^verbatim>\<open>std::length_error\<close> of a send whose buffer
  would exceed the address space; it is a fault of the model.
\<close>

definition up_line :: "string \<Rightarrow> string" where
  "up_line peer = ''[+] Client connected: '' @ peer"

definition down_line :: "string \<Rightarrow> string" where
  "down_line peer = ''[-] Client disconnected: '' @ peer"

definition client_exit :: "string \<Rightarrow> (echo_world, string) block" where
  "client_exit peer = BDo (\<lambda>W. Inr (print (down_line peer) W, BRet VVoid))"

definition bytes_line :: "string \<Rightarrow> string \<Rightarrow> buffer \<Rightarrow> string" where
  "bytes_line peer what buf = ''['' @ peer @ ''] '' @ what @ '' '' @ dec (readableBytes buf) @ '' bytes''"

definition client_sent :: "string \<Rightarrow> buffer \<Rightarrow> unit \<Rightarrow> (echo_world, string) block" where
  "client_sent peer buf u = BDo (\<lambda>W. Inr (print (bytes_line peer ''sent'' buf) W, BNext peer))"

definition client_received :: "nat \<Rightarrow> string \<Rightarrow> buffer \<Rightarrow> (echo_world, string) block" where
  "client_received a peer buf =
     (if readableBytes buf = 0 then client_exit peer
      else BDo (\<lambda>W. bind_res (peek buf (readableBytes buf))
             (\<lambda>data. Inr (print (bytes_line peer ''recv'' buf) W, send_data a data (client_sent peer buf)))))"

definition client_loop :: "nat \<Rightarrow> string \<Rightarrow> (echo_world, string) block" where
  "client_loop a peer =
     BDo (\<lambda>W. with_ac a (async W) (\<lambda>x. bind_res (AsyncConnection_connected (conn_objs W) x)
       (\<lambda>up. Inr (W, if up then recv a (client_received a peer) else client_exit peer))))"

definition client_begin :: "(32 word \<Rightarrow> string) \<Rightarrow> nat \<Rightarrow> (echo_world, string) block" where
  "client_begin ntop a =
     BDo (\<lambda>W. with_ac a (async W) (\<lambda>x. bind_res (AsyncConnection_peerAddr (conn_objs W) x)
       (\<lambda>p. let peer = toIpPort ntop p in Inr (print (up_line peer) W, BNext peer))))"

definition handleClient :: "(32 word \<Rightarrow> string) \<Rightarrow> nat \<Rightarrow> echo_world prog" where
  "handleClient ntop a = prog_of (client_loop a) (client_begin ntop a)"

section \<open>The accept loop\<close>

text \<open>
  \<^verbatim>\<open>co_await server.accept()\<close>: the exception for an empty queue is a value here, since the loop catches it.
\<close>

definition accept_finish :: "echo_world \<Rightarrow> ((string + nat) \<times> echo_world) res" where
  "accept_finish W =
     (case accept_await_resume (ew_srv W) of
        Inl (RuntimeError what) \<Rightarrow> Inr (Inl what, W)
      | Inl e \<Rightarrow> Inl e
      | Inr (a, S) \<Rightarrow> Inr (Inr a, W\<lparr>ew_srv := S\<rparr>))"

definition accept :: "((string + nat) \<Rightarrow> (echo_world, 'l) block) \<Rightarrow> (echo_world, 'l) block" where
  "accept k = co_await_block (\<lambda>W. Inr (accept_await_ready (ew_srv W)))
     (\<lambda>h W. bind_res (accept_await_suspend h (ew_srv W)) (\<lambda>S. Inr (W\<lparr>ew_srv := S\<rparr>))) accept_finish k"

text \<open>
  \<^verbatim>\<open>handleClient(std::move(conn))\<close>: the argument is moved into the parameter, the parameter into the
  coroutine's frame. The call of \<^verbatim>\<open>spawn\<close> runs the new coroutine until it first suspends and then goes on
  here, so it is a suspension of the caller that \<open>spawn_handler\<close> below answers. Then the parameter and
  the variable, both empty by now, are destroyed.
\<close>

definition pass_connection :: "nat \<Rightarrow> echo_world \<Rightarrow> (nat \<times> nat \<times> echo_world) res" where
  "pass_connection a W =
     (let par = next_addr (ew_srv W); own = Suc par in
      bind_res (AsyncConnection_move par a (async W))
        (\<lambda>A1. bind_res (AsyncConnection_move own par A1)
          (\<lambda>A2. Inr (par, own, W\<lparr>ew_srv := (ew_srv W)\<lparr>as_world := A2, next_addr := Suc own\<rparr>\<rparr>))))"

definition drop_empty :: "nat \<Rightarrow> nat \<Rightarrow> echo_world \<Rightarrow> echo_world res" where
  "drop_empty par a W =
     bind_res (AsyncConnection_dtor par (async W)) (\<lambda>A1. bind_res (AsyncConnection_dtor a A1) (\<lambda>A2. Inr (put_async A2 W)))"

definition serve_client :: "nat \<Rightarrow> (echo_world, unit) block" where
  "serve_client a =
     BDo (\<lambda>W. bind_res (pass_connection a W)
       (\<lambda>(par, own, W1). Inr (W1,
          BPark (\<lambda>h W2. Inr (W2\<lparr>ew_spawns := ew_spawns W2 @ [(own, h)]\<rparr>))
            (BDo (\<lambda>W3. bind_res (drop_empty par a W3) (\<lambda>W4. Inr (W4, BNext ())))))))"

definition accept_error :: "string \<Rightarrow> (echo_world, unit) block" where
  "accept_error what =
     BDo (\<lambda>W. Inr (if ew_running W then print (''[Server] Accept error: '' @ what) W else W, BNext ()))"

definition server_loop :: "unit \<Rightarrow> (echo_world, unit) block" where
  "server_loop u =
     BDo (\<lambda>W. Inr (W,
       if ew_running W then accept (\<lambda>r. case r of Inl what \<Rightarrow> accept_error what | Inr a \<Rightarrow> serve_client a)
       else BDo (\<lambda>W. Inr (print ''[Server] Accept loop exited.'' W, BRet VVoid))))"

definition runServer :: "echo_world prog" where
  "runServer = prog_of server_loop (BDo (\<lambda>W. Inr (print ''[Server] Accepting connections...'' W, BNext ())))"

text \<open>The pending call of \<^verbatim>\<open>spawn\<close>: the handler's task is made and spawned on the loop, then its caller goes on.\<close>

definition spawn_handler :: "(32 word \<Rightarrow> string) \<Rightarrow> int \<Rightarrow> nat \<Rightarrow> ('k, loop_functor) event_loop \<times> echo_world cstate \<Rightarrow>
    (('k, loop_functor) event_loop \<times> echo_world cstate) res" where
  "spawn_handler ntop g me s =
     (case ew_spawns (world (snd s)) of
        [] \<Rightarrow> Inr s
      | (own, h) # rest \<Rightarrow>
          (let S0 = (snd s)\<lparr>world := (world (snd s))\<lparr>ew_spawns := rest\<rparr>\<rparr>;
               (t, S1) = create (new_frame g TVoid (handleClient ntop own)) S0 in
           bind_res (spawn g me t (fst s, S1)) (resume_on g me h)))"

section \<open>Running the coroutine\<close>

text \<open>The coroutine \<open>h\<close> of frame \<open>f\<close> about to run \<open>p\<close> in the outside state \<open>W\<close>.\<close>

definition paused :: "nat \<Rightarrow> 'w frame \<Rightarrow> 'w prog \<Rightarrow> 'w cstate \<Rightarrow> 'w \<Rightarrow> 'w cstate" where
  "paused h f p S W = put_frame h (Some (f\<lparr>status := Run p\<rparr>)) (S\<lparr>world := W\<rparr>)"

lemma paused_step [simp]:
  "resume g h (paused h f (Do act) S W) =
     (case act W of Inl e \<Rightarrow> Some (Inl e) | Inr (W', p) \<Rightarrow> resume g h (paused h f p S W'))"
  "resume g h (paused h f (Park suspend p) S W) =
     (case suspend h W of Inl e \<Rightarrow> Some (Inl e) | Inr W' \<Rightarrow> Some (Inr (paused h f p S W')))"
  by (subst resume.simps, simp add: paused_def resume_step_def put_frame_def split: sum.split)+

lemma paused_intro: "frames S h = Some f \<Longrightarrow> status f = Run p \<Longrightarrow> S\<lparr>world := W\<rparr> = paused h f p S W"
  by (cases S; cases f) (auto simp: paused_def put_frame_def fun_upd_idem)
text \<open>The two places where a client's coroutine is suspended.\<close>

definition after_recv :: "nat \<Rightarrow> string \<Rightarrow> echo_world prog" where
  "after_recv a peer = Do (\<lambda>W. bind_res (recv_finish a W) (\<lambda>(b, W'). Inr (W', prog_of (client_loop a) (client_received a peer b))))"

definition after_send :: "nat \<Rightarrow> string \<Rightarrow> buffer \<Rightarrow> echo_world prog" where
  "after_send a peer buf = Do (\<lambda>W. Inr (W, prog_of (client_loop a) (client_sent peer buf ())))"

definition answering :: "nat \<Rightarrow> nat \<Rightarrow> async_conn \<Rightarrow> nat \<Rightarrow> async_world \<Rightarrow> async_world" where
  "answering a h x c A =
     (put_ac a (Some (x\<lparr>receivedData := Buffer_default, sendCoroutine := Some h\<rparr>)) A)\<lparr>sends := sends A @ [(c, content (receivedData x))]\<rparr>"

text \<open>Answering: the received bytes are taken, and a \<^verbatim>\<open>send\<close> of them suspends the coroutine.\<close>

lemma resume_after_recv:
  assumes x: "acs (async W) a = Some x" "buf_inv (receivedData x)" "content (receivedData x) \<noteq> []" "ac_conn x = Some c"
    and w: "ew_conns W c = Some w" "conn_inv w" "write_documented (ew_write W)"
  shows "resume g h (paused h f (after_recv a peer) S W) =
    (case send (ew_write W) (ew_thread W) (content (receivedData x)) w of
       Inl e \<Rightarrow> Some (Inl e)
     | Inr w' \<Rightarrow> Some (Inr (paused h f (after_send a peer (receivedData x)) S
          (put_ec c w' (put_async (answering a h x c (async W)) (print (bytes_line peer ''recv'' (receivedData x)) W))))))"
proof -
  have "readableBytes (receivedData x) \<noteq> 0" using x by (simp add: readableBytes_content)
  moreover have "length (content (receivedData x)) \<le> vec_max"
    using length_content [OF x(2)] buf_invD [OF x(2)] by linarith
  then have "conn_inv w'" if "send (ew_write W) (ew_thread W) (content (receivedData x)) w = Inr w'" for w'
    using send_ok [OF w(3) _ that] w(2) by (simp add: conn_ok_def)
  ultimately show ?thesis
    using x w by (simp add: announce_none after_recv_def after_send_def recv_finish_def recv_await_resume_def with_ac_def Buffer_move_def client_received_def
        send_data_def prog_of_co_await co_await_def send_await_ready_def send_suspend_def send_await_suspend_def conn_of_def
        put_async_def put_ac_def put_ec_def print_def answering_def Let_def split: sum.split)
qed

lemma resume_client_loop:
  assumes x: "acs (async W) a = Some x" "buf_inv (receivedData x)" "ac_conn x = Some c" and w: "ew_conns W c = Some w"
  shows "resume g h (paused h f (prog_of (client_loop a) (client_loop a peer)) S W) =
    (if conn_state (conn w) \<noteq> Connected then resume g h (paused h f (prog_of (client_loop a) (client_exit peer)) S W)
     else if content (receivedData x) = []
     then Some (Inr (paused h f (after_recv a peer) S (put_async (put_ac a (Some (x\<lparr>recvCoroutine := Some h\<rparr>)) (async W)) W)))
     else resume g h (paused h f (after_recv a peer) S W))"
  using assms
  by (simp add: client_loop_def after_recv_def with_ac_def AsyncConnection_connected_def of_conn_def conn_objs_def connected_def
      recv_def prog_of_co_await co_await_def Let_def recv_await_ready_def recv_suspend_def recv_await_suspend_def readableBytes_content
      split: sum.split)

lemma resume_handleClient:
  assumes x: "acs (async W) a = Some x" "ac_conn x = Some c" and w: "ew_conns W c = Some w"
  shows "\<exists>peer. resume g h (paused h f (handleClient ntop a) S W) =
    resume g h (paused h f (prog_of (client_loop a) (client_loop a peer)) S (print (up_line peer) W))"
  using assms
  by (auto simp: handleClient_def client_begin_def with_ac_def AsyncConnection_peerAddr_def of_conn_def conn_objs_def Let_def)

end
