(* ===== verification/CoroClients.thy ===== *)
theory CoroClients
  imports CoroEcho
begin

text \<open>
  The clients of \<^verbatim>\<open>examples/coro_echo_server.cc\<close>: any number of connections with their wrappers and coroutines, under
  every interleaving of the events on them. Each client keeps an invariant of its own, and no step of
  one client touches what belongs to another.
\<close>

section \<open>Clients\<close>

text \<open>
  A client: its connection, the wrapper in its coroutine's frame, the frame of \<^verbatim>\<open>handleClient\<close> and the
  frame of the spawned coroutine that awaits it.
\<close>

record client =
  cl_conn :: nat
  cl_wrap :: nat
  cl_task :: nat
  cl_spawn :: nat

text \<open>\<open>ce_got\<close> are the bytes the kernel delivered on a connection, \<open>ce_ran\<close> counts the functors of it that ran.\<close>

record coro_echo =
  ce :: "echo_world cstate"
  ce_got :: "nat \<Rightarrow> string"
  ce_ran :: "nat \<Rightarrow> nat"

text \<open>
  The callbacks of a connection: \<^verbatim>\<open>AsyncServer\<close> set the connection callback, which does nothing for a
  connection that is not connected, and the wrapper set the other two, which work on the wrapper: the
  message callback is run by \<open>read_ready\<close> at its mark, the write-complete callback by \<open>announce\<close> at its
  marks, after every operation of the connection.
\<close>

definition coro_cbs :: conn_cbs where
  "coro_cbs = setWriteCompleteCallback (Some Inr) (setMessageCallback (Some Inr)
     (server_cbs (TcpServer_setConnectionCallback (Some Inr) no_cbs)))"

definition conn_handler :: "nat \<Rightarrow> (conn_world \<Rightarrow> conn_world res) \<Rightarrow> echo_world \<Rightarrow> echo_world res" where
  "conn_handler c f W =
     (case ew_conns W c of None \<Rightarrow> Inl UseAfterFree | Some w \<Rightarrow> bind_res (f w) (\<lambda>w'. announce c w w' (put_ec c w' W)))"

definition read_ready :: "nat \<Rightarrow> (nat list \<Rightarrow> readv_result) \<Rightarrow> nat \<Rightarrow> echo_world \<Rightarrow> echo_world res" where
  "read_ready c readv me W =
     (case ew_conns W c of
        None \<Rightarrow> Inl UseAfterFree
      | Some w \<Rightarrow> bind_res (handleRead coro_cbs readv me w)
          (\<lambda>w'. bind_res (announce c w w' W)
            (\<lambda>W1. if CbMessage \<in> set (drop (length (trace w)) (trace w'))
                  then bind_res (message_arrives c (inputBuffer (conn w')) (async W1))
                         (\<lambda>(b, A). Inr (put_ec c (set_in b w') (put_async A W1)))
                  else Inr (put_ec c w' W1))))"

fun queued :: "conn_event list \<Rightarrow> conn_task list" where
  "queued [] = []"
| "queued (Queued t # tr) = t # queued tr"
| "queued (_ # tr) = queued tr"

definition on_thread :: "nat \<Rightarrow> write_fun \<Rightarrow> echo_world \<Rightarrow> echo_world" where
  "on_thread me wr W = W\<lparr>ew_thread := me, ew_write := wr\<rparr>"

text \<open>
  One step of a client, on the thread of its connection's loop unless it says otherwise: its channel
  is readable or writable or reports a close, the server removes it and queues its destruction, its
  loop runs the next functor queued on it; the loop of \<^verbatim>\<open>main\<close> starts its coroutine; a queued handle of
  its coroutine is resumed; the frames of its ended coroutine are destroyed. Handles queued on
  different loops are in one list, of which any may be next. The destruction of a connection is queued
  when it was closed, and closed it stays.
\<close>

inductive client_step :: "client \<Rightarrow> coro_echo \<Rightarrow> coro_echo \<Rightarrow> bool" for k where
  cs_read: "readv_documented readv \<Longrightarrow> ew_conns (world (ce s)) (cl_conn k) = Some w \<Longrightarrow>
    readFd readv (inputBuffer (conn w)) 0 = Inr (n, e, b) \<Longrightarrow>
    read_ready (cl_conn k) readv me (world (ce s)) = Inr W' \<Longrightarrow>
    client_step k s (s\<lparr>ce := (ce s)\<lparr>world := W'\<rparr>, ce_got := (ce_got s)(cl_conn k := ce_got s (cl_conn k)
      @ drop (length (content (inputBuffer (conn w)))) (content b))\<rparr>)"
| cs_write: "write_documented wr \<Longrightarrow> conn_handler (cl_conn k) (handleWrite wr me) (world (ce s)) = Inr W' \<Longrightarrow>
    client_step k s (s\<lparr>ce := (ce s)\<lparr>world := W'\<rparr>\<rparr>)"
| cs_close: "conn_handler (cl_conn k) (handleClose coro_cbs me) (world (ce s)) = Inr W' \<Longrightarrow>
    client_step k s (s\<lparr>ce := (ce s)\<lparr>world := W'\<rparr>\<rparr>)"
| cs_remove: "ew_conns (world (ce s)) (cl_conn k) = Some w \<Longrightarrow> conn_state (conn w) = Disconnected \<Longrightarrow>
    client_step k s (s\<lparr>ce := (ce s)\<lparr>world := put_ec (cl_conn k) (emit (Queued DestroyTask) w) (world (ce s))\<rparr>\<rparr>)"
| cs_task: "write_documented wr \<Longrightarrow> ew_conns (world (ce s)) (cl_conn k) = Some w \<Longrightarrow>
    ce_ran s (cl_conn k) < length (queued (trace w)) \<Longrightarrow>
    (queued (trace w) ! ce_ran s (cl_conn k) = DestroyTask \<longrightarrow> conn_state (conn w) = Disconnected) \<Longrightarrow>
    conn_handler (cl_conn k) (run_task coro_cbs wr me (queued (trace w) ! ce_ran s (cl_conn k))) (world (ce s)) = Inr W' \<Longrightarrow>
    client_step k s (s\<lparr>ce := (ce s)\<lparr>world := W'\<rparr>, ce_ran := (ce_ran s)(cl_conn k := Suc (ce_ran s (cl_conn k)))\<rparr>)"
| cs_begin: "write_documented wr \<Longrightarrow> frames (ce s) (cl_spawn k) = Some f \<Longrightarrow> status f = Run p \<Longrightarrow>
    resume g (cl_spawn k) ((ce s)\<lparr>world := on_thread me wr (world (ce s))\<rparr>) = Some (Inr S') \<Longrightarrow>
    client_step k s (s\<lparr>ce := S'\<rparr>)"
| cs_wake: "write_documented wr \<Longrightarrow> A = async (world (ce s)) \<Longrightarrow> resumes A = q1 @ cl_task k # q2 \<Longrightarrow>
    resume g (cl_task k) ((ce s)\<lparr>world := on_thread me wr (put_async (A\<lparr>resumes := q1 @ q2\<rparr>) (world (ce s)))\<rparr>) = Some (Inr S') \<Longrightarrow>
    client_step k s (s\<lparr>ce := S'\<rparr>)"
| cs_cleanup: "cleanups (ce s) = q1 @ cl_spawn k # q2 \<Longrightarrow> destroy (cl_spawn k) ((ce s)\<lparr>cleanups := q1 @ q2\<rparr>) = Inr S1 \<Longrightarrow>
    AsyncConnection_dtor (cl_wrap k) (async (world S1)) = Inr A \<Longrightarrow>
    client_step k s (s\<lparr>ce := S1\<lparr>world := put_async A (world S1)\<rparr>\<rparr>)"

section \<open>What belongs to a client\<close>

record client_view =
  v_conn :: "conn_world option"
  v_wrap :: "async_conn option"
  v_cb :: "nat option"
  v_wakes :: nat
  v_sends :: "string list"
  v_task :: "echo_world frame option"
  v_spawn :: "echo_world frame option"
  v_ended :: nat
  v_got :: string
  v_ran :: nat

definition view :: "client \<Rightarrow> coro_echo \<Rightarrow> client_view" where
  "view k s = (let S = ce s; W = world S; A = async W in
     \<lparr>v_conn = ew_conns W (cl_conn k), v_wrap = acs A (cl_wrap k), v_cb = msg_cb A (cl_conn k),
      v_wakes = count_list (resumes A) (cl_task k), v_sends = map snd (filter (\<lambda>p. fst p = cl_conn k) (sends A)),
      v_task = frames S (cl_task k), v_spawn = frames S (cl_spawn k), v_ended = count_list (cleanups S) (cl_spawn k),
      v_got = ce_got s (cl_conn k), v_ran = ce_ran s (cl_conn k)\<rparr>)"

text \<open>Two clients have nothing in common.\<close>

definition apart :: "client \<Rightarrow> client \<Rightarrow> bool" where
  "apart k j \<longleftrightarrow> cl_conn k \<noteq> cl_conn j \<and> cl_wrap k \<noteq> cl_wrap j \<and>
     {cl_task k, cl_spawn k} \<inter> {cl_task j, cl_spawn j} = {}"

section \<open>The end of a handler\<close>

text \<open>The end of a handler that \<open>h\<close> awaits: both coroutines are at their end and the clean-up is queued.\<close>

definition handler_frame :: "client \<Rightarrow> echo_world frame \<Rightarrow> bool" where
  "handler_frame k f \<longleftrightarrow> result_ty f = TVoid \<and> exception f = None \<and> \<not> is_spawn f \<and> params f = []"

definition spawn_frame :: "client \<Rightarrow> echo_world frame \<Rightarrow> bool" where
  "spawn_frame k f \<longleftrightarrow> is_spawn f \<and> spawn_loop f \<noteq> None \<and> params f = [cl_task k]"

lemma resume_client_exit:
  assumes f: "handler_frame k f" "continuation f = Some (cl_spawn k)" "cl_task k \<noteq> cl_spawn k"
    and h: "frames S (cl_spawn k) = Some fh" "spawn_frame k fh" "status fh = Waiting True (cl_task k) wrapper_rest"
  shows "resume g (cl_task k) (paused (cl_task k) f (prog_of (client_loop a) (client_exit peer)) S W) =
    Some (Inr ((put_frame (cl_spawn k) (Some (fh\<lparr>status := AtEnd\<rparr>)) (put_frame (cl_task k) (Some (f\<lparr>status := AtEnd\<rparr>))
      (S\<lparr>world := print (down_line peer) W\<rparr>)))\<lparr>cleanups := cleanups S @ [cl_spawn k]\<rparr>))"
proof -
  let ?t = "cl_task k" and ?h = "cl_spawn k"
  let ?W = "print (down_line peer) W"
  let ?S1 = "put_frame ?t (Some (f\<lparr>status := AtEnd\<rparr>)) (S\<lparr>world := ?W\<rparr>)"
  have "resume g ?t (paused ?t f (prog_of (client_loop a) (client_exit peer)) S W) = resume g ?t (paused ?t f (Ret VVoid) S ?W)"
    by (simp add: client_exit_def)
  also have "\<dots> = resume g ?h ?S1"
    using f by (intro resume_Goto)
      (simp add: resume_step_def paused_def complete_def finish_frame_def handler_frame_def TaskVoid_return_void_def final_suspend_def put_frame_def)
  also have "\<dots> = resume g ?h (put_frame ?h (Some (fh\<lparr>status := Run (Ret VVoid)\<rparr>)) ?S1)"
    using f h by (intro resume_Goto)
      (simp add: resume_step_def put_frame_def await_result_def TaskVoid_await_resume_def as_val_def handler_frame_def wrapper_rest_def)
  also have "\<dots> = Some (Inr ((put_frame ?h (Some (fh\<lparr>status := AtEnd\<rparr>)) ?S1)\<lparr>cleanups := cleanups S @ [?h]\<rparr>))"
    using h(2) by (intro resume_Stop)
      (auto simp: resume_step_def put_frame_def complete_def finish_frame_def SpawnTask_return_void_def final_suspend_def
        SpawnTask_final_suspend_def spawn_frame_def)
  finally show ?thesis .
qed
section \<open>Families of components\<close>

text \<open>
  Components that take turns on one state. Each has a view of the state, what belongs to it; a step of
  a component keeps its own invariant, and does not change the view of components apart from it.
\<close>

definition family_start :: "('k \<Rightarrow> 's \<Rightarrow> 'v) \<Rightarrow> ('k \<Rightarrow> 'v \<Rightarrow> bool) \<Rightarrow> ('k \<Rightarrow> 'k \<Rightarrow> bool) \<Rightarrow> 'k set \<Rightarrow> 's \<Rightarrow> bool" where
  "family_start view_of P disjoint_from K s \<longleftrightarrow>
     (\<forall>k \<in> K. P k (view_of k s)) \<and> (\<forall>j \<in> K. \<forall>k \<in> K. j \<noteq> k \<longrightarrow> disjoint_from j k)"

definition family_step :: "('k \<Rightarrow> 's \<Rightarrow> 's \<Rightarrow> bool) \<Rightarrow> 'k set \<Rightarrow> 's \<Rightarrow> 's \<Rightarrow> bool" where
  "family_step step K s s' \<longleftrightarrow> (\<exists>k \<in> K. step k s s')"

locale interleaved =
  fixes step :: "'k \<Rightarrow> 's \<Rightarrow> 's \<Rightarrow> bool"
    and view_of :: "'k \<Rightarrow> 's \<Rightarrow> 'v"
    and begins :: "'k \<Rightarrow> 'v \<Rightarrow> bool"
    and ok :: "'k \<Rightarrow> 'v \<Rightarrow> bool"
    and disjoint_from :: "'k \<Rightarrow> 'k \<Rightarrow> bool"
  assumes begins_ok: "begins k v \<Longrightarrow> ok k v"
    and own_step: "step k s s' \<Longrightarrow> ok k (view_of k s) \<Longrightarrow> ok k (view_of k s')"
    and others_step: "step k s s' \<Longrightarrow> ok k (view_of k s) \<Longrightarrow> disjoint_from k j \<Longrightarrow> view_of j s' = view_of j s"
begin

lemma family_step_ok:
  assumes ok: "family_start view_of ok disjoint_from K s" and step: "family_step step K s s'"
  shows "family_start view_of ok disjoint_from K s'"
proof -
  obtain j where j: "j \<in> K" "step j s s'" using step by (auto simp: family_step_def)
  have "ok k (view_of k s')" if "k \<in> K" for k
    using ok that j own_step [OF j(2)] others_step [OF j(2), of k] by (cases "k = j") (auto simp: family_start_def)
  then show ?thesis using ok by (simp add: family_start_def)
qed

end

text \<open>The invariants of all components together are an invariant of the family.\<close>

sublocale interleaved \<subseteq> family: invariant_machine "family_start view_of begins disjoint_from K" "family_step step K"
    "family_start view_of ok disjoint_from K" for K
proof unfold_locales
  show "family_start view_of ok disjoint_from K s" if "family_start view_of begins disjoint_from K s" for s
    using that begins_ok by (auto simp: family_start_def)
qed (rule family_step_ok)

section \<open>Connections of clients\<close>

text \<open>What was asked to be sent: messages that reached \<^verbatim>\<open>sendInLoop\<close>, then those in functors still to run.\<close>

fun task_message :: "conn_task \<Rightarrow> string" where
  "task_message (SendTask m) = m"
| "task_message _ = []"

definition requested :: "conn_world \<Rightarrow> nat \<Rightarrow> string" where
  "requested w n = sent (trace w) @ concat (map task_message (drop n (queued (trace w))))"

definition conn_good :: "conn_world \<Rightarrow> nat \<Rightarrow> bool" where
  "conn_good w n \<longleftrightarrow> conn_inv w \<and> content (inputBuffer (conn w)) = [] \<and> n \<le> length (queued (trace w)) \<and>
     (\<forall>t \<in> set (queued (trace w)). task_ok t)"

lemma queued_append [simp]: "queued (tr @ tr') = queued tr @ queued tr'"
  by (induction tr rule: queued.induct) simp_all

lemma queued_set: "t \<in> set (queued tr) \<longleftrightarrow> Queued t \<in> set tr"
  by (induction tr rule: queued.induct) auto

lemma queued_keeps:
  assumes "keeps_stream w w'"
  shows "\<exists>q. queued (trace w') = queued (trace w) @ q \<and> (\<forall>t \<in> set q. task_ok t \<and> task_message t = []) \<and> sent (trace w') = sent (trace w)"
proof -
  obtain tr where tr: "trace w' = trace w @ tr" "sent tr = []" "\<forall>m. Queued (SendTask m) \<notin> set tr"
    using assms by (auto simp: keeps_stream_def)
  have "task_ok t \<and> task_message t = []" if "t \<in> set (queued tr)" for t
    by (insert that tr(3), cases t) (auto simp: queued_set)
  with tr show ?thesis by auto
qed

lemma messages_none: "(\<forall>t \<in> set q. task_message t = []) \<Longrightarrow> concat (map task_message q) = []"
  by simp

lemma conn_good_keeps:
  assumes good: "conn_good w n" and ok: "conn_ok w w'" and keeps: "keeps_stream w w'"
  shows "conn_good w' n \<and> requested w' n = requested w n"
proof -
  obtain q where q: "queued (trace w') = queued (trace w) @ q" "\<forall>t \<in> set q. task_ok t \<and> task_message t = []"
      "sent (trace w') = sent (trace w)"
    using queued_keeps [OF keeps] by blast
  have "conn_inv w'" "inputBuffer (conn w') = inputBuffer (conn w)"
    using good ok keeps by (simp_all add: conn_good_def conn_ok_def keeps_stream_def)
  with good q show ?thesis by (auto simp: conn_good_def requested_def)
qed

text \<open>Functors run in their order: one that sends moves its message to the front part.\<close>

lemma conn_good_sends:
  assumes good: "conn_good w n" and n: "n < length (queued (trace w))" "queued (trace w) ! n = SendTask m"
    and doc: "write_documented wr" and ret: "sendInLoop wr me m w = Inr w'"
  shows "conn_good w' (Suc n) \<and> requested w' (Suc n) = requested w n"
proof -
  have keeps: "keeps_stream (emit (SendReq m) w) w'" using sendInLoop_sends [OF ret] by blast
  have "task_ok (SendTask m)" using good n by (metis conn_good_def nth_mem)
  then have "conn_ok w w'" by (intro sendInLoop_ok [OF doc _ ret]) simp
  moreover obtain q where "queued (trace w') = queued (trace w) @ q" "\<forall>t \<in> set q. task_ok t \<and> task_message t = []"
      "sent (trace w') = sent (trace w) @ m"
    using queued_keeps [OF keeps] by auto
  moreover have "drop n (queued (trace w)) = SendTask m # drop (Suc n) (queued (trace w))"
    using n by (metis Cons_nth_drop_Suc)
  moreover have "inputBuffer (conn w') = inputBuffer (conn w)" using keeps by (simp add: keeps_stream_def)
  ultimately show ?thesis using good n(1) by (auto simp: conn_good_def requested_def conn_ok_def)
qed

lemma coro_cbs_fields [simp]:
  "connectionCb coro_cbs = Some Inr" "messageCb coro_cbs = Some Inr" "closeCb coro_cbs = Some Inr"
  by (simp_all add: coro_cbs_def server_cbs_eq setMessageCallback_def setWriteCompleteCallback_def
      TcpServer_setConnectionCallback_def no_cbs_def)

lemma coro_cbs_ok: "cbs_ok coro_cbs"
  by (auto simp: cbs_ok_def cb_list_def intro: api_skip)

lemma coro_handleClose: "handleClose coro_cbs me w = Inr w' \<Longrightarrow> conn_ok w w' \<and> keeps_stream w w'"
  using handleClose_ok [OF cbs_ok_call [OF coro_cbs_ok]]
  by (auto simp: handleClose_def res_simps Let_def call_optional_def call_required_def keeps_stream_def world_defs)

lemma coro_run_task:
  assumes good: "conn_good w n" and n: "n < length (queued (trace w))" and doc: "write_documented wr"
    and ret: "run_task coro_cbs wr me (queued (trace w) ! n) w = Inr w'"
  shows "conn_good w' (Suc n) \<and> requested w' (Suc n) = requested w n"
proof (cases "\<exists>m. queued (trace w) ! n = SendTask m")
  case True
  then show ?thesis using conn_good_sends [OF good n _ doc] ret by auto
next
  case False
  have "conn_ok w w'" using good n nth_mem by (blast intro: run_task_ok [OF coro_cbs_ok doc _ ret] dest: conn_good_def [THEN iffD1])
  moreover have "keeps_stream w w'"
    using ret False shutdownInLoop_keeps coro_handleClose
    by (cases "queued (trace w) ! n")
       (auto simp: connectDestroyed_def res_simps Let_def call_optional_def keeps_stream_def world_defs split: if_splits)
  ultimately have "conn_good w' n \<and> requested w' n = requested w n" by (intro conn_good_keeps [OF good])
  moreover have "task_message (queued (trace w) ! n) = []" using False by (cases "queued (trace w) ! n") auto
  moreover obtain q where "queued (trace w') = queued (trace w) @ q" using queued_keeps [OF \<open>keeps_stream w w'\<close>] by blast
  ultimately show ?thesis
    using n by (auto simp: conn_good_def requested_def simp flip: Cons_nth_drop_Suc)
qed
section \<open>The invariant of a client\<close>

text \<open>
  \<open>Fresh\<close>: not started; \<open>Receiving\<close>: suspended in \<^verbatim>\<open>recv\<close>, with its resumption queued exactly when bytes have
  arrived; \<open>Answered\<close>: suspended in \<^verbatim>\<open>send\<close>, with nothing that would resume it; \<open>Ended\<close>, \<open>Gone\<close>: the coroutine
  is at its end, or destroyed with the wrapper.
\<close>

datatype stage = Fresh | Receiving | Answered | Ended | Gone

definition wrap_good :: "client \<Rightarrow> client_view \<Rightarrow> bool" where
  "wrap_good k V \<longleftrightarrow> (\<exists>x. v_wrap V = Some x \<and> ac_conn x = Some (cl_conn k) \<and> ac_loop x \<noteq> None \<and> buf_inv (receivedData x) \<and>
     v_got V = concat (v_sends V) @ content (receivedData x))"

definition frames_at :: "client \<Rightarrow> echo_world prog \<Rightarrow> client_view \<Rightarrow> bool" where
  "frames_at k p V \<longleftrightarrow>
     (\<exists>f. v_task V = Some f \<and> handler_frame k f \<and> status f = Run p \<and> continuation f = Some (cl_spawn k)) \<and>
     (\<exists>h. v_spawn V = Some h \<and> spawn_frame k h \<and> status h = Waiting True (cl_task k) wrapper_rest)"

definition waits_for :: "nat option \<Rightarrow> client_view \<Rightarrow> bool" where
  "waits_for h V \<longleftrightarrow> (\<exists>x. v_wrap V = Some x \<and> recvCoroutine x = h)"

fun stage_ok :: "(32 word \<Rightarrow> string) \<Rightarrow> client \<Rightarrow> stage \<Rightarrow> client_view \<Rightarrow> bool" where
  "stage_ok ntop k Fresh V \<longleftrightarrow> wrap_good k V \<and> waits_for None V \<and> v_wakes V = 0 \<and> v_sends V = [] \<and> v_ended V = 0 \<and>
     (\<exists>f. v_task V = Some f \<and> handler_frame k f \<and> status f = Run (handleClient ntop (cl_wrap k))) \<and>
     (\<exists>h. v_spawn V = Some h \<and> spawn_frame k h \<and> status h = Run (Join (cl_task k) wrapper_rest))"
| "stage_ok ntop k Receiving V \<longleftrightarrow> wrap_good k V \<and> v_sends V = [] \<and> v_ended V = 0 \<and>
     (if v_got V = [] then waits_for (Some (cl_task k)) V \<and> v_wakes V = 0 else waits_for None V \<and> v_wakes V = 1) \<and>
     (\<exists>peer. frames_at k (after_recv (cl_wrap k) peer) V)"
| "stage_ok ntop k Answered V \<longleftrightarrow> wrap_good k V \<and> waits_for None V \<and> v_wakes V = 0 \<and> v_ended V = 0 \<and>
     (\<exists>peer buf. frames_at k (after_send (cl_wrap k) peer buf) V \<and> v_sends V = [content buf] \<and> content buf \<noteq> [])"
| "stage_ok ntop k Ended V \<longleftrightarrow> wrap_good k V \<and> waits_for None V \<and> v_wakes V = 0 \<and> v_sends V = [] \<and> v_ended V = 1 \<and>
     (\<exists>f. v_task V = Some f \<and> handler_frame k f \<and> status f = AtEnd) \<and>
     (\<exists>h. v_spawn V = Some h \<and> spawn_frame k h \<and> status h = AtEnd)"
| "stage_ok ntop k Gone V \<longleftrightarrow> v_wrap V = None \<and> v_task V = None \<and> v_spawn V = None \<and> v_wakes V = 0 \<and> v_sends V = [] \<and> v_ended V = 0"

definition conn_part :: "client_view \<Rightarrow> bool" where
  "conn_part V \<longleftrightarrow>
     (\<exists>w. v_conn V = Some w \<and> conn_good w (v_ran V) \<and> (requested w (v_ran V) = [] \<or> requested w (v_ran V) = concat (v_sends V)))"

definition client_ok :: "(32 word \<Rightarrow> string) \<Rightarrow> client \<Rightarrow> client_view \<Rightarrow> bool" where
  "client_ok ntop k V \<longleftrightarrow> cl_task k \<noteq> cl_spawn k \<and> v_cb V = Some (cl_wrap k) \<and> conn_part V \<and> (\<exists>st. stage_ok ntop k st V)"

text \<open>A client whose coroutine was made for a connection on which bytes may have arrived already.\<close>

definition client_start :: "(32 word \<Rightarrow> string) \<Rightarrow> client \<Rightarrow> client_view \<Rightarrow> bool" where
  "client_start ntop k V \<longleftrightarrow> cl_task k \<noteq> cl_spawn k \<and> v_cb V = Some (cl_wrap k) \<and> stage_ok ntop k Fresh V \<and>
     (\<exists>w. v_conn V = Some w \<and> conn_good w (v_ran V) \<and> requested w (v_ran V) = [])"

lemma client_start_ok: "client_start ntop k V \<Longrightarrow> client_ok ntop k V"
  unfolding client_start_def client_ok_def conn_part_def by blast

section \<open>Steps of the connection\<close>

lemma view_conn_handler:
  assumes "client_ok ntop k (view k s)" and "conn_handler (cl_conn k) f (world (ce s)) = Inr W'"
    and "\<And>w w'. v_conn (view k s) = Some w \<Longrightarrow> f w = Inr w' \<Longrightarrow> conn_ok w w'"
  shows "\<exists>w w'. v_conn (view k s) = Some w \<and> f w = Inr w' \<and> W' = put_ec (cl_conn k) w' (world (ce s))"
proof -
  obtain w w' where w: "v_conn (view k s) = Some w" "f w = Inr w'" "announce (cl_conn k) w w' (put_ec (cl_conn k) w' (world (ce s))) = Inr W'"
    using assms(2) by (auto simp: conn_handler_def view_def Let_def res_simps split: option.splits)
  have "conn_inv w" using assms(1) w(1) by (auto simp: client_ok_def conn_part_def conn_good_def)
  then have "conn_inv w'" using assms(3) [OF w(1,2)] by (simp add: conn_ok_def)
  with w show ?thesis by (simp add: announce_none)
qed

lemma view_put_ec:
  "view k (s\<lparr>ce := (ce s)\<lparr>world := put_ec (cl_conn k) w (world (ce s))\<rparr>\<rparr>) = (view k s)\<lparr>v_conn := Some w\<rparr>"
  "apart k j \<Longrightarrow> view j (s\<lparr>ce := (ce s)\<lparr>world := put_ec (cl_conn k) w (world (ce s))\<rparr>\<rparr>) = view j s"
  by (simp_all add: view_def put_ec_def apart_def Let_def)

text \<open>The stage of a client does not depend on its connection.\<close>

lemma stage_ok_conn [simp]: "stage_ok ntop k st (V\<lparr>v_conn := w\<rparr>) = stage_ok ntop k st V" "stage_ok ntop k st (V\<lparr>v_ran := n\<rparr>) = stage_ok ntop k st V"
  by (cases st; simp add: wrap_good_def frames_at_def waits_for_def)+

lemma client_ok_conn:
  assumes ok: "client_ok ntop k V" and w: "v_conn V = Some w"
    and step: "conn_good w (v_ran V) \<Longrightarrow> conn_good w' n \<and> requested w' n = requested w (v_ran V)"
  shows "client_ok ntop k (V\<lparr>v_conn := Some w', v_ran := n\<rparr>)"
proof -
  have "conn_part (V\<lparr>v_conn := Some w', v_ran := n\<rparr>)"
    using ok w step by (auto simp: client_ok_def conn_part_def)
  moreover have "stage_ok ntop k st (V\<lparr>v_conn := Some w', v_ran := n\<rparr>) = stage_ok ntop k st V" for st
    by (simp only: stage_ok_conn)
  ultimately show ?thesis using ok by (simp add: client_ok_def)
qed

lemma conn_handler_step:
  assumes ok: "client_ok ntop k (view k s)" and ret: "conn_handler (cl_conn k) f (world (ce s)) = Inr W'"
    and f: "\<And>w w'. f w = Inr w' \<Longrightarrow> conn_ok w w' \<and> keeps_stream w w'"
  shows "client_ok ntop k (view k (s\<lparr>ce := (ce s)\<lparr>world := W'\<rparr>\<rparr>))"
    and "apart k j \<Longrightarrow> view j (s\<lparr>ce := (ce s)\<lparr>world := W'\<rparr>\<rparr>) = view j s"
proof -
  obtain w w' where w: "v_conn (view k s) = Some w" "f w = Inr w'" "W' = put_ec (cl_conn k) w' (world (ce s))"
    using view_conn_handler [OF ok ret] f by blast
  have "client_ok ntop k ((view k s)\<lparr>v_conn := Some w', v_ran := v_ran (view k s)\<rparr>)"
    using f [OF w(2)] by (intro client_ok_conn [OF ok w(1)] conn_good_keeps) auto
  then show "client_ok ntop k (view k (s\<lparr>ce := (ce s)\<lparr>world := W'\<rparr>\<rparr>))"
    by (simp add: w(3) view_put_ec)
  show "apart k j \<Longrightarrow> view j (s\<lparr>ce := (ce s)\<lparr>world := W'\<rparr>\<rparr>) = view j s"
    by (simp add: w(3) view_put_ec)
qed
text \<open>Reading: the descriptor has no bytes for us, or they go to the wrapper.\<close>

lemma read_ready_cases:
  assumes inv: "conn_inv w" and w: "ew_conns W c = Some w" and rv: "readv_documented readv"
    and rd: "readFd readv (inputBuffer (conn w)) 0 = Inr (n, e, b)" and ret: "read_ready c readv me W = Inr W'"
  obtains (none) w' where "b = inputBuffer (conn w)" "W' = put_ec c w' W" "conn_ok w w'" "keeps_stream w w'"
    | (bytes) b' A where "0 < n" "buf_inv b" "message_arrives c b (async W) = Inr (b', A)"
        "W' = put_ec c (set_in b' (emit CbMessage (set_in b w))) (put_async A W)"
proof (cases "0 < n")
  case True
  have "buf_inv b" using readFd_sound [OF _ rv rd] inv by (simp add: conn_inv_def)
  moreover have "announce c w w' W = Inr W" if "handleRead coro_cbs readv me w = Inr w'" for w'
    using announce_none handleRead_ok [OF coro_cbs_ok rv that] inv by (simp add: conn_ok_def)
  moreover have "handleRead coro_cbs readv me w = Inr w' \<longleftrightarrow> conn_in_loop me w \<and> w' = emit CbMessage (set_in b w)" for w'
    using True rd by (auto simp: handleRead_def conn_assert_loop_def res_simps call_required_def)
  ultimately show thesis
    using bytes True ret w by (auto simp: read_ready_def res_simps set_in_def emit_def)
next
  case False
  have b: "b = inputBuffer (conn w)" using readFd_storage [OF _ rv rd] False inv by (auto simp: conn_inv_def)
  then have same: "set_in b w = w" by (simp add: set_in_def)
  have h: "CbMessage \<notin> set (drop (length (trace w)) (trace w')) \<and> conn_ok w w' \<and> keeps_stream w w'"
    if "handleRead coro_cbs readv me w = Inr w'" for w'
  proof (cases "n = 0")
    case True
    then have c: "handleClose coro_cbs me w = Inr w'" using that rd same by (auto simp: handleRead_def res_simps)
    then have "CbMessage \<notin> set (drop (length (trace w)) (trace w'))"
      by (auto simp: handleClose_def res_simps Let_def call_optional_def call_required_def world_defs)
    with coro_handleClose [OF c] show ?thesis by blast
  next
    case neg: False
    then have "w' = w" using that rd same False by (auto simp: handleRead_def res_simps handleError_def)
    then show ?thesis by simp
  qed
  obtain w' where w': "handleRead coro_cbs readv me w = Inr w'" using ret w by (auto simp: read_ready_def res_simps)
  moreover have "announce c w w' W = Inr W"
    using announce_none handleRead_ok [OF coro_cbs_ok rv w'] inv by (simp add: conn_ok_def)
  ultimately show thesis
    using h [OF w'] ret w b by (intro none [of w']) (auto simp: read_ready_def)
qed

lemma onMessage_frame:
  assumes "onMessage a b A = Inr (b', A')" and "buf_inv b"
  shows "msg_cb A' = msg_cb A" "sends A' = sends A" "buf_inv b'"
  using assms
  by (auto simp: onMessage_def with_ac_def res_simps Let_def put_ac_def queue_resume_def split: option.splits)

lemma content_le_max: "buf_inv b \<Longrightarrow> length (content b) \<le> vec_max"
  using length_content [of b] unfolding buf_inv_def by linarith

text \<open>The wrapper after a message, in every stage.\<close>

lemma stage_after_message:
  assumes st: "stage_ok ntop k st V" and x: "v_wrap V = Some x" and d: "d \<noteq> []" and rd: "buf_inv rd" "content rd = content (receivedData x) @ d"
  shows "\<exists>st'. stage_ok ntop k st' (V\<lparr>v_wrap := Some (x\<lparr>receivedData := rd, recvCoroutine := None\<rparr>), v_got := v_got V @ d,
      v_wakes := v_wakes V + (if recvCoroutine x = Some (cl_task k) then 1 else 0)\<rparr>)
    \<and> (recvCoroutine x = None \<or> recvCoroutine x = Some (cl_task k))"
proof (cases st)
  case Receiving
  then show ?thesis
    using st x d rd
    by (intro exI [of _ Receiving]) (auto simp: wrap_good_def frames_at_def waits_for_def split: if_splits)
next
  case Answered
  then show ?thesis
    using st x d rd by (intro exI [of _ Answered]) (auto simp: wrap_good_def frames_at_def waits_for_def)
next
  case Fresh
  then show ?thesis
    using st x d rd by (intro exI [of _ Fresh]) (auto simp: wrap_good_def waits_for_def)
next
  case Ended
  then show ?thesis
    using st x d rd by (intro exI [of _ Ended]) (auto simp: wrap_good_def waits_for_def)
qed (use st x in simp)

lemma stage_wrap_inv: "stage_ok ntop k st V \<Longrightarrow> v_wrap V = Some x \<Longrightarrow> buf_inv (receivedData x)"
  by (cases st) (auto simp: wrap_good_def)
lemma client_okD:
  assumes "client_ok ntop k (view k s)" and "ew_conns (world (ce s)) (cl_conn k) = Some w"
  shows "conn_good w (ce_ran s (cl_conn k))" "conn_inv w" "msg_cb (async (world (ce s))) (cl_conn k) = Some (cl_wrap k)"
  using assms by (auto simp: client_ok_def conn_part_def conn_good_def view_def Let_def)

text \<open>A message for the wrapper: it keeps the bytes and, if the client waits for them, queues its resumption.\<close>

lemma message_effect:
  assumes ok: "client_ok ntop k (view k s)" and x: "acs (async (world (ce s))) (cl_wrap k) = Some x" and b: "buf_inv b" "content b \<noteq> []"
    and on: "onMessage (cl_wrap k) b (async (world (ce s))) = Inr (b', A)"
  obtains rd st where
    "stage_ok ntop k st ((view k s)\<lparr>v_wrap := Some (x\<lparr>receivedData := rd, recvCoroutine := None\<rparr>), v_got := v_got (view k s) @ content b,
       v_wakes := v_wakes (view k s) + (if recvCoroutine x = Some (cl_task k) then 1 else 0)\<rparr>)"
    "recvCoroutine x = None \<or> recvCoroutine x = Some (cl_task k)"
    "acs A = (acs (async (world (ce s))))(cl_wrap k \<mapsto> x\<lparr>receivedData := rd, recvCoroutine := None\<rparr>)"
    "resumes A = resumes (async (world (ce s))) @ (case recvCoroutine x of None \<Rightarrow> [] | Some h \<Rightarrow> [h])" "content b' = []"
proof -
  obtain st where st: "stage_ok ntop k st (view k s)" using ok by (auto simp: client_ok_def)
  have vx: "v_wrap (view k s) = Some x" using x by (simp add: view_def Let_def)
  note om = onMessage_content [OF x stage_wrap_inv [OF st vx] b(1) content_le_max [OF b(1)] on]
  from om(2) obtain rd where r: "buf_inv rd" "content rd = content (receivedData x) @ content b"
      "acs A = (acs (async (world (ce s))))(cl_wrap k \<mapsto> x\<lparr>receivedData := rd, recvCoroutine := None\<rparr>)"
      "resumes A = resumes (async (world (ce s))) @ (case recvCoroutine x of None \<Rightarrow> [] | Some h \<Rightarrow> [h])"
    by blast
  from stage_after_message [OF st vx b(2) r(1,2)] that [OF _ _ r(3,4) om(1)] show thesis by blast
qed

lemma read_step:
  assumes ok: "client_ok ntop k (view k s)" and rv: "readv_documented readv" and w: "ew_conns (world (ce s)) (cl_conn k) = Some w"
    and rd: "readFd readv (inputBuffer (conn w)) 0 = Inr (n, e, b)" and ret: "read_ready (cl_conn k) readv me (world (ce s)) = Inr W'"
    and s': "s' = s\<lparr>ce := (ce s)\<lparr>world := W'\<rparr>, ce_got := (ce_got s)(cl_conn k := ce_got s (cl_conn k)
      @ drop (length (content (inputBuffer (conn w)))) (content b))\<rparr>"
  shows "client_ok ntop k (view k s') \<and> (\<forall>j. apart k j \<longrightarrow> view j s' = view j s)"
  using client_okD(2) [OF ok w] w rv rd ret
proof (cases rule: read_ready_cases)
  case (none w')
  have "client_ok ntop k ((view k s)\<lparr>v_conn := Some w', v_ran := v_ran (view k s)\<rparr>)"
    using none w by (intro client_ok_conn [OF ok] conn_good_keeps) (auto simp: view_def Let_def)
  moreover have "view k s' = (view k s)\<lparr>v_conn := Some w', v_ran := v_ran (view k s)\<rparr>" "apart k j \<Longrightarrow> view j s' = view j s" for j
    using none by (auto simp: s' view_def put_ec_def apart_def Let_def)
  ultimately show ?thesis by simp
next
  case (bytes b' A)
  let ?A = "async (world (ce s))" and ?w' = "set_in b' (emit CbMessage (set_in b w))"
  have good: "conn_good w (ce_ran s (cl_conn k))" and on: "onMessage (cl_wrap k) b ?A = Inr (b', A)"
    using client_okD [OF ok w] bytes(3) by (simp_all add: message_arrives_def)
  have c0: "content (inputBuffer (conn w)) = []" using good by (simp add: conn_good_def)
  have d: "content b \<noteq> []" using readFd_sound [OF _ rv rd] bytes(1) client_okD(2) [OF ok w] c0 by (auto simp: conn_inv_def)
  obtain x where x: "acs ?A (cl_wrap k) = Some x" using on by (auto simp: onMessage_def with_ac_def split: option.splits)
  note fr = onMessage_frame [OF on bytes(2)]
  from message_effect [OF ok x bytes(2) d on] obtain rd' st' where
    st': "stage_ok ntop k st' ((view k s)\<lparr>v_wrap := Some (x\<lparr>receivedData := rd', recvCoroutine := None\<rparr>), v_got := v_got (view k s) @ content b,
        v_wakes := v_wakes (view k s) + (if recvCoroutine x = Some (cl_task k) then 1 else 0)\<rparr>)"
    and r: "recvCoroutine x = None \<or> recvCoroutine x = Some (cl_task k)"
      "acs A = (acs ?A)(cl_wrap k \<mapsto> x\<lparr>receivedData := rd', recvCoroutine := None\<rparr>)"
      "resumes A = resumes ?A @ (case recvCoroutine x of None \<Rightarrow> [] | Some h \<Rightarrow> [h])" and b': "content b' = []" .
  have V: "view k s' = (view k s)\<lparr>v_wrap := Some (x\<lparr>receivedData := rd', recvCoroutine := None\<rparr>), v_got := v_got (view k s) @ content b,
      v_wakes := v_wakes (view k s) + (if recvCoroutine x = Some (cl_task k) then 1 else 0), v_conn := Some ?w'\<rparr>"
    using bytes(4) r fr c0 by (auto simp: s' view_def put_ec_def put_async_def Let_def)
  have "conn_ok w ?w'"
    by (rule conn_ok_trans [OF conn_ok_trans [OF set_in_ok emit_ok] set_in_ok]) (use bytes(2) fr(3) in simp_all)
  then have "conn_good ?w' (ce_ran s (cl_conn k))" "requested ?w' = requested w"
    using good b' by (auto simp: conn_good_def conn_ok_def requested_def fun_eq_iff set_in_def emit_def)
  moreover have "v_conn (view k s) = Some w" "v_ran (view k s) = ce_ran s (cl_conn k)" using w by (simp_all add: view_def Let_def)
  ultimately have "conn_part (view k s')" using ok by (auto simp: V client_ok_def conn_part_def)
  moreover have "view j s' = view j s" if "apart k j" for j
    using that bytes(4) r fr by (auto simp: s' view_def put_ec_def put_async_def apart_def Let_def)
  ultimately show ?thesis
    using ok st' by (auto simp: client_ok_def V)
qed

section \<open>Steps of the coroutine\<close>

text \<open>The client's coroutine is running, in \<open>S\<close> with outside state \<open>W\<close>, and has not answered yet.\<close>

definition running :: "client \<Rightarrow> coro_echo \<Rightarrow> echo_world cstate \<Rightarrow> echo_world \<Rightarrow> async_conn \<Rightarrow> conn_world \<Rightarrow> bool" where
  "running k s S W x w \<longleftrightarrow> cl_task k \<noteq> cl_spawn k \<and> msg_cb (async W) (cl_conn k) = Some (cl_wrap k) \<and>
     acs (async W) (cl_wrap k) = Some x \<and> ac_conn x = Some (cl_conn k) \<and> ac_loop x \<noteq> None \<and> buf_inv (receivedData x) \<and>
     recvCoroutine x = None \<and> count_list (resumes (async W)) (cl_task k) = 0 \<and>
     filter (\<lambda>p. fst p = cl_conn k) (sends (async W)) = [] \<and> ce_got s (cl_conn k) = content (receivedData x) \<and>
     ew_conns W (cl_conn k) = Some w \<and> conn_good w (ce_ran s (cl_conn k)) \<and> requested w (ce_ran s (cl_conn k)) = [] \<and>
     write_documented (ew_write W) \<and> count_list (cleanups S) (cl_spawn k) = 0 \<and>
     (\<exists>fh. frames S (cl_spawn k) = Some fh \<and> spawn_frame k fh \<and> status fh = Waiting True (cl_task k) wrapper_rest)"

lemma running_print: "running k s S W x w \<Longrightarrow> running k s S (print l W) x w"
  by (simp add: running_def print_def)

definition kept_for_others :: "client \<Rightarrow> coro_echo \<Rightarrow> echo_world cstate \<Rightarrow> echo_world \<Rightarrow> echo_world cstate \<Rightarrow> bool" where
  "kept_for_others k s S W S' \<longleftrightarrow> (\<forall>j. apart k j \<longrightarrow> view j (s\<lparr>ce := S'\<rparr>) = view j (s\<lparr>ce := S\<lparr>world := W\<rparr>\<rparr>))"

text \<open>A send asks for its bytes to be sent, or nothing when the connection is down.\<close>

lemma send_requested:
  assumes good: "conn_good w n" "requested w n = []" and doc: "write_documented wr" and len: "length d \<le> vec_max"
    and ret: "send wr me d w = Inr w'"
  shows "conn_good w' n \<and> (requested w' n = [] \<or> requested w' n = d)"
proof -
  have ok: "conn_ok w w'" by (rule send_ok [OF doc len ret])
  have "w' = w \<or> w' = emit (Queued (SendTask d)) w \<or> sendInLoop wr me d w = Inr w'"
    using ret by (simp add: send_def split: if_splits)
  then consider (down) "w' = w" | (queue) "w' = emit (Queued (SendTask d)) w" | (direct) "sendInLoop wr me d w = Inr w'"
    by blast
  then show ?thesis
  proof cases
    case queue
    with good ok len show ?thesis by (auto simp: conn_good_def requested_def conn_ok_def emit_def)
  next
    case direct
    from sendInLoop_sends [OF this] have keeps: "keeps_stream (emit (SendReq d) w) w'" by blast
    obtain q where "queued (trace w') = queued (trace w) @ q" "\<forall>t \<in> set q. task_ok t \<and> task_message t = []"
        "sent (trace w') = sent (trace w) @ d"
      using queued_keeps [OF keeps] by auto
    moreover have "inputBuffer (conn w') = inputBuffer (conn w)" using keeps by (simp add: keeps_stream_def)
    ultimately show ?thesis using good ok by (auto simp: conn_good_def requested_def conn_ok_def)
  qed (use good in simp)
qed

lemma running_answers:
  assumes run: "running k s S W x w" and f: "handler_frame k f" "continuation f = Some (cl_spawn k)" and d: "content (receivedData x) \<noteq> []"
    and ret: "resume g (cl_task k) (paused (cl_task k) f (after_recv (cl_wrap k) peer) S W) = Some (Inr S')"
  shows "client_ok ntop k (view k (s\<lparr>ce := S'\<rparr>))" "stage_ok ntop k Answered (view k (s\<lparr>ce := S'\<rparr>))" "kept_for_others k s S W S'"
proof -
  let ?x = "x\<lparr>receivedData := Buffer_default, sendCoroutine := Some (cl_task k)\<rparr>"
  have x: "acs (async W) (cl_wrap k) = Some x" "buf_inv (receivedData x)" "ac_conn x = Some (cl_conn k)" "ew_conns W (cl_conn k) = Some w"
    using run by (simp_all add: running_def)
  obtain w' where w': "send (ew_write W) (ew_thread W) (content (receivedData x)) w = Inr w'"
    and S': "S' = paused (cl_task k) f (after_send (cl_wrap k) peer (receivedData x)) S
      (put_ec (cl_conn k) w' (put_async (answering (cl_wrap k) (cl_task k) x (cl_conn k) (async W)) (print (bytes_line peer ''recv'' (receivedData x)) W)))"
    using ret run resume_after_recv [OF x(1,2) d x(3,4)] by (auto simp: running_def conn_good_def split: sum.splits)
  note defs = S' view_def Let_def paused_def put_frame_def put_ec_def put_async_def print_def answering_def put_ac_def
  have good: "conn_good w' (ce_ran s (cl_conn k)) \<and> (requested w' (ce_ran s (cl_conn k)) = [] \<or> requested w' (ce_ran s (cl_conn k)) = content (receivedData x))"
    using run w' content_le_max [OF x(2)] by (intro send_requested [of w _ "ew_write W"]) (simp_all add: running_def)
  have V: "v_conn (view k (s\<lparr>ce := S'\<rparr>)) = Some w'" "v_ran (view k (s\<lparr>ce := S'\<rparr>)) = ce_ran s (cl_conn k)"
      "v_cb (view k (s\<lparr>ce := S'\<rparr>)) = Some (cl_wrap k)" "v_sends (view k (s\<lparr>ce := S'\<rparr>)) = [content (receivedData x)]"
    using run by (simp_all add: defs running_def)
  show st: "stage_ok ntop k Answered (view k (s\<lparr>ce := S'\<rparr>))"
    using run f d by (auto simp: defs running_def wrap_good_def waits_for_def frames_at_def handler_frame_def)
  show "client_ok ntop k (view k (s\<lparr>ce := S'\<rparr>))"
    unfolding client_ok_def conn_part_def using V good st run by (auto simp: running_def simp del: stage_ok.simps)
  show "kept_for_others k s S W S'"
    using run by (auto simp: kept_for_others_def defs apart_def)
qed
lemma running_parks:
  assumes run: "running k s S W x w" and f: "handler_frame k f" "continuation f = Some (cl_spawn k)" and d: "content (receivedData x) = []"
    and S': "S' = paused (cl_task k) f (after_recv (cl_wrap k) peer) S
      (put_async (put_ac (cl_wrap k) (Some (x\<lparr>recvCoroutine := Some (cl_task k)\<rparr>)) (async W)) W)"
  shows "client_ok ntop k (view k (s\<lparr>ce := S'\<rparr>))" "stage_ok ntop k Receiving (view k (s\<lparr>ce := S'\<rparr>))" "kept_for_others k s S W S'"
proof -
  note defs = S' view_def Let_def paused_def put_frame_def put_async_def put_ac_def
  have V: "v_conn (view k (s\<lparr>ce := S'\<rparr>)) = Some w" "v_ran (view k (s\<lparr>ce := S'\<rparr>)) = ce_ran s (cl_conn k)"
      "v_cb (view k (s\<lparr>ce := S'\<rparr>)) = Some (cl_wrap k)"
    using run by (simp_all add: defs running_def)
  show st: "stage_ok ntop k Receiving (view k (s\<lparr>ce := S'\<rparr>))"
    using run f d by (auto simp: defs running_def wrap_good_def waits_for_def frames_at_def handler_frame_def)
  show "client_ok ntop k (view k (s\<lparr>ce := S'\<rparr>))"
    unfolding client_ok_def conn_part_def using V st run by (auto simp: running_def simp del: stage_ok.simps)
  show "kept_for_others k s S W S'"
    using run by (auto simp: kept_for_others_def defs apart_def)
qed

lemma running_ends:
  assumes run: "running k s S W x w" and f: "handler_frame k f" "continuation f = Some (cl_spawn k)"
    and ret: "resume g (cl_task k) (paused (cl_task k) f (prog_of (client_loop a) (client_exit peer)) S W) = Some (Inr S')"
  shows "client_ok ntop k (view k (s\<lparr>ce := S'\<rparr>))" "kept_for_others k s S W S'"
proof -
  obtain fh where fh: "frames S (cl_spawn k) = Some fh" "spawn_frame k fh" "status fh = Waiting True (cl_task k) wrapper_rest"
    and ne: "cl_task k \<noteq> cl_spawn k"
    using run by (auto simp: running_def)
  have S': "S' = (put_frame (cl_spawn k) (Some (fh\<lparr>status := AtEnd\<rparr>)) (put_frame (cl_task k) (Some (f\<lparr>status := AtEnd\<rparr>))
      (S\<lparr>world := print (down_line peer) W\<rparr>)))\<lparr>cleanups := cleanups S @ [cl_spawn k]\<rparr>"
    using ret resume_client_exit [OF f ne fh] by simp
  note defs = S' view_def Let_def put_frame_def print_def
  have V: "v_conn (view k (s\<lparr>ce := S'\<rparr>)) = Some w" "v_ran (view k (s\<lparr>ce := S'\<rparr>)) = ce_ran s (cl_conn k)"
      "v_cb (view k (s\<lparr>ce := S'\<rparr>)) = Some (cl_wrap k)"
    using run by (simp_all add: defs running_def)
  have st: "stage_ok ntop k Ended (view k (s\<lparr>ce := S'\<rparr>))"
    using run f fh(2) by (auto simp: defs running_def wrap_good_def waits_for_def handler_frame_def spawn_frame_def)
  show "client_ok ntop k (view k (s\<lparr>ce := S'\<rparr>))"
    unfolding client_ok_def conn_part_def using V st run by (auto simp: running_def simp del: stage_ok.simps)
  show "kept_for_others k s S W S'"
    using run by (auto simp: kept_for_others_def defs apart_def)
qed

lemma running_begins:
  assumes run: "running k s S W x w" and f: "handler_frame k f" "continuation f = Some (cl_spawn k)"
    and ret: "resume g (cl_task k) (paused (cl_task k) f (handleClient ntop (cl_wrap k)) S W) = Some (Inr S')"
  shows "client_ok ntop k (view k (s\<lparr>ce := S'\<rparr>)) \<and> kept_for_others k s S W S'"
proof -
  have x: "acs (async W) (cl_wrap k) = Some x" "buf_inv (receivedData x)" "ac_conn x = Some (cl_conn k)" "ew_conns W (cl_conn k) = Some w"
    using run by (simp_all add: running_def)
  obtain peer where peer: "resume g (cl_task k) (paused (cl_task k) f (handleClient ntop (cl_wrap k)) S W) =
      resume g (cl_task k) (paused (cl_task k) f (prog_of (client_loop (cl_wrap k)) (client_loop (cl_wrap k) peer)) S
        (print (up_line peer) W))"
    using resume_handleClient [OF x(1,3,4)] by blast
  let ?W = "print (up_line peer) W"
  have run': "running k s S ?W x w" by (rule running_print [OF run])
  have x': "acs (async ?W) (cl_wrap k) = Some x" "ew_conns ?W (cl_conn k) = Some w"
    using x by (simp_all add: print_def)
  note loop = resume_client_loop [OF x'(1) x(2,3) x'(2), of g "cl_task k" f peer S] and out = peer ret
  have same: "kept_for_others k s S ?W S' = kept_for_others k s S W S'"
    by (simp add: kept_for_others_def view_def print_def Let_def)
  show ?thesis
  proof (cases "conn_state (conn w) = Connected")
    case False
    with loop out have "resume g (cl_task k) (paused (cl_task k) f (prog_of (client_loop (cl_wrap k)) (client_exit peer)) S ?W) = Some (Inr S')"
      by simp
    from running_ends [OF run' f this] same show ?thesis by blast
  next
    case up: True
    show ?thesis
    proof (cases "content (receivedData x) = []")
      case True
      with up loop out running_parks [OF run' f True, of S' peer] same show ?thesis by simp
    next
      case False
      with up loop out have "resume g (cl_task k) (paused (cl_task k) f (after_recv (cl_wrap k) peer) S ?W) = Some (Inr S')" by simp
      from running_answers [OF run' f False this] same show ?thesis by blast
    qed
  qed
qed
text \<open>Starting the coroutine: the spawned one awaits the handler, which runs.\<close>

definition started :: "client \<Rightarrow> echo_world frame \<Rightarrow> coro_echo \<Rightarrow> echo_world cstate" where
  "started k h s = put_frame (cl_spawn k) (Some (h\<lparr>status := Waiting True (cl_task k) wrapper_rest\<rparr>)) (ce s)"

lemma begin_resume:
  assumes ok: "client_ok ntop k (view k s)" and st: "stage_ok ntop k Fresh (view k s)" and doc: "write_documented wr"
    and h: "frames (ce s) (cl_spawn k) = Some h" and W: "W = on_thread me wr (world (ce s))"
  obtains f x w where "running k s (started k h s) W x w" "handler_frame k f" "continuation f = Some (cl_spawn k)"
    "resume g (cl_spawn k) ((ce s)\<lparr>world := W\<rparr>) = resume g (cl_task k) (paused (cl_task k) f (handleClient ntop (cl_wrap k)) (started k h s) W)"
proof -
  let ?t = "cl_task k" and ?h = "cl_spawn k"
  have ne: "?t \<noteq> ?h" using ok by (simp add: client_ok_def)
  obtain f where f: "frames (ce s) ?t = Some f" "handler_frame k f" "status f = Run (handleClient ntop (cl_wrap k))"
    and hj: "spawn_frame k h" "status h = Run (Join ?t wrapper_rest)"
    using st h by (auto simp: view_def Let_def)
  let ?f = "f\<lparr>continuation := Some ?h\<rparr>"
  obtain x w where run: "running k s (started k h s) W x w"
    using ok st h hj doc unfolding client_ok_def conn_part_def
    by (auto simp: view_def Let_def running_def started_def W on_thread_def put_frame_def wrap_good_def waits_for_def spawn_frame_def filter_empty_conv)
  have same: "?f\<lparr>status := Run (handleClient ntop (cl_wrap k))\<rparr> = ?f" using f(3) by (cases f) simp
  have "resume g ?h ((ce s)\<lparr>world := W\<rparr>) = resume g ?t (paused ?t ?f (handleClient ntop (cl_wrap k)) (started k h s) W)"
    using h hj(2) f ne
    by (intro resume_Goto) (simp add: same resume_step_def Task_await_suspend_def paused_def started_def put_frame_def fun_upd_def)
  with run f(2) show thesis by (intro that [of x w ?f]) (simp_all add: handler_frame_def)
qed

lemma started_others: "apart k j \<Longrightarrow> view j (s\<lparr>ce := (started k h s)\<lparr>world := on_thread me wr (world (ce s))\<rparr>\<rparr>) = view j s"
  by (auto simp: view_def Let_def started_def put_frame_def on_thread_def apart_def)

lemma begin_step:
  assumes ok: "client_ok ntop k (view k s)" and doc: "write_documented wr"
    and h: "frames (ce s) (cl_spawn k) = Some h" "status h = Run p"
    and ret: "resume g (cl_spawn k) ((ce s)\<lparr>world := on_thread me wr (world (ce s))\<rparr>) = Some (Inr S')"
  shows "client_ok ntop k (view k (s\<lparr>ce := S'\<rparr>)) \<and> (\<forall>j. apart k j \<longrightarrow> view j (s\<lparr>ce := S'\<rparr>) = view j s)"
proof -
  obtain st where st: "stage_ok ntop k st (view k s)" using ok by (auto simp: client_ok_def)
  then have "st = Fresh"
    using h by (cases st) (auto simp: view_def Let_def frames_at_def)
  with st have "stage_ok ntop k Fresh (view k s)" by simp
  then obtain f x w where "running k s (started k h s) (on_thread me wr (world (ce s))) x w" "handler_frame k f" "continuation f = Some (cl_spawn k)"
    "resume g (cl_spawn k) ((ce s)\<lparr>world := on_thread me wr (world (ce s))\<rparr>) =
      resume g (cl_task k) (paused (cl_task k) f (handleClient ntop (cl_wrap k)) (started k h s) (on_thread me wr (world (ce s))))"
    using begin_resume [OF ok _ doc h(1) refl, of me g] by metis
  with running_begins [of k s "started k h s" _ x w f g ntop S'] ret show ?thesis
    using started_others [where k = k and s = s and h = h and me = me and wr = wr] by (auto simp: kept_for_others_def)
qed

lemma wake_step:
  assumes ok: "client_ok ntop k (view k s)" and doc: "write_documented wr" and A: "A = async (world (ce s))"
    and q: "resumes A = q1 @ cl_task k # q2"
    and ret: "resume g (cl_task k) ((ce s)\<lparr>world := on_thread me wr (put_async (A\<lparr>resumes := q1 @ q2\<rparr>) (world (ce s)))\<rparr>) = Some (Inr S')"
  shows "client_ok ntop k (view k (s\<lparr>ce := S'\<rparr>)) \<and> stage_ok ntop k Answered (view k (s\<lparr>ce := S'\<rparr>))
    \<and> (\<forall>j. apart k j \<longrightarrow> view j (s\<lparr>ce := S'\<rparr>) = view j s)"
proof -
  let ?t = "cl_task k" and ?W = "on_thread me wr (put_async (A\<lparr>resumes := q1 @ q2\<rparr>) (world (ce s)))"
  obtain st where st: "stage_ok ntop k st (view k s)" using ok by (auto simp: client_ok_def)
  then have "st = Receiving"
    using q A by (cases st) (auto simp: view_def Let_def)
  with st have st: "stage_ok ntop k Receiving (view k s)" by simp
  then obtain peer f where f: "frames (ce s) ?t = Some f" "handler_frame k f" "status f = Run (after_recv (cl_wrap k) peer)"
      "continuation f = Some (cl_spawn k)"
    by (auto simp: view_def Let_def frames_at_def)
  obtain x w where run: "running k s (ce s) ?W x w" and d: "content (receivedData x) \<noteq> []"
    using ok st q A doc unfolding client_ok_def conn_part_def
    by (auto simp: view_def Let_def running_def on_thread_def put_async_def wrap_good_def waits_for_def frames_at_def filter_empty_conv
        split: if_splits)
  have r: "resume g ?t (paused ?t f (after_recv (cl_wrap k) peer) (ce s) ?W) = Some (Inr S')"
    using ret paused_intro [OF f(1,3), of ?W] by simp
  note fin = running_answers [OF run f(2,4) d r]
  moreover have "view j (s\<lparr>ce := (ce s)\<lparr>world := ?W\<rparr>\<rparr>) = view j s" if "apart k j" for j
    using that q A by (auto simp: view_def Let_def put_async_def on_thread_def apart_def)
  ultimately show ?thesis by (simp add: kept_for_others_def)
qed

lemma cleanup_step:
  assumes ok: "client_ok ntop k (view k s)" and q: "cleanups (ce s) = q1 @ cl_spawn k # q2"
    and S1: "destroy (cl_spawn k) ((ce s)\<lparr>cleanups := q1 @ q2\<rparr>) = Inr S1"
    and A: "AsyncConnection_dtor (cl_wrap k) (async (world S1)) = Inr A" and s': "s' = s\<lparr>ce := S1\<lparr>world := put_async A (world S1)\<rparr>\<rparr>"
  shows "client_ok ntop k (view k s') \<and> (\<forall>j. apart k j \<longrightarrow> view j s' = view j s)"
proof -
  obtain st where st: "stage_ok ntop k st (view k s)" using ok by (auto simp: client_ok_def)
  then have "st = Ended" using q by (cases st) (auto simp: view_def Let_def)
  with st have st: "stage_ok ntop k Ended (view k s)" by simp
  then obtain f h where f: "frames (ce s) (cl_task k) = Some f" "handler_frame k f" "status f = AtEnd"
    and h: "frames (ce s) (cl_spawn k) = Some h" "spawn_frame k h" "status h = AtEnd"
    by (auto simp: view_def Let_def)
  have "S1 = put_frame (cl_task k) None (put_frame (cl_spawn k) None ((ce s)\<lparr>cleanups := q1 @ q2\<rparr>))"
    using S1 f h ok by (cases "next_frame (ce s)")
      (auto simp: destroy_def owned_tasks_def spawn_frame_def handler_frame_def put_frame_def client_ok_def)
  moreover from this A have "A = put_ac (cl_wrap k) None (async (world (ce s)))"
    by (auto simp: AsyncConnection_dtor_def with_ac_def put_frame_def split: option.splits)
  ultimately have eq: "s' = s\<lparr>ce := (ce s)\<lparr>cleanups := q1 @ q2, frames := (frames (ce s))(cl_spawn k := None, cl_task k := None),
      world := put_async (put_ac (cl_wrap k) None (async (world (ce s)))) (world (ce s))\<rparr>\<rparr>"
    by (simp add: s' put_frame_def)
  have V: "view k s' = (view k s)\<lparr>v_wrap := None, v_task := None, v_spawn := None, v_ended := 0\<rparr>"
    using st q by (auto simp: eq view_def Let_def put_async_def put_ac_def)
  have "stage_ok ntop k Gone (view k s')" using st by (simp add: V)
  then have "client_ok ntop k (view k s')"
    using ok by (auto simp: client_ok_def conn_part_def V simp del: stage_ok.simps)
  moreover have "view j s' = view j s" if "apart k j" for j
    using that q by (auto simp: eq view_def Let_def put_async_def put_ac_def apart_def)
  ultimately show ?thesis by blast
qed
section \<open>Every step of a client\<close>

lemma task_step:
  assumes ok: "client_ok ntop k (view k s)" and doc: "write_documented wr" and w: "ew_conns (world (ce s)) (cl_conn k) = Some w"
    and n: "ce_ran s (cl_conn k) < length (queued (trace w))"
    and ret: "conn_handler (cl_conn k) (run_task coro_cbs wr me (queued (trace w) ! ce_ran s (cl_conn k))) (world (ce s)) = Inr W'"
    and s': "s' = s\<lparr>ce := (ce s)\<lparr>world := W'\<rparr>, ce_ran := (ce_ran s)(cl_conn k := Suc (ce_ran s (cl_conn k)))\<rparr>"
  shows "client_ok ntop k (view k s') \<and> (\<forall>j. apart k j \<longrightarrow> view j s' = view j s)"
proof -
  obtain w' where w': "run_task coro_cbs wr me (queued (trace w) ! ce_ran s (cl_conn k)) w = Inr w'" "W' = put_ec (cl_conn k) w' (world (ce s))"
  proof -
    have "task_ok (queued (trace w) ! ce_ran s (cl_conn k))"
      using client_okD(1) [OF ok w] n by (simp add: conn_good_def)
    then have "conn_ok u u'" if "run_task coro_cbs wr me (queued (trace w) ! ce_ran s (cl_conn k)) u = Inr u'" for u u'
      using run_task_ok [OF coro_cbs_ok doc _ that] by blast
    from view_conn_handler [OF ok ret this] w that show ?thesis by (auto simp: view_def Let_def)
  qed
  have v: "v_conn (view k s) = Some w" "v_ran (view k s) = ce_ran s (cl_conn k)" using w by (simp_all add: view_def Let_def)
  have "client_ok ntop k ((view k s)\<lparr>v_conn := Some w', v_ran := Suc (ce_ran s (cl_conn k))\<rparr>)"
    using coro_run_task [OF _ n doc w'(1)] v(2) by (intro client_ok_conn [OF ok v(1)]) simp
  moreover have "view k s' = (view k s)\<lparr>v_conn := Some w', v_ran := Suc (ce_ran s (cl_conn k))\<rparr>"
    "apart k j \<Longrightarrow> view j s' = view j s" for j
    by (auto simp: s' w'(2) view_def put_ec_def apart_def Let_def)
  ultimately show ?thesis by simp
qed

lemma client_step_ok:
  assumes "client_step k s s'" and "client_ok ntop k (view k s)"
  shows "client_ok ntop k (view k s') \<and> (\<forall>j. apart k j \<longrightarrow> view j s' = view j s)"
  using assms
proof (induction rule: client_step.induct)
  case (cs_read readv s w n e b me W')
  then show ?case by (intro read_step [OF _ _ _ _ _ refl]) auto
next
  case (cs_write wr me s W')
  then show ?case
    using conn_handler_step [of ntop k s "handleWrite wr me" W'] handleWrite_ok [where wr = wr] handleWrite_keeps by blast
next
  case (cs_close me s W')
  then show ?case
    using conn_handler_step [of ntop k s "handleClose coro_cbs me" W'] coro_handleClose by blast
next
  case (cs_remove s w)
  have "conn_handler (cl_conn k) (\<lambda>w. Inr (emit (Queued DestroyTask) w)) (world (ce s))
      = Inr (put_ec (cl_conn k) (emit (Queued DestroyTask) w) (world (ce s)))"
    using cs_remove by (simp add: conn_handler_def announce_def new_completions_def put_async_def put_ec_def)
  moreover have "conn_ok u (emit (Queued DestroyTask) u) \<and> keeps_stream u (emit (Queued DestroyTask) u)" for u
    by (auto intro: emit_ok keeps_stream_simps)
  ultimately show ?case
    using conn_handler_step [of ntop k s "\<lambda>w. Inr (emit (Queued DestroyTask) w)"] cs_remove by blast
next
  case (cs_task wr s w me W')
  then show ?case by (intro task_step [OF _ _ _ _ _ refl]) auto
next
  case (cs_begin wr s f p g me S')
  then show ?case by (intro begin_step) auto
next
  case (cs_wake wr A s q1 q2 g me S')
  then show ?case using wake_step [of ntop k s wr A q1 q2 g me S'] by blast
next
  case (cs_cleanup s q1 q2 S1 A)
  then show ?case by (intro cleanup_step [OF _ _ _ _ refl]) auto
qed

interpretation clients: interleaved client_step view "client_start ntop" "client_ok ntop" apart for ntop
  by unfold_locales (use client_start_ok client_step_ok in blast)+

text \<open>The clients \<open>K\<close> of the server together.\<close>

abbreviation echo_reachable :: "(32 word \<Rightarrow> string) \<Rightarrow> client set \<Rightarrow> coro_echo \<Rightarrow> bool" where
  "echo_reachable ntop K \<equiv> reachable (family_start view (client_start ntop) apart K) (family_step client_step K)"

lemma echo_reachable_ok: "echo_reachable ntop K s \<Longrightarrow> k \<in> K \<Longrightarrow> client_ok ntop k (view k s)"
  using clients.family.reachable_inv [of ntop K s] by (simp add: family_start_def)
section \<open>A client that was answered\<close>

lemma answered_stage:
  assumes "client_ok ntop k V" and "v_sends V \<noteq> []"
  shows "stage_ok ntop k Answered V"
proof -
  obtain st where st: "stage_ok ntop k st V" using assms(1) by (auto simp: client_ok_def)
  then show ?thesis using assms(2) by (cases st) auto
qed

text \<open>No step runs its coroutine again, and none releases it.\<close>

lemma answered_step:
  assumes "client_step k s s'" and "client_ok ntop k (view k s)" and "v_sends (view k s) \<noteq> []"
  shows "v_sends (view k s') = v_sends (view k s) \<and> v_task (view k s') = v_task (view k s)"
  using assms
proof (induction rule: client_step.induct)
  case (cs_read readv s w n e b me W')
  from client_okD(2) [OF cs_read.prems(1) cs_read.hyps(2)] cs_read.hyps(2,1,3,4) show ?case
  proof (cases rule: read_ready_cases)
    case (bytes b' A)
    then have "onMessage (cl_wrap k) b (async (world (ce s))) = Inr (b', A)"
      using client_okD(3) [OF cs_read.prems(1) cs_read.hyps(2)] by (simp add: message_arrives_def)
    from onMessage_frame(2) [OF this bytes(2)] bytes(4) show ?thesis
      by (simp add: view_def Let_def put_ec_def put_async_def)
  qed (simp add: view_def Let_def put_ec_def)
next
  case (cs_begin wr s f p g me S')
  then have "stage_ok ntop k Answered (view k s)" by (intro answered_stage)
  with cs_begin show ?case by (auto simp: frames_at_def view_def Let_def)
next
  case (cs_wake wr A s q1 q2 g me S')
  then have "stage_ok ntop k Answered (view k s)" by (intro answered_stage)
  with cs_wake show ?case by (auto simp: view_def Let_def)
next
  case (cs_cleanup s q1 q2 S1 A)
  then have "stage_ok ntop k Answered (view k s)" by (intro answered_stage)
  with cs_cleanup show ?case by (auto simp: view_def Let_def)
next
  case (cs_write wr me s W')
  with view_conn_handler [OF cs_write.prems(1) cs_write.hyps(2)] handleWrite_ok [where wr = wr] show ?case
    by (auto simp: view_put_ec)
next
  case (cs_close me s W')
  with view_conn_handler [OF cs_close.prems(1) cs_close.hyps(1)] coro_handleClose show ?case
    by (auto simp: view_put_ec)
next
  case (cs_task wr s w me W')
  have "task_ok (queued (trace w) ! ce_ran s (cl_conn k))"
    using client_okD(1) [OF cs_task.prems(1) cs_task.hyps(2)] cs_task.hyps(3) by (simp add: conn_good_def)
  then obtain w' where "W' = put_ec (cl_conn k) w' (world (ce s))"
    using view_conn_handler [OF cs_task.prems(1) cs_task.hyps(5)] run_task_ok [OF coro_cbs_ok cs_task.hyps(1)] by blast
  then show ?case by (simp add: view_def Let_def put_ec_def)
qed (auto simp: view_def Let_def put_ec_def)

lemma answered_forever:
  assumes steps: "(family_step client_step K)\<^sup>*\<^sup>* s s'" and inv: "family_start view (client_ok ntop) apart K s"
    and k: "k \<in> K" "v_sends (view k s) \<noteq> []"
  shows "v_sends (view k s') = v_sends (view k s) \<and> v_task (view k s') = v_task (view k s)
    \<and> family_start view (client_ok ntop) apart K s'"
  using steps
proof (induction rule: rtranclp_induct)
  case (step u v)
  obtain j where j: "j \<in> K" "client_step j u v" using step.hyps(2) by (auto simp: family_step_def)
  have ok: "client_ok ntop i (view i u)" if "i \<in> K" for i using step.IH that by (simp add: family_start_def)
  have inv': "family_start view (client_ok ntop) apart K v"
    using clients.family_step_ok step.IH step.hyps(2) by blast
  show ?case
  proof (cases "j = k")
    case True
    with answered_step [OF j(2) ok [OF j(1)]] step.IH k inv' show ?thesis by simp
  next
    case False
    then have "apart j k" using step.IH j(1) k(1) by (simp add: family_start_def)
    then have "view k v = view k u" using client_step_ok [OF j(2) ok [OF j(1)]] by blast
    with step.IH inv' show ?thesis by simp
  qed
qed (use inv in simp)

section \<open>The first chunk is answered\<close>

lemma view_fields:
  "v_conn (view k s) = ew_conns (world (ce s)) (cl_conn k)" "v_wrap (view k s) = acs (async (world (ce s))) (cl_wrap k)"
  "v_cb (view k s) = msg_cb (async (world (ce s))) (cl_conn k)" "v_wakes (view k s) = count_list (resumes (async (world (ce s)))) (cl_task k)"
  "v_sends (view k s) = map snd (filter (\<lambda>p. fst p = cl_conn k) (sends (async (world (ce s)))))"
  "v_task (view k s) = frames (ce s) (cl_task k)" "v_spawn (view k s) = frames (ce s) (cl_spawn k)"
  "v_got (view k s) = ce_got s (cl_conn k)" "v_ran (view k s) = ce_ran s (cl_conn k)"
  by (simp_all add: view_def Let_def)

lemma begin_parks:
  assumes ok: "client_ok ntop k (view k s)" and st: "stage_ok ntop k Fresh (view k s)" and doc: "write_documented wr"
    and w: "v_conn (view k s) = Some w" "conn_state (conn w) = Connected" and x: "v_wrap (view k s) = Some x" "v_got (view k s) = []"
  shows "\<exists>s1. client_step k s s1 \<and> client_ok ntop k (view k s1) \<and> stage_ok ntop k Receiving (view k s1) \<and> v_conn (view k s1) = Some w
    \<and> v_wrap (view k s1) = Some (x\<lparr>recvCoroutine := Some (cl_task k)\<rparr>) \<and> v_got (view k s1) = []"
proof -
  let ?t = "cl_task k" and ?W = "on_thread 0 wr (world (ce s))"
  obtain h p where h: "frames (ce s) (cl_spawn k) = Some h" "status h = Run p" using st by (auto simp: view_fields)
  obtain f x' w' where run: "running k s (started k h s) ?W x' w'" and f: "handler_frame k f" "continuation f = Some (cl_spawn k)"
    and res: "resume 0 (cl_spawn k) ((ce s)\<lparr>world := ?W\<rparr>) = resume 0 ?t (paused ?t f (handleClient ntop (cl_wrap k)) (started k h s) ?W)"
    using begin_resume [OF ok st doc h(1) refl, of 0 0] by metis
  have eq: "x' = x" "w' = w" using run x w by (simp_all add: running_def view_fields on_thread_def)
  have x': "acs (async (print l ?W)) (cl_wrap k) = Some x" "buf_inv (receivedData x)" "ac_conn x = Some (cl_conn k)"
      "ew_conns (print l ?W) (cl_conn k) = Some w" "content (receivedData x) = []" for l
    using run x by (simp_all add: running_def eq view_fields print_def)
  obtain peer where peer: "resume 0 ?t (paused ?t f (handleClient ntop (cl_wrap k)) (started k h s) ?W) =
      resume 0 ?t (paused ?t f (prog_of (client_loop (cl_wrap k)) (client_loop (cl_wrap k) peer)) (started k h s)
        (print (up_line peer) ?W))"
    using resume_handleClient [of ?W "cl_wrap k" x "cl_conn k" w] run unfolding running_def eq by blast
  let ?W1 = "print (up_line peer) ?W"
  let ?S1 = "paused ?t f (after_recv (cl_wrap k) peer) (started k h s)
      (put_async (put_ac (cl_wrap k) (Some (x\<lparr>recvCoroutine := Some ?t\<rparr>)) (async ?W1)) ?W1)"
  have "resume 0 (cl_spawn k) ((ce s)\<lparr>world := ?W\<rparr>) = Some (Inr ?S1)"
    unfolding res peer using resume_client_loop [OF x'(1-4)] w(2) x'(5) by simp
  from cs_begin [OF doc h this] have step: "client_step k s (s\<lparr>ce := ?S1\<rparr>)" .
  note parks = running_parks [where S' = ?S1 and peer = peer, OF running_print [OF run [unfolded eq], of "up_line peer"] f x'(5) refl]
  have "v_conn (view k (s\<lparr>ce := ?S1\<rparr>)) = Some w \<and> v_wrap (view k (s\<lparr>ce := ?S1\<rparr>)) = Some (x\<lparr>recvCoroutine := Some ?t\<rparr>)
      \<and> v_got (view k (s\<lparr>ce := ?S1\<rparr>)) = []"
    using w(1) x by (simp add: view_fields paused_def put_frame_def put_async_def put_ac_def print_def on_thread_def)
  with step parks show ?thesis by blast
qed
text \<open>The state after \<open>read_ready\<close> returned \<open>W'\<close> and the kernel had delivered \<open>d\<close>, as the step of the client makes it.\<close>

definition after_read :: "client \<Rightarrow> coro_echo \<Rightarrow> echo_world \<Rightarrow> string \<Rightarrow> coro_echo" where
  "after_read k s W' d = s\<lparr>ce := (ce s)\<lparr>world := W'\<rparr>, ce_got := (ce_got s)(cl_conn k := ce_got s (cl_conn k) @ d)\<rparr>"

text \<open>A client that waits in \<^verbatim>\<open>recv\<close> is in stage \<open>Receiving\<close>.\<close>

lemma waiting_stage:
  assumes "client_ok ntop k (view k s)" and "v_wrap (view k s) = Some x" and "recvCoroutine x = Some h"
  shows "stage_ok ntop k Receiving (view k s) \<and> v_got (view k s) = [] \<and> h = cl_task k \<and> v_wakes (view k s) = 0"
proof -
  obtain st where st: "stage_ok ntop k st (view k s)" using assms(1) by (auto simp: client_ok_def)
  with assms(2,3) have "st = Receiving" by (cases st) (auto simp: waits_for_def)
  with st assms(2,3) show ?thesis by (auto simp: waits_for_def split: if_splits)
qed

lemma read_delivers:
  assumes ok: "client_ok ntop k (view k s)" and rv: "readv_documented readv"
    and w: "v_conn (view k s) = Some w" "conn_in_loop me w" and x: "v_wrap (view k s) = Some x" "recvCoroutine x = Some h"
    and rd: "readFd readv (inputBuffer (conn w)) 0 = Inr (n, e, b)" "0 < n"
    and room: "writerIndex (receivedData x) + length (content b) \<le> vec_max"
  shows "\<exists>W'. read_ready (cl_conn k) readv me (world (ce s)) = Inr W' \<and> client_step k s (after_read k s W' (content b))
    \<and> client_ok ntop k (view k (after_read k s W' (content b))) \<and> v_wakes (view k (after_read k s W' (content b))) = 1
    \<and> v_got (view k (after_read k s W' (content b))) = content b
    \<and> v_conn (view k (after_read k s W' (content b))) = Some (set_in (retrieveAll b) (emit CbMessage (set_in b w)))"
proof -
  let ?W = "world (ce s)" and ?a = "cl_wrap k"
  have st: "stage_ok ntop k Receiving (view k s)" "v_got (view k s) = []" using waiting_stage [OF ok x] by blast+
  then have x': "acs (async ?W) ?a = Some x" "recvCoroutine x = Some (cl_task k)" "ac_loop x \<noteq> None" "buf_inv (receivedData x)"
      "content (receivedData x) = []" "count_list (resumes (async ?W)) (cl_task k) = 0"
    using x(1) by (auto simp: view_fields wrap_good_def waits_for_def)
  have w': "ew_conns ?W (cl_conn k) = Some w" using w(1) by (simp add: view_fields)
  have c0: "content (inputBuffer (conn w)) = []" using client_okD(1) [OF ok w'] by (simp add: conn_good_def)
  have b: "buf_inv b" using readFd_sound [OF _ rv rd(1)] client_okD(2) [OF ok w'] by (simp add: conn_inv_def)
  obtain r where r: "append (receivedData x) (content b) = Inr r" using append_to_empty [OF x'(4,5) room] by blast
  let ?x = "x\<lparr>receivedData := r, recvCoroutine := None\<rparr>"
  let ?A = "(put_ac ?a (Some ?x) (async ?W))\<lparr>resumes := resumes (async ?W) @ [cl_task k]\<rparr>"
  let ?w = "set_in (retrieveAll b) (emit CbMessage (set_in b w))"
  have "message_arrives (cl_conn k) b (async ?W) = Inr (retrieveAll b, ?A)"
    using client_okD(3) [OF ok w'] x' b r by (auto simp: message_arrives_def onMessage_def with_ac_def queue_resume_def put_ac_def Let_def)
  moreover have hr: "handleRead coro_cbs readv me w = Inr (emit CbMessage (set_in b w))"
    using w(2) rd by (simp add: handleRead_def conn_assert_loop_def call_required_def)
  moreover have "announce (cl_conn k) w (emit CbMessage (set_in b w)) ?W = Inr ?W"
    using announce_none handleRead_ok [OF coro_cbs_ok rv hr] client_okD(2) [OF ok w'] by (simp add: conn_ok_def)
  ultimately have "read_ready (cl_conn k) readv me ?W = Inr (put_ec (cl_conn k) ?w (put_async ?A ?W))"
    using w' by (simp add: read_ready_def set_in_def emit_def)
  note ret = rv w' rd(1) this
  have "after_read k s (put_ec (cl_conn k) ?w (put_async ?A ?W)) (content b) = s\<lparr>ce := (ce s)\<lparr>world := put_ec (cl_conn k) ?w (put_async ?A ?W)\<rparr>,
      ce_got := (ce_got s)(cl_conn k := ce_got s (cl_conn k) @ drop (length (content (inputBuffer (conn w)))) (content b))\<rparr>"
    by (simp add: after_read_def c0)
  note step = cs_read [OF ret, folded this] read_step [OF ok ret this]
  show ?thesis
    using ret(4) step x'(6) st(2)
    by (intro exI [of _ "put_ec (cl_conn k) ?w (put_async ?A ?W)"] conjI)
       (assumption | simp add: view_fields after_read_def put_ec_def put_async_def put_ac_def)+
qed

text \<open>The state in which the loop of thread \<open>me\<close> resumes a handle that it takes out of the queue.\<close>

definition taken :: "coro_echo \<Rightarrow> nat list \<Rightarrow> nat \<Rightarrow> write_fun \<Rightarrow> echo_world cstate" where
  "taken s q me wr = (ce s)\<lparr>world := on_thread me wr (put_async ((async (world (ce s)))\<lparr>resumes := q\<rparr>) (world (ce s)))\<rparr>"

lemma wake_answers:
  assumes ok: "client_ok ntop k (view k s)" and q: "resumes (async (world (ce s))) = q1 @ cl_task k # q2" and doc: "write_documented wr"
    and w: "v_conn (view k s) = Some w" "conn_state (conn w) = Connected" "conn_in_loop me w" "\<not> isWriting (conn_chan (conn w))"
      "content (outputBuffer (conn w)) = []" "writerIndex (outputBuffer (conn w)) + length (v_got (view k s)) \<le> vec_max"
    and n: "wr (v_got (view k s)) = Inr n"
  shows "\<exists>S' w'. resume g (cl_task k) (taken s (q1 @ q2) me wr) = Some (Inr S') \<and> client_step k s (s\<lparr>ce := S'\<rparr>)
    \<and> v_sends (view k (s\<lparr>ce := S'\<rparr>)) = [v_got (view k s)] \<and> v_got (view k (s\<lparr>ce := S'\<rparr>)) = v_got (view k s)
    \<and> v_conn (view k (s\<lparr>ce := S'\<rparr>)) = Some w' \<and> written (trace w') = written (trace w) @ take n (v_got (view k s))"
proof -
  let ?t = "cl_task k" and ?A = "async (world (ce s))"
  have wakes: "v_wakes (view k s) \<noteq> 0" using q by (simp add: view_fields)
  obtain st where "stage_ok ntop k st (view k s)" using ok by (auto simp: client_ok_def)
  then have st: "stage_ok ntop k Receiving (view k s)" using wakes by (cases st) auto
  then obtain peer f x where f: "frames (ce s) ?t = Some f" "status f = Run (after_recv (cl_wrap k) peer)"
    and x: "acs ?A (cl_wrap k) = Some x" "buf_inv (receivedData x)" "content (receivedData x) = v_got (view k s)"
      "ac_conn x = Some (cl_conn k)" "v_got (view k s) \<noteq> []" "filter (\<lambda>p. fst p = cl_conn k) (sends ?A) = []"
    using wakes by (auto simp: view_fields frames_at_def wrap_good_def filter_empty_conv split: if_splits)
  let ?W = "on_thread me wr (put_async (?A\<lparr>resumes := q1 @ q2\<rparr>) (world (ce s)))"
  have W: "acs (async ?W) (cl_wrap k) = Some x" "ew_conns ?W (cl_conn k) = Some w" "ew_write ?W = wr" "ew_thread ?W = me"
      "sends (async ?W) = sends ?A"
    using x(1) w(1) by (simp_all add: on_thread_def put_async_def view_fields)
  have inv: "conn_inv w" using client_okD(2) [OF ok] w(1) by (simp add: view_fields)
  from sendInLoop_outcome [OF inv w(3) doc w(4-6)] n obtain w' where
    w': "sendInLoop wr me (v_got (view k s)) w = Inr w'" "written (trace w') = written (trace w) @ take n (v_got (view k s))"
    by auto
  let ?S' = "paused ?t f (after_send (cl_wrap k) peer (receivedData x)) (ce s)
      (put_ec (cl_conn k) w' (put_async (answering (cl_wrap k) ?t x (cl_conn k) (async ?W)) (print (bytes_line peer ''recv'' (receivedData x)) ?W)))"
  have run: "resume g ?t ((ce s)\<lparr>world := ?W\<rparr>) = Some (Inr ?S')"
    using resume_after_recv [OF W(1) x(2) _ x(4) W(2) inv, of g ?t f peer "ce s"] x(3,5) w(2,3) w'(1) W(3,4) doc
    by (simp add: paused_intro [OF f] send_def)
  from cs_wake [OF doc refl q run] have "client_step k s (s\<lparr>ce := ?S'\<rparr>)" .
  moreover have "v_sends (view k (s\<lparr>ce := ?S'\<rparr>)) = [v_got (view k s)]" "v_conn (view k (s\<lparr>ce := ?S'\<rparr>)) = Some w'"
      "v_got (view k (s\<lparr>ce := ?S'\<rparr>)) = v_got (view k s)"
    using x(3,6) W(5) by (simp_all add: view_fields paused_def put_frame_def put_ec_def put_async_def answering_def put_ac_def print_def)
  ultimately show ?thesis using w'(2) run by (intro exI [of _ ?S'] exI [of _ w']) (simp add: taken_def)
qed

lemma waiting_answered:
  assumes ok: "client_ok ntop k (view k s)" and x: "v_wrap (view k s) = Some x" "recvCoroutine x = Some h"
    and room: "writerIndex (receivedData x) + length d \<le> vec_max"
    and w: "v_conn (view k s) = Some w" "conn_state (conn w) = Connected" "conn_in_loop me w"
      "\<not> isWriting (conn_chan (conn w))" "content (outputBuffer (conn w)) = []" "writerIndex (outputBuffer (conn w)) + length d \<le> vec_max"
    and rd: "readv_documented readv" "readFd readv (inputBuffer (conn w)) 0 = Inr (int (length d), e, b)" "content b = d" "d \<noteq> []"
    and wr: "write_documented wr" "wr d = Inr n"
  shows "\<exists>W1. read_ready (cl_conn k) readv me (world (ce s)) = Inr W1 \<and> client_step k s (after_read k s W1 d)
    \<and> v_wakes (view k (after_read k s W1 d)) = 1 \<and> v_sends (view k (after_read k s W1 d)) = []
    \<and> (\<forall>q1 q2. resumes (async W1) = q1 @ cl_task k # q2 \<longrightarrow>
        (\<exists>S2 w2. resume g (cl_task k) (taken (after_read k s W1 d) (q1 @ q2) me wr) = Some (Inr S2)
          \<and> client_step k (after_read k s W1 d) ((after_read k s W1 d)\<lparr>ce := S2\<rparr>)
          \<and> v_sends (view k ((after_read k s W1 d)\<lparr>ce := S2\<rparr>)) = [d] \<and> v_got (view k ((after_read k s W1 d)\<lparr>ce := S2\<rparr>)) = d
          \<and> v_conn (view k ((after_read k s W1 d)\<lparr>ce := S2\<rparr>)) = Some w2 \<and> written (trace w2) = written (trace w) @ take n d))"
proof -
  let ?w1 = "set_in (retrieveAll b) (emit CbMessage (set_in b w))"
  obtain W1 where W1: "read_ready (cl_conn k) readv me (world (ce s)) = Inr W1" "client_step k s (after_read k s W1 d)"
      "client_ok ntop k (view k (after_read k s W1 d))" "v_wakes (view k (after_read k s W1 d)) = 1" "v_got (view k (after_read k s W1 d)) = d"
      "v_conn (view k (after_read k s W1 d)) = Some ?w1"
    using read_delivers [OF ok rd(1) w(1,3) x rd(2)] room rd(3,4) by auto
  let ?s1 = "after_read k s W1 d"
  have w1: "conn_state (conn ?w1) = Connected" "conn_in_loop me ?w1" "\<not> isWriting (conn_chan (conn ?w1))"
      "content (outputBuffer (conn ?w1)) = []" "writerIndex (outputBuffer (conn ?w1)) + length (v_got (view k ?s1)) \<le> vec_max"
      "written (trace ?w1) = written (trace w)"
    using w(2-6) W1(5) by (simp_all add: set_in_def emit_def conn_in_loop_def)
  have no: "v_sends (view k ?s1) = []"
  proof -
    obtain st where "stage_ok ntop k st (view k ?s1)" using W1(3) by (auto simp: client_ok_def)
    with W1(4) show ?thesis by (cases st) auto
  qed
  have "\<exists>S2 w2. resume g (cl_task k) (taken ?s1 (q1 @ q2) me wr) = Some (Inr S2) \<and> client_step k ?s1 (?s1\<lparr>ce := S2\<rparr>)
      \<and> v_sends (view k (?s1\<lparr>ce := S2\<rparr>)) = [d] \<and> v_got (view k (?s1\<lparr>ce := S2\<rparr>)) = d
      \<and> v_conn (view k (?s1\<lparr>ce := S2\<rparr>)) = Some w2 \<and> written (trace w2) = written (trace w) @ take n d"
    if "resumes (async W1) = q1 @ cl_task k # q2" for q1 q2
    using wake_answers [OF W1(3) _ wr(1) W1(6) w1(1-5), of q1 q2 n g] that wr(2) W1(5) w1(6) by (simp add: after_read_def)
  with W1(1,2,4) no show ?thesis by blast
qed

section \<open>Sample run\<close>

text \<open>Two clients, established, whose coroutines have been made but not started.\<close>

definition sample_client :: client where
  "sample_client = \<lparr>cl_conn = 3, cl_wrap = 0, cl_task = 0, cl_spawn = 1\<rparr>"

definition sample_client2 :: client where
  "sample_client2 = \<lparr>cl_conn = 4, cl_wrap = 5, cl_task = 2, cl_spawn = 3\<rparr>"

abbreviation sample_clients :: "client set" where
  "sample_clients \<equiv> {sample_client, sample_client2}"

definition sample_ntop :: "32 word \<Rightarrow> string" where
  "sample_ntop a = ''::''"

definition sample_wrappers :: async_world where
  "sample_wrappers = AsyncConnection_ctor 5 (Some (4, 1)) sample_async"

definition sample_handler :: "nat \<Rightarrow> echo_world frame" where
  "sample_handler a = new_frame 0 TVoid (handleClient sample_ntop a)"

definition sample_spawner :: "nat \<Rightarrow> echo_world frame" where
  "sample_spawner t = (wrapper_frame 0 t)\<lparr>spawn_loop := Some 0\<rparr>"

definition sample_echo_world :: echo_world where
  "sample_echo_world = \<lparr>ew_srv = sample_async_server\<lparr>as_world := sample_wrappers\<rparr>,
     ew_conns = [3 \<mapsto> sample_established, 4 \<mapsto> sample_established], ew_out = [],
     ew_running = True, ew_thread = 7, ew_write = take_all, ew_spawns = []\<rparr>"

definition sample_coro :: coro_echo where
  "sample_coro = \<lparr>ce = \<lparr>frames = [0 \<mapsto> sample_handler 0, 1 \<mapsto> sample_spawner 0, 2 \<mapsto> sample_handler 5, 3 \<mapsto> sample_spawner 2],
     next_frame = 4, cleanups = [], world = sample_echo_world\<rparr>, ce_got = (\<lambda>_. []), ce_ran = (\<lambda>_. 0)\<rparr>"

lemma sample_client_fields [simp]:
  "cl_conn sample_client = 3" "cl_wrap sample_client = 0" "cl_task sample_client = 0" "cl_spawn sample_client = 1"
  "cl_conn sample_client2 = 4" "cl_wrap sample_client2 = 5" "cl_task sample_client2 = 2" "cl_spawn sample_client2 = 3"
  by (simp_all add: sample_client_def sample_client2_def)

definition sample_wrapper :: "nat \<Rightarrow> async_conn" where
  "sample_wrapper c = \<lparr>ac_conn = Some c, ac_loop = Some 1, recvCoroutine = None, receivedData = Buffer_default, sendCoroutine = None\<rparr>"

lemma sample_wrappers_fields:
  "acs sample_wrappers = [0 \<mapsto> sample_wrapper 3, 5 \<mapsto> sample_wrapper 4]" "msg_cb sample_wrappers = [3 \<mapsto> 0, 4 \<mapsto> 5]"
  "resumes sample_wrappers = []" "sends sample_wrappers = []"
  by (auto simp: sample_wrappers_def sample_async_def AsyncConnection_ctor_def bindCallbacks_def put_ac_def sample_wrapper_def)

definition sample_view_of :: "nat \<Rightarrow> nat \<Rightarrow> nat \<Rightarrow> client_view" where
  "sample_view_of c a t = \<lparr>v_conn = Some sample_established, v_wrap = Some (sample_wrapper c), v_cb = Some a, v_wakes = 0, v_sends = [],
     v_task = Some (sample_handler a), v_spawn = Some (sample_spawner t), v_ended = 0, v_got = [], v_ran = 0\<rparr>"

lemma sample_views:
  "view sample_client sample_coro = sample_view_of 3 0 0" "view sample_client2 sample_coro = sample_view_of 4 5 2"
  by (simp_all add: view_def sample_coro_def sample_echo_world_def sample_async_server_def sample_view_of_def sample_wrappers_fields Let_def)

lemma sample_established_good: "conn_good sample_established 0 \<and> requested sample_established 0 = []"
  using echoing.reachable_inv [OF sample_echo_reachable]
  by (auto simp: conn_good_def requested_def echo_inv_def sample_echo_def sample_fields)

lemma sample_view_start:
  "cl_wrap k = a \<Longrightarrow> cl_conn k = c \<Longrightarrow> cl_task k = t \<Longrightarrow> cl_task k \<noteq> cl_spawn k \<Longrightarrow> client_start sample_ntop k (sample_view_of c a t)"
  using sample_established_good
  by (simp add: client_start_def sample_view_of_def wrap_good_def waits_for_def sample_wrapper_def sample_handler_def sample_spawner_def
      new_frame_def wrapper_frame_def handler_frame_def spawn_frame_def)

lemma sample_coro_reachable: "echo_reachable sample_ntop sample_clients sample_coro"
proof (rule reachable_start)
  have "client_start sample_ntop sample_client (sample_view_of 3 0 0)" "client_start sample_ntop sample_client2 (sample_view_of 4 5 2)"
    by (rule sample_view_start; simp)+
  then show "family_start view (client_start sample_ntop) apart sample_clients sample_coro"
    by (auto simp: family_start_def sample_views apart_def)
qed

lemma sample_fresh: "stage_ok sample_ntop sample_client Fresh (view sample_client sample_coro)"
  unfolding sample_views using sample_view_start [of sample_client 0 3 0] by (simp add: client_start_def)

definition sample_readv :: "nat list \<Rightarrow> readv_result" where
  "sample_readv lens = Inr (take (sum_list lens) ''hi'')"

lemma sample_chunk: "\<exists>b. readFd sample_readv Buffer_default 0 = Inr (int (length ''hi''), 0, b) \<and> content b = ''hi''"
proof -
  have "readFd sample_readv Buffer_default 0 = Inr (int (length ''hi''), 0, b') \<and> content b' = ''hi''"
    if "readFd (\<lambda>_. Inr ''hi'') Buffer_default 0 = Inr (int (length ''hi''), 0, b') \<and> content b' = ''hi''" for b'
    using that by (simp add: readFd_def sample_readv_def Let_def writableBytes_inv Buffer_default_fields kInitialSize_def kCheapPrepend_def extrabuf_size_def)
  moreover have "\<exists>b'. readFd (\<lambda>_. Inr ''hi'') Buffer_default 0 = Inr (int (length ''hi''), 0, b') \<and> content b' = ''hi''"
    using read_chunk [of Buffer_default "''hi''" "\<lambda>_. Inr ''hi''" 0]
    by (auto simp: empty_input_def Buffer_default_fields kInitialSize_def kCheapPrepend_def)
  ultimately show ?thesis by blast
qed

lemma sample_conditions:
  "readv_documented sample_readv" "writerIndex Buffer_default + length ''hi'' \<le> vec_max" "conn_in_loop 7 sample_established"
  "content (outputBuffer (conn sample_established)) = []"
  by (simp_all add: readv_documented_def sample_readv_def Buffer_default_fields kCheapPrepend_def conn_in_loop_def sample_fields)

lemma sample_waits:
  "\<exists>s x. client_step sample_client sample_coro s \<and> echo_reachable sample_ntop sample_clients s \<and> v_wrap (view sample_client s) = Some x
     \<and> recvCoroutine x = Some 0 \<and> receivedData x = Buffer_default \<and> v_conn (view sample_client s) = Some sample_established"
proof -
  have "client_ok sample_ntop sample_client (view sample_client sample_coro)"
    by (rule echo_reachable_ok [OF sample_coro_reachable]) simp
  from begin_parks [OF this sample_fresh take_all_documented, of sample_established "sample_wrapper 3"] obtain s where
    s: "client_step sample_client sample_coro s" "v_conn (view sample_client s) = Some sample_established"
      "v_wrap (view sample_client s) = Some ((sample_wrapper 3)\<lparr>recvCoroutine := Some 0\<rparr>)"
    by (auto simp: sample_views sample_view_of_def sample_fields)
  moreover have "family_step client_step sample_clients sample_coro s" using s(1) by (auto simp: family_step_def)
  ultimately show ?thesis
    using reachable_step [OF sample_coro_reachable] by (auto simp: sample_wrapper_def)
qed

lemma sample_answered: "\<exists>s. echo_reachable sample_ntop sample_clients s \<and> v_sends (view sample_client s) = [''hi'']"
proof -
  obtain b where b: "readFd sample_readv Buffer_default 0 = Inr (int (length ''hi''), 0, b)" "content b = ''hi''"
    using sample_chunk by blast
  obtain s x where s: "echo_reachable sample_ntop sample_clients s" "v_wrap (view sample_client s) = Some x" "recvCoroutine x = Some 0"
      "receivedData x = Buffer_default" "v_conn (view sample_client s) = Some sample_established"
    using sample_waits by blast
  have ok: "client_ok sample_ntop sample_client (view sample_client s)" by (rule echo_reachable_ok [OF s(1)]) simp
  let ?s1 = "\<lambda>W. after_read sample_client s W ''hi''"
  have c: "writerIndex (receivedData x) + length ''hi'' \<le> vec_max" "writerIndex (outputBuffer (conn sample_established)) + length ''hi'' \<le> vec_max"
      "readFd sample_readv (inputBuffer (conn sample_established)) 0 = Inr (int (length ''hi''), 0, b)" "take_all ''hi'' = Inr 2" "''hi'' \<noteq> []"
    using b(1) s(4) sample_conditions(2) by (simp_all only: sample_fields) (simp_all add: take_all_def)
  obtain W1 where W1: "client_step sample_client s (?s1 W1)" "v_wakes (view sample_client (?s1 W1)) = 1" and
    answers: "resumes (async W1) = q1 @ cl_task sample_client # q2 \<Longrightarrow> \<exists>S2. client_step sample_client (?s1 W1) ((?s1 W1)\<lparr>ce := S2\<rparr>)
      \<and> v_sends (view sample_client ((?s1 W1)\<lparr>ce := S2\<rparr>)) = [''hi'']" for q1 q2
    using waiting_answered [OF ok s(2,3) c(1) s(5) sample_fields(2) sample_conditions(3) sample_fields(5) sample_conditions(4) c(2)
        sample_conditions(1) c(3) b(2) c(5) take_all_documented c(4), of 0] by blast
  have "0 \<in> set (resumes (async W1))"
    using W1(2) count_notin by (fastforce simp: view_fields after_read_def)
  then obtain q1 q2 where "resumes (async W1) = q1 @ cl_task sample_client # q2" by (auto dest: split_list)
  then obtain S2 where S2: "client_step sample_client (?s1 W1) ((?s1 W1)\<lparr>ce := S2\<rparr>)" "v_sends (view sample_client ((?s1 W1)\<lparr>ce := S2\<rparr>)) = [''hi'']"
    using answers by blast
  have "family_step client_step sample_clients s (?s1 W1)" "family_step client_step sample_clients (?s1 W1) ((?s1 W1)\<lparr>ce := S2\<rparr>)"
    using W1(1) S2(1) by (auto simp: family_step_def)
  with s(1) S2(2) show ?thesis by (blast intro: reachable_step)
qed

section \<open>Properties\<close>

text \<open>C10. The coroutine echo server answers a client at most once, for any number of clients under any interleaving of
  their events: at most one \<^verbatim>\<open>send\<close> is ever made for a client; it takes the bytes received until then, and
  the bytes received later stay in the wrapper; and what is written to the client is a prefix of that
  one answer, unless the peer is gone.\<close>

theorem coro_echo_answers_once:
  assumes "echo_reachable ntop K s" and "k \<in> K"
  shows "length (v_sends (view k s)) \<le> 1
    \<and> (\<forall>x. v_wrap (view k s) = Some x \<longrightarrow> v_got (view k s) = concat (v_sends (view k s)) @ content (receivedData x))
    \<and> (\<exists>w. v_conn (view k s) = Some w \<and> prefix (sent (trace w)) (concat (v_sends (view k s)))
        \<and> (no_drop (trace w) \<longrightarrow> prefix (written (trace w)) (concat (v_sends (view k s)))))"
proof -
  let ?V = "view k s"
  have ok: "client_ok ntop k ?V" by (rule echo_reachable_ok [OF assms])
  then obtain st where st: "stage_ok ntop k st ?V" by (auto simp: client_ok_def)
  obtain w where w: "v_conn ?V = Some w" "conn_good w (v_ran ?V)" "requested w (v_ran ?V) \<in> {[], concat (v_sends ?V)}"
    using ok by (auto simp: client_ok_def conn_part_def)
  have p: "prefix (sent (trace w)) (concat (v_sends ?V))"
    using w(3) by (auto simp: requested_def intro: prefixI [OF sym])
  have "conn_inv w" using w(2) by (simp add: conn_good_def)
  then have "prefix (written (trace w)) (sent (trace w))" if "no_drop (trace w)"
    using that unfolding conn_inv_def by (metis prefixI)
  then have "no_drop (trace w) \<longrightarrow> prefix (written (trace w)) (concat (v_sends ?V))"
    using p prefix_order.trans by blast
  moreover have "length (v_sends ?V) \<le> 1" using st by (cases st) auto
  moreover have "v_got ?V = concat (v_sends ?V) @ content (receivedData x)" if "v_wrap ?V = Some x" for x
    using st that by (cases st) (auto simp: wrap_good_def)
  ultimately show ?thesis using w(1) p by blast
qed

theorem coro_echo_answers_once_witness:
  "\<exists>s w. echo_reachable sample_ntop sample_clients s \<and> v_sends (view sample_client s) = [''hi'']
     \<and> v_conn (view sample_client s) = Some w \<and> prefix (sent (trace w)) ''hi''"
proof -
  obtain s where s: "echo_reachable sample_ntop sample_clients s" "v_sends (view sample_client s) = [''hi'']"
    using sample_answered by blast
  from coro_echo_answers_once [OF s(1), of sample_client] s show ?thesis by auto
qed

text \<open>C27. A client that waits in \<^verbatim>\<open>recv\<close> and sends a chunk is answered. Nothing is queued for it until then; the event
  that delivers the chunk returns, sends nothing itself and queues the resumption of the client's coroutine, once; and
  whenever a loop takes that resumption out of its queue and runs it, the coroutine sends exactly the
  chunk, of which the socket takes the first \<open>n\<close> bytes, and suspends.\<close>

theorem coro_echo_answers_first_chunk:
  assumes "echo_reachable ntop K s" and "k \<in> K" and "v_wrap (view k s) = Some x" and "recvCoroutine x = Some h"
    and "writerIndex (receivedData x) + length d \<le> vec_max"
    and "v_conn (view k s) = Some w" and "conn_state (conn w) = Connected" and "conn_in_loop me w"
    and "\<not> isWriting (conn_chan (conn w))" and "content (outputBuffer (conn w)) = []"
    and "writerIndex (outputBuffer (conn w)) + length d \<le> vec_max"
    and "readv_documented readv" and "readFd readv (inputBuffer (conn w)) 0 = Inr (int (length d), e, b)" and "content b = d" and "d \<noteq> []"
    and "write_documented wr" and "wr d = Inr n"
  shows "v_wakes (view k s) = 0 \<and>
    (\<exists>W1. read_ready (cl_conn k) readv me (world (ce s)) = Inr W1 \<and> client_step k s (after_read k s W1 d)
    \<and> v_wakes (view k (after_read k s W1 d)) = 1 \<and> v_sends (view k (after_read k s W1 d)) = []
    \<and> (\<forall>q1 q2. resumes (async W1) = q1 @ cl_task k # q2 \<longrightarrow>
        (\<exists>S2 w2. resume g (cl_task k) (taken (after_read k s W1 d) (q1 @ q2) me wr) = Some (Inr S2)
          \<and> client_step k (after_read k s W1 d) ((after_read k s W1 d)\<lparr>ce := S2\<rparr>)
          \<and> v_sends (view k ((after_read k s W1 d)\<lparr>ce := S2\<rparr>)) = [d] \<and> v_got (view k ((after_read k s W1 d)\<lparr>ce := S2\<rparr>)) = d
          \<and> v_conn (view k ((after_read k s W1 d)\<lparr>ce := S2\<rparr>)) = Some w2 \<and> written (trace w2) = written (trace w) @ take n d)))"
proof -
  have ok: "client_ok ntop k (view k s)" by (rule echo_reachable_ok [OF assms(1,2)])
  from waiting_stage [OF ok assms(3,4)] waiting_answered [OF ok assms(3-17)] show ?thesis by blast
qed

theorem coro_echo_answers_first_chunk_witness:
  "\<exists>s W1. read_ready 3 sample_readv 7 (world (ce s)) = Inr W1 \<and> v_wakes (view sample_client s) = 0
     \<and> v_wakes (view sample_client (after_read sample_client s W1 ''hi'')) = 1"
proof -
  obtain b where b: "readFd sample_readv Buffer_default 0 = Inr (int (length ''hi''), 0, b)" "content b = ''hi''"
    using sample_chunk by blast
  obtain s x where s: "echo_reachable sample_ntop sample_clients s" "v_wrap (view sample_client s) = Some x" "recvCoroutine x = Some 0"
      "receivedData x = Buffer_default" "v_conn (view sample_client s) = Some sample_established"
    using sample_waits by blast
  have c: "writerIndex (receivedData x) + length ''hi'' \<le> vec_max" "writerIndex (outputBuffer (conn sample_established)) + length ''hi'' \<le> vec_max"
      "readFd sample_readv (inputBuffer (conn sample_established)) 0 = Inr (int (length ''hi''), 0, b)" "take_all ''hi'' = Inr 2" "''hi'' \<noteq> []"
    using b(1) s(4) sample_conditions(2) by (simp_all only: sample_fields) (simp_all add: take_all_def)
  have "sample_client \<in> sample_clients" by simp
  from coro_echo_answers_first_chunk [OF s(1) this s(2,3) c(1) s(5) sample_fields(2) sample_conditions(3) sample_fields(5) sample_conditions(4) c(2)
      sample_conditions(1) c(3) b(2) c(5) take_all_documented c(4), of 0]
  have "\<exists>W1. read_ready (cl_conn sample_client) sample_readv 7 (world (ce s)) = Inr W1 \<and> v_wakes (view sample_client s) = 0
     \<and> v_wakes (view sample_client (after_read sample_client s W1 ''hi'')) = 1" by blast
  then show ?thesis unfolding sample_client_fields by blast
qed

text \<open>C11. After its first answer a client is never served again: whatever happens on any connection from then on, its
  coroutine stays suspended at the same place with nothing queued that would resume it, so nothing more
  is sent to the client, whatever it sends, and the coroutine's frame and wrapper are never released.\<close>

theorem coro_echo_stalls:
  assumes "echo_reachable ntop K s" and "k \<in> K" and "v_sends (view k s) \<noteq> []" and "(family_step client_step K)\<^sup>*\<^sup>* s s'"
  shows "v_sends (view k s') = v_sends (view k s) \<and> v_task (view k s') = v_task (view k s) \<and> v_task (view k s') \<noteq> None
    \<and> v_wakes (view k s') = 0 \<and> v_wrap (view k s') \<noteq> None"
proof -
  have inv: "family_start view (client_ok ntop) apart K s" by (rule clients.family.reachable_inv [OF assms(1)])
  note f = answered_forever [OF assms(4) inv assms(2,3)]
  then have "client_ok ntop k (view k s')" "v_sends (view k s') \<noteq> []" using assms(2,3) by (simp_all add: family_start_def)
  then have "stage_ok ntop k Answered (view k s')" by (rule answered_stage)
  with f show ?thesis by (auto simp: frames_at_def wrap_good_def)
qed

theorem coro_echo_stalls_witness:
  "\<exists>s. echo_reachable sample_ntop sample_clients s \<and> v_sends (view sample_client s) = [''hi''] \<and> v_wakes (view sample_client s) = 0
     \<and> v_task (view sample_client s) \<noteq> None"
proof -
  obtain s where s: "echo_reachable sample_ntop sample_clients s" "v_sends (view sample_client s) = [''hi'']"
    using sample_answered by blast
  from coro_echo_stalls [OF s(1) _ _ rtranclp.rtrancl_refl] s show ?thesis by auto
qed

text \<open>Clients do not interfere: a step of one client changes nothing that belongs to another, neither its
  connection, nor its wrapper and coroutine, nor what is queued for it.\<close>

theorem coro_clients_independent:
  assumes "echo_reachable ntop K s" and "k \<in> K" and "client_step k s s'" and "j \<in> K" and "j \<noteq> k"
  shows "view j s' = view j s"
proof -
  have inv: "family_start view (client_ok ntop) apart K s" by (rule clients.family.reachable_inv [OF assms(1)])
  then have "client_ok ntop k (view k s)" "apart k j" using assms(2,4,5) by (auto simp: family_start_def)
  then show ?thesis using client_step_ok [OF assms(3)] by blast
qed

theorem coro_clients_independent_witness:
  "\<exists>s. client_step sample_client sample_coro s \<and> view sample_client2 s = view sample_client2 sample_coro"
proof -
  obtain s where s: "client_step sample_client sample_coro s" using sample_waits by blast
  have "sample_client2 \<noteq> sample_client" by (simp add: sample_client_def sample_client2_def)
  with coro_clients_independent [OF sample_coro_reachable _ s, of sample_client2] s show ?thesis by blast
qed

end
