(* ===== verification/CoroServer.thy ===== *)
theory CoroServer
  imports CoroClients
begin

text \<open>
  The accept loop and the \<^verbatim>\<open>main\<close> of \<^verbatim>\<open>examples/coro_echo_server.cc\<close>: what the program does up to the event loop, and how a
  connection that was accepted becomes one of the clients of the previous theory.
\<close>

section \<open>The main program\<close>

text \<open>The port from the command line: \<open>arg\<close> is what \<^verbatim>\<open>std::stoi\<close> reads, if there is an argument.\<close>

definition port_of_args :: "int option \<Rightarrow> 16 word" where
  "port_of_args arg = (case arg of None \<Rightarrow> 8080 | Some i \<Rightarrow> word_of_int i)"

text \<open>The handler of the interrupt signal.\<close>

definition sigint :: "nat \<Rightarrow> bool \<Rightarrow> ('k, 'f) event_loop \<times> echo_world \<Rightarrow> ('k, 'f) event_loop \<times> echo_world" where
  "sigint me g_loop_set s =
     (let W = (snd s)\<lparr>ew_running := False\<rparr> in (if g_loop_set then quit me (fst s) else fst s, W))"

definition no_async :: async_world where
  "no_async = \<lparr>acs = (\<lambda>_. None), msg_cb = (\<lambda>_. None), wc_cb = (\<lambda>_. None), resumes = [], sends = []\<rparr>"

text \<open>What \<^verbatim>\<open>main\<close> does before it spawns the accept loop, its printing aside.\<close>

definition coro_setup :: "kernel \<Rightarrow> (nat \<Rightarrow> nat) \<Rightarrow> nat \<Rightarrow> nat \<Rightarrow> int option \<Rightarrow> syscall list \<times> (async_server_obj outcome) res" where
  "coro_setup k mk lp tid arg =
     (case AsyncServer_ctor k (Some lp) tid (InetAddress_port (port_of_args arg) False) ''CoroEchoServer'' no_async 0 of
        (cs, Inl e) \<Rightarrow> (cs, Inl e)
      | (cs, Inr S) \<Rightarrow> (cs, Inr (then_do (AsyncServer_setIoLoopNum 2 S) (AsyncServer_start mk k tid))))"

text \<open>The accept loop is spawned on the loop of \<^verbatim>\<open>main\<close>.\<close>

definition start_accepting :: "int \<Rightarrow> nat \<Rightarrow> ('k, loop_functor) event_loop \<times> echo_world \<Rightarrow>
    (('k, loop_functor) event_loop \<times> echo_world cstate) res" where
  "start_accepting g me s =
     (let (t, S) = create (new_frame g TVoid runServer) (empty_heap (snd s)) in spawn g me t (fst s, S))"

text \<open>When every call succeeds the server listens with two worker loops and has accepted nothing.\<close>

lemma coro_setup_serves:
  assumes "coro_setup k mk lp tid arg = (cs, Inr (S, Inr ()))"
  shows "srv_started (as_tcp S) \<and> Pool_size (threadPool (as_tcp S)) = 2 \<and> AsyncServer_name S = ''CoroEchoServer''
    \<and> AsyncServer_getLoop S = lp \<and> connections (as_tcp S) = []
    \<and> (\<exists>a. srv_acceptor (as_tcp S) = Some a \<and> listening a) \<and> (\<exists>M. as_members S = Some M \<and> accept_good M \<and> accept_items M = [])"
proof -
  obtain S0 where S0: "AsyncServer_ctor k (Some lp) tid (InetAddress_port (port_of_args arg) False) ''CoroEchoServer'' no_async 0 = (cs, Inr S0)"
      "then_do (AsyncServer_setIoLoopNum 2 S0) (AsyncServer_start mk k tid) = (S, Inr ())"
    using assms by (auto simp: coro_setup_def split: prod.splits sum.splits)
  let ?p = "\<lparr>baseLoop = lp, base_tid = tid, numThreads = 2, pool_loops = [], next_counter = 0, pool_started = False\<rparr>"
  have f: "srv_loop (as_tcp S0) = lp" "srv_tid (as_tcp S0) = tid" "\<not> srv_started (as_tcp S0)" "srv_name (as_tcp S0) = ''CoroEchoServer''"
      "connections (as_tcp S0) = []"
      "as_members S0 = Some \<lparr>as_world = no_async, next_addr = 0, pendingConnections = [], acceptCoroutine = None, as_resumes = []\<rparr>"
    using S0(1) by (auto simp: AsyncServer_ctor_def TcpServer_ctor_def bind_sys_def res_simps split: prod.splits sum.splits)
  then have "AsyncServer_start mk k tid (S0\<lparr>as_tcp := (as_tcp S0)\<lparr>threadPool := ?p\<rparr>\<rparr>) = (S, Inr ())"
    using S0(2) by (simp add: AsyncServer_setIoLoopNum_def on_tcp_def setIoLoopNum_def EventLoopThreadPool_ctor_def then_do_def)
  with f show ?thesis
    by (auto simp: AsyncServer_start_def on_tcp_def TcpServer_start_def Pool_start_def pool_assertInLoopThread_def listen_in_loop_def
        Acceptor_listen_def start_threads_loops Pool_size_def add_calls_def Let_def accept_good_def accept_items_def
        AsyncServer_name_def AsyncServer_getLoop_def TcpServer_name_def TcpServer_getLoop_def
        split: option.splits prod.splits sum.splits if_splits)
qed

section \<open>The accept loop\<close>

text \<open>With nothing to accept, the loop waits; when the program is stopping, it ends.\<close>

lemma accept_loop_waits:
  assumes "ew_running W" and "pendingConnections (ew_srv W) = []"
  shows "\<exists>q. resume g h (paused h f (prog_of server_loop (server_loop u)) S W)
    = Some (Inr (paused h f q S (W\<lparr>ew_srv := (ew_srv W)\<lparr>acceptCoroutine := Some h\<rparr>\<rparr>)))"
  using assms
  by (auto simp: server_loop_def accept_def prog_of_co_await co_await_def accept_await_ready_def accept_await_suspend_def Let_def)

text \<open>Started on the thread of its loop with nothing to accept yet, the accept loop waits.\<close>

lemma start_accepting_waits:
  assumes "threadId l = me" and "ew_running W" and "pendingConnections (ew_srv W) = []"
  shows "\<exists>S'. start_accepting g me (l, W) = Inr (l\<lparr>spawnedTasks := insert 1 (spawnedTasks l)\<rparr>, S')
    \<and> world S' = (print ''[Server] Accepting connections...'' W)\<lparr>ew_srv := (ew_srv W)\<lparr>acceptCoroutine := Some 0\<rparr>\<rparr>
    \<and> frames S' 0 \<noteq> None \<and> frames S' 1 \<noteq> None"
proof -
  let ?S = "snd (create (new_frame g TVoid runServer) (empty_heap W))"
  let ?W = "print ''[Server] Accepting connections...'' W"
  have S: "frames ?S 0 = Some (new_frame g TVoid runServer)" "next_frame ?S = 1" "cleanups ?S = []" "world ?S = W" "heap_fresh ?S"
    by (simp_all add: create_def empty_heap_def heap_fresh_def)
  from spawn_starts [OF assms(1) S(5,1), of runServer g] S obtain S1 where
    S1: "spawn g me 0 (l, ?S) = resume_on g me 0 (l\<lparr>spawnedTasks := insert 1 (spawnedTasks l)\<rparr>, S1)" "spawned_at 1 0 runServer S1"
      "cleanups S1 = []" "world S1 = W"
    by (auto simp: new_frame_def)
  obtain f where f: "frames S1 0 = Some f" "status f = Run runServer" using S1(2) by (auto simp: spawned_at_def at_point_def)
  have "S1 = paused 0 f runServer S1 W" using paused_intro [OF f, of W] S1(4) by (metis cstate.surjective cstate.update_convs(4))
  then have "resume g 0 S1 = resume g 0 (paused 0 f runServer S1 W)" by (rule arg_cong)
  also have "\<dots> = resume g 0 (paused 0 f (prog_of server_loop (server_loop ())) S1 ?W)" by (simp add: runServer_def)
  finally obtain q where "resume g 0 S1 = Some (Inr (paused 0 f q S1 (?W\<lparr>ew_srv := (ew_srv ?W)\<lparr>acceptCoroutine := Some 0\<rparr>\<rparr>)))"
    using accept_loop_waits [of ?W g 0 f "()" S1] assms(2,3) by (auto simp: print_def)
  moreover have "frames S1 1 \<noteq> None" using S1(2) by (auto simp: spawned_at_def)
  ultimately show ?thesis
    using S1(1,3) by (simp add: start_accepting_def create_def empty_heap_def resume_on_def paused_def put_frame_def print_def)
qed

lemma AsyncConnection_move_effect:
  assumes "acs A src = Some x" and "ac_conn x = Some c" and "dst \<noteq> src"
  shows "AsyncConnection_move dst src A = Inr (A\<lparr>acs := (acs A)(dst \<mapsto> x, src \<mapsto> moved_from x),
    msg_cb := (msg_cb A)(c \<mapsto> dst), wc_cb := (wc_cb A)(c \<mapsto> dst)\<rparr>)"
  using assms by (simp add: AsyncConnection_move_def with_ac_def bindCallbacks_def put_ac_def Buffer_move_def)

text \<open>
  Accepting the next connection: its wrapper ends up in the frame of the new handler, at a new
  address, with the callbacks bound to it.
\<close>

lemma accept_takes_next:
  assumes p: "pendingConnections (ew_srv W) = a # rest" "a < next_addr (ew_srv W)" and x: "acs (async W) a = Some x" "ac_conn x = Some c"
  shows "\<exists>A m. accept_finish W = Inr (Inr m, W\<lparr>ew_srv := (ew_srv W)\<lparr>as_world := A, next_addr := Suc m, pendingConnections := rest\<rparr>\<rparr>)
    \<and> m = next_addr (ew_srv W) \<and> acs A m = Some x \<and> resumes A = resumes (async W) \<and> sends A = sends (async W)"
proof -
  let ?m = "next_addr (ew_srv W)"
  have "AsyncConnection_move ?m a (async W) = Inr ((async W)\<lparr>acs := (acs (async W))(?m \<mapsto> x, a \<mapsto> moved_from x),
      msg_cb := (msg_cb (async W))(c \<mapsto> ?m), wc_cb := (wc_cb (async W))(c \<mapsto> ?m)\<rparr>)"
    using p by (intro AsyncConnection_move_effect x) simp
  moreover define A where "A = (async W)\<lparr>acs := (acs (async W))(?m \<mapsto> x, a := None),
      msg_cb := (msg_cb (async W))(c \<mapsto> ?m), wc_cb := (wc_cb (async W))(c \<mapsto> ?m)\<rparr>"
  ultimately show ?thesis
    using p by (intro exI [of _ A] exI [of _ ?m])
      (simp add: accept_finish_def accept_await_resume_def Let_def AsyncConnection_dtor_def with_ac_def put_ac_def)
qed

lemma pass_connection_effect:
  assumes x: "acs (async W) m = Some x" "ac_conn x = Some c" and m: "m < next_addr (ew_srv W)"
  shows "\<exists>W' par own. pass_connection m W = Inr (par, own, W') \<and> par \<noteq> own \<and> acs (async W') own = Some x \<and> msg_cb (async W') c = Some own
    \<and> resumes (async W') = resumes (async W) \<and> sends (async W') = sends (async W) \<and> ew_conns W' = ew_conns W \<and> ew_spawns W' = ew_spawns W
    \<and> pendingConnections (ew_srv W') = pendingConnections (ew_srv W)"
proof -
  let ?par = "next_addr (ew_srv W)"
  let ?A = "(async W)\<lparr>acs := (acs (async W))(?par \<mapsto> x, m \<mapsto> moved_from x), msg_cb := (msg_cb (async W))(c \<mapsto> ?par), wc_cb := (wc_cb (async W))(c \<mapsto> ?par)\<rparr>"
  have m1: "AsyncConnection_move ?par m (async W) = Inr ?A" using m by (intro AsyncConnection_move_effect x) simp
  have "acs ?A ?par = Some x" using m by simp
  note m2 = AsyncConnection_move_effect [OF this x(2), of "Suc ?par"]
  show ?thesis by (simp add: pass_connection_def Let_def m1 m2)
qed

section \<open>From an accepted connection to a client\<close>

text \<open>The frames a call of \<^verbatim>\<open>spawn\<close> makes for a handler, before it runs: \<open>lp\<close> is the loop.\<close>

definition client_frames :: "(32 word \<Rightarrow> string) \<Rightarrow> int \<Rightarrow> nat \<Rightarrow> nat \<Rightarrow> echo_world cstate \<Rightarrow> echo_world cstate" where
  "client_frames ntop g lp own S =
     (let (t, S1) = create (new_frame g TVoid (handleClient ntop own)) S in
      snd (create ((wrapper_frame g t)\<lparr>spawn_loop := Some lp\<rparr>) S1))"

lemma spawn_handler_starts:
  assumes "ew_spawns (world S) = (own, h) # rest" and "threadId l = me"
  shows "spawn_handler ntop g me (l, S) =
    bind_res (resume_on g me (Suc (next_frame S)) (l\<lparr>spawnedTasks := insert (Suc (next_frame S)) (spawnedTasks l)\<rparr>,
        client_frames ntop g (loop_id l) own (S\<lparr>world := (world S)\<lparr>ew_spawns := rest\<rparr>\<rparr>)))
      (resume_on g me h)"
  using assms
  by (cases S)
     (simp add: spawn_handler_def client_frames_def spawn_def create_def runInLoop_def isInLoopThread_def spawn_functor_def put_frame_def)

definition new_client :: "nat \<Rightarrow> nat \<Rightarrow> echo_world cstate \<Rightarrow> client" where
  "new_client c own S = \<lparr>cl_conn = c, cl_wrap = own, cl_task = next_frame S, cl_spawn = Suc (next_frame S)\<rparr>"

lemma new_client_starts:
  assumes x: "acs (async (world S)) own = Some x" "ac_conn x = Some c" "ac_loop x \<noteq> None" "buf_inv (receivedData x)" "recvCoroutine x = None"
    and cb: "msg_cb (async (world S)) c = Some own" and w: "ew_conns (world S) c = Some w" "conn_good w n" "requested w n = []"
    and fresh: "next_frame S \<notin> set (resumes (async (world S)))" "Suc (next_frame S) \<notin> set (cleanups S)" "c \<notin> fst ` set (sends (async (world S)))"
    and g: "gs c = content (receivedData x)" "ns c = n"
  shows "client_start ntop (new_client c own S) (view (new_client c own S) \<lparr>ce = client_frames ntop g' lp own S, ce_got = gs, ce_ran = ns\<rparr>)"
proof -
  have "filter (\<lambda>p. fst p = c) (sends (async (world S))) = []" using fresh(3) by (auto simp: filter_empty_conv)
  then show ?thesis
    using x cb w fresh(1,2) g
    by (simp add: client_start_def view_def Let_def new_client_def client_frames_def create_def wrap_good_def waits_for_def count_notin
        new_frame_def wrapper_frame_def handler_frame_def spawn_frame_def)
qed

section \<open>Properties\<close>

text \<open>C28. Every accepted connection becomes a client: when the accept loop runs and a connection is waiting, the loop
  takes it from the queue and calls \<^verbatim>\<open>spawn\<close>; the call makes the frames of a handler whose wrapper holds
  that connection, has its callbacks and the bytes that arrived in the meantime, which is how a client
  of the server starts, runs the handler until it suspends and goes on with the accept loop.\<close>

theorem accepted_connection_becomes_client:
  assumes "ew_running W" and "pendingConnections (ew_srv W) = a # rest" and "a < next_addr (ew_srv W)"
    and "acs (async W) a = Some x" and "ac_conn x = Some c" and "ac_loop x \<noteq> None" and "buf_inv (receivedData x)" and "recvCoroutine x = None"
    and "ew_conns W c = Some w" and "conn_good w n" and "requested w n = []" and "c \<notin> fst ` set (sends (async W))"
    and "next_frame S \<notin> set (resumes (async W))" and "Suc (next_frame S) \<notin> set (cleanups S)"
    and "ew_spawns W = []" and "threadId l = me"
  shows "\<exists>own S' S2. resume g h (paused h f (prog_of server_loop (server_loop u)) S W) = Some (Inr S')
    \<and> pendingConnections (ew_srv (world S')) = rest
    \<and> spawn_handler ntop g me (l, S') =
        bind_res (resume_on g me (cl_spawn (new_client c own S)) (l\<lparr>spawnedTasks := insert (cl_spawn (new_client c own S)) (spawnedTasks l)\<rparr>, S2))
          (resume_on g me h)
    \<and> client_start ntop (new_client c own S)
        (view (new_client c own S) \<lparr>ce = S2, ce_got = (\<lambda>_. content (receivedData x)), ce_ran = (\<lambda>_. n)\<rparr>)"
proof -
  obtain A m where A: "accept_finish W = Inr (Inr m, W\<lparr>ew_srv := (ew_srv W)\<lparr>as_world := A, next_addr := Suc m, pendingConnections := rest\<rparr>\<rparr>)"
      "acs A m = Some x" "resumes A = resumes (async W)" "sends A = sends (async W)"
    using accept_takes_next [OF assms(2-5)] by blast
  let ?W1 = "W\<lparr>ew_srv := (ew_srv W)\<lparr>as_world := A, next_addr := Suc m, pendingConnections := rest\<rparr>\<rparr>"
  obtain W2 par own where W2: "pass_connection m ?W1 = Inr (par, own, W2)" "acs (async W2) own = Some x" "msg_cb (async W2) c = Some own"
      "resumes (async W2) = resumes A" "sends (async W2) = sends A" "ew_conns W2 = ew_conns W" "ew_spawns W2 = []"
      "pendingConnections (ew_srv W2) = rest"
    using pass_connection_effect [of ?W1 m x c] A(2) assms(5,15) by auto
  let ?q = "prog_of server_loop (BDo (\<lambda>W3. bind_res (drop_empty par m W3) (\<lambda>W4. Inr (W4, BNext ()))))"
  define S' where "S' = paused h f ?q S (W2\<lparr>ew_spawns := [(own, h)]\<rparr>)"
  define T where "T = S'\<lparr>world := (world S')\<lparr>ew_spawns := []\<rparr>\<rparr>"
  have res: "resume g h (paused h f (prog_of server_loop (server_loop u)) S W) = Some (Inr S')"
    using assms(1,2) A(1) W2(1,7)
    by (simp add: S'_def server_loop_def accept_def prog_of_co_await co_await_def accept_await_ready_def Let_def serve_client_def)
  have f: "next_frame S' = next_frame S" "next_frame T = next_frame S" "cleanups T = cleanups S" "ew_spawns (world S') = (own, h) # []"
      "pendingConnections (ew_srv (world S')) = rest" "async (world T) = async W2" "ew_conns (world T) = ew_conns W"
    using W2(6,8) by (simp_all add: S'_def T_def paused_def put_frame_def)
  then have k: "new_client c own T = new_client c own S" by (simp add: new_client_def)
  have "client_start ntop (new_client c own T) (view (new_client c own T) \<lparr>ce = client_frames ntop g (loop_id l) own T,
      ce_got = (\<lambda>_. content (receivedData x)), ce_ran = (\<lambda>_. n)\<rparr>)"
    using W2(2-5) A(3,4) assms(5-14) f by (intro new_client_starts [where w = w and x = x and n = n]) simp_all
  moreover have "spawn_handler ntop g me (l, S') =
      bind_res (resume_on g me (cl_spawn (new_client c own S)) (l\<lparr>spawnedTasks := insert (cl_spawn (new_client c own S)) (spawnedTasks l)\<rparr>,
        client_frames ntop g (loop_id l) own T)) (resume_on g me h)"
    using spawn_handler_starts [OF f(4) assms(16), of ntop g] f(1) by (simp add: T_def new_client_def)
  ultimately show ?thesis
    using res f(5) k by (intro exI [of _ own] exI [of _ S'] exI [of _ "client_frames ntop g (loop_id l) own T"]) simp
qed

text \<open>The queue of a server with one established connection.\<close>

definition sample_accepting :: echo_world where
  "sample_accepting = sample_echo_world\<lparr>ew_srv := sample_async_server\<lparr>as_world := sample_async, next_addr := 1, pendingConnections := [0]\<rparr>\<rparr>"

theorem accepted_connection_becomes_client_witness:
  "\<exists>own S' S2. resume 0 0 (paused 0 (new_frame 0 TVoid runServer) (prog_of server_loop (server_loop ())) ((empty_heap sample_accepting)\<lparr>next_frame := 2\<rparr>)
       sample_accepting) = Some (Inr S')
     \<and> client_start sample_ntop (new_client 3 own ((empty_heap sample_accepting)\<lparr>next_frame := 2\<rparr>))
         (view (new_client 3 own ((empty_heap sample_accepting)\<lparr>next_frame := 2\<rparr>)) \<lparr>ce = S2, ce_got = (\<lambda>_. []), ce_ran = (\<lambda>_. 0)\<rparr>)"
proof -
  have s: "ew_running sample_accepting" "pendingConnections (ew_srv sample_accepting) = [0]" "0 < next_addr (ew_srv sample_accepting)"
      "acs (async sample_accepting) 0 = Some (sample_wrapper 3)" "ew_conns sample_accepting 3 = Some sample_established"
      "sends (async sample_accepting) = []" "resumes (async sample_accepting) = []" "ew_spawns sample_accepting = []"
    by (simp_all add: sample_accepting_def sample_echo_world_def sample_async_fields sample_wrapper_def)
       (simp add: sample_async_def AsyncConnection_ctor_def bindCallbacks_def put_ac_def)
  have "threadId sample_spawn_loop = 0" by (simp add: sample_spawn_loop_def)
  from accepted_connection_becomes_client [where W = sample_accepting and a = 0 and rest = "[]" and x = "sample_wrapper 3" and c = 3
      and w = sample_established and n = 0 and S = "(empty_heap sample_accepting)\<lparr>next_frame := 2\<rparr>" and l = sample_spawn_loop and me = 0
      and g = 0 and h = 0 and f = "new_frame 0 TVoid runServer" and ntop = sample_ntop and u = "()",
      OF s(1-4) _ _ _ _ s(5) _ _ _ _ _ s(8) this]
  show ?thesis
    using sample_established_good s(6,7) by (auto simp: sample_wrapper_def empty_heap_def)
qed

end
