(* ===== verification/SpawnLoop.thy ===== *)
theory SpawnLoop
  imports Spawn
begin

unbundle bit_operations_syntax

text \<open>
  Spawned coroutines under \<^verbatim>\<open>EventLoop::loop\<close>: tasks that other threads pass to \<^verbatim>\<open>spawn\<close> are started by the functors of one
  round of the loop and destroyed by those of the next. The loop has no channel but its own wakeup
  channel; what the kernel reports is any sequence of polls that time out, fail or report that channel.
\<close>

section \<open>Composition\<close>

text \<open>The dispatch of \<^verbatim>\<open>loop()\<close> to the wakeup channel, with the callback the constructor installed.\<close>

definition wakeup_event :: "('k, 'f, 'w) handler" where
  "wakeup_event a x =
     (case loop_chans (fst x) a of
        None \<Rightarrow> Inl UseAfterFree
      | Some ch \<Rightarrow> handleEvent (\<lambda>_. True) ch wakeup_callbacks x)"

definition wakeup_answer :: "nat \<Rightarrow> (nat \<Rightarrow> int + kevent list) \<Rightarrow> bool" where
  "wakeup_answer c answer \<longleftrightarrow> (\<forall>n evs. answer n = Inr evs \<longrightarrow> (\<forall>e \<in> set evs. kev_udata e = c))"

text \<open>The functors of \<^verbatim>\<open>spawn\<close> capture a pointer and a handle: destroying them does nothing.\<close>

definition spawn_rounds :: "int \<Rightarrow> nat \<Rightarrow> (nat \<Rightarrow> int + kevent list) list \<Rightarrow> ('k, loop_functor) event_loop \<times> 'w cstate \<Rightarrow>
    (bool \<times> ('k, loop_functor) event_loop \<times> 'w cstate) res" where
  "spawn_rounds g tid = loop_while (exec_spawn g tid) (\<lambda>_. Inr) wakeup_event"

text \<open>One thread spawns several tasks.\<close>

fun spawn_each :: "int \<Rightarrow> nat \<Rightarrow> nat list \<Rightarrow> ('k, loop_functor) event_loop \<times> 'w cstate \<Rightarrow>
    (('k, loop_functor) event_loop \<times> 'w cstate) res" where
  "spawn_each g me [] s = Inr s"
| "spawn_each g me (t # ts) s = bind_res (spawn g me t s) (spawn_each g me ts)"

text \<open>The bodies run one after the other until one throws.\<close>

inductive runs_all :: "'w \<Rightarrow> 'w prog list \<Rightarrow> fault option \<Rightarrow> 'w \<Rightarrow> bool" where
  runs_all_Nil: "runs_all w [] None w"
| runs_all_Cons: "runs None w p (Inr v) w1 \<Longrightarrow> runs_all w1 ps e w' \<Longrightarrow> runs_all w (p # ps) e w'"
| runs_all_throw: "runs None w p (Inl e) w' \<Longrightarrow> runs_all w (p # ps) (Some e) w'"

inductive_cases runs_all_NilE: "runs_all w [] e w'"
inductive_cases runs_all_ConsE: "runs_all w (p # ps) e w'"

section \<open>A round around the functors\<close>

text \<open>What polling and the functors leave alone.\<close>

definition same_loop :: "('k, 'f) event_loop \<Rightarrow> ('k, 'f) event_loop \<Rightarrow> bool" where
  "same_loop l l' \<longleftrightarrow> threadId l' = threadId l \<and> quit_flag l' = quit_flag l \<and> wakeup_chan l' = wakeup_chan l
     \<and> dom (loop_chans l') = dom (loop_chans l)"

lemma same_loop_refl [simp]: "same_loop l l"
  by (simp add: same_loop_def)

lemma same_loop_trans: "same_loop l1 l2 \<Longrightarrow> same_loop l2 l3 \<Longrightarrow> same_loop l1 l3"
  by (simp add: same_loop_def)

lemma same_loop_simps [simp]:
  "same_loop l (l'\<lparr>wakeup_words := n\<rparr>) = same_loop l l'" "same_loop l (l'\<lparr>spawnedTasks := H\<rparr>) = same_loop l l'"
  "same_loop l (l'\<lparr>eventHandling := b\<rparr>) = same_loop l l'" "same_loop l (queueInLoop me f l') = same_loop l l'"
  "same_loop l (pending_begin l') = same_loop l l'" "same_loop l (pending_end l') = same_loop l l'"
  "same_loop l (snd (pending_swap l')) = same_loop l l'"
  by (simp_all add: same_loop_def loop_op_defs Let_def)

lemma queueInLoop_fields [simp]:
  "spawnedTasks (queueInLoop me f l) = spawnedTasks l" "pendingFunctors (queueInLoop me f l) = pendingFunctors l @ [f]"
  by (simp_all add: loop_op_defs Let_def)

lemma wakeup_guard:
  "handleEventWithGuard ch wakeup_callbacks (l, w) = Inr (if revents ch AND kReadEvent \<noteq> 0 then handleWakeup l else l, w)"
  by (simp add: handleEventWithGuard_def call_if_def wakeup_callbacks_def)

lemma wakeup_event_ok:
  assumes "loop_chans l a \<noteq> None"
  shows "\<exists>n. wakeup_event a (l, w) = Inr (l\<lparr>wakeup_words := n\<rparr>, w)"
proof -
  obtain ch where "loop_chans l a = Some ch" using assms by blast
  then have "wakeup_event a (l, w) \<in> {Inr (l, w), Inr (handleWakeup l, w)}"
    by (simp add: wakeup_event_def handleEvent_def wakeup_guard split: if_split)
  moreover have "(l, w) = (l\<lparr>wakeup_words := wakeup_words l\<rparr>, w)" by simp
  ultimately show ?thesis unfolding handleWakeup_def by (metis empty_iff insert_iff)
qed

lemma wakeup_events_ok:
  "(\<And>a. a \<in> set as \<Longrightarrow> loop_chans l a \<noteq> None) \<Longrightarrow> \<exists>n. handle_all wakeup_event as (l, w) = Inr (l\<lparr>wakeup_words := n\<rparr>, w)"
proof (induction as arbitrary: l)
  case Nil
  then show ?case by (auto intro: exI [of _ "wakeup_words l"])
next
  case (Cons a as)
  then obtain n where "wakeup_event a (l, w) = Inr (l\<lparr>wakeup_words := n\<rparr>, w)" using wakeup_event_ok [of l a w] by auto
  with Cons.IH [of "l\<lparr>wakeup_words := n\<rparr>"] Cons.prems show ?case by auto
qed

lemma fillActiveChannels_dom: "fillActiveChannels es h a = Inr (h', a') \<Longrightarrow> dom h' = dom h"
proof (induction es arbitrary: h a)
  case (Cons e es)
  then obtain ch where "h (kev_udata e) = Some ch"
      "fillActiveChannels es (h(kev_udata e \<mapsto> setRevents ch (event_revents e))) (a @ [kev_udata e]) = Inr (h', a')"
    by (auto split: option.splits)
  with Cons.IH [OF this(2)] show ?case by (auto simp: dom_def split: if_splits)
qed simp

lemma poll_wakeup:
  assumes "h c \<noteq> None" and "wakeup_answer c answer"
  shows "\<exists>p' h' as. poll answer p h [] = Inr (p', h', as) \<and> dom h' = dom h \<and> set as \<subseteq> {c}"
proof (cases "answer (ev_capacity p)")
  case (Inr evs)
  then have "\<forall>e \<in> set evs. kev_udata e = c" using assms(2) by (auto simp: wakeup_answer_def)
  moreover from this obtain h' a' where "fillActiveChannels evs h [] = Inr (h', a')"
    using fillActiveChannels_total [of evs h "[]"] assms(1) by auto
  ultimately show ?thesis
    using Inr fillActiveChannels_dom [of evs h "[]" h' a'] fillActiveChannels_active [of evs h "[]" h' a'] by (auto simp: poll_def)
qed (simp add: poll_def)

lemma poll_round:
  assumes "loop_chans l (wakeup_chan l) \<noteq> None" and "wakeup_answer (wakeup_chan l) answer"
  shows "\<exists>l'. same_loop l l' \<and> pendingFunctors l' = pendingFunctors l \<and> spawnedTasks l' = spawnedTasks l
    \<and> loop_iteration exec drp wakeup_event answer (l, w) = doPendingFunctors exec drp (l', w)"
proof -
  obtain p h as where p: "poll answer (loop_poller l) (loop_chans l) [] = Inr (p, h, as)" "dom h = dom (loop_chans l)" "set as \<subseteq> {wakeup_chan l}"
    using poll_wakeup [of "loop_chans l" "wakeup_chan l" answer "loop_poller l"] assms by blast
  let ?l = "l\<lparr>loop_poller := p, loop_chans := h, activeChannels := as, eventHandling := True\<rparr>"
  have "loop_chans ?l a \<noteq> None" if "a \<in> set as" for a
  proof -
    have "a = wakeup_chan l" using that p(3) by blast
    then have "a \<in> dom h" using assms(1) p(2) by (simp add: domIff)
    then show ?thesis by (simp add: domIff)
  qed
  then have "\<exists>n. handle_all wakeup_event as (?l, w) = Inr (?l\<lparr>wakeup_words := n\<rparr>, w)" by (rule wakeup_events_ok)
  then obtain n where "handle_all wakeup_event as (?l, w) = Inr (?l\<lparr>wakeup_words := n\<rparr>, w)" ..
  then have "loop_iteration exec drp wakeup_event answer (l, w) = doPendingFunctors exec drp (?l\<lparr>wakeup_words := n, eventHandling := False\<rparr>, w)"
    by (simp add: loop_iteration_def p(1))
  moreover have "same_loop l (?l\<lparr>wakeup_words := n, eventHandling := False\<rparr>)"
    by (simp only: same_loop_simps) (simp add: same_loop_def p(2))
  ultimately show ?thesis
    by (intro exI [of _ "?l\<lparr>wakeup_words := n, eventHandling := False\<rparr>"] conjI) simp_all
qed

lemma functors_round:
  assumes "exec_all exec (pendingFunctors l) (l\<lparr>callingPendingFunctors := True, pendingFunctors := []\<rparr>, w) = r"
  shows "doPendingFunctors exec (\<lambda>_. Inr) (l, w) = bind_res r (\<lambda>(l', w'). Inr (l'\<lparr>callingPendingFunctors := False\<rparr>, w'))"
  using assms by (simp add: doPendingFunctors_def pending_swap_def pending_begin_def pending_end_def)

section \<open>The functors of a round\<close>

lemma start_one:
  assumes ready: "spawn_ready h t p S" and fresh: "heap_fresh S" and cl: "cleanups S = []" and run: "runs None (world S) p r w'"
  shows "case r of
      Inl e \<Rightarrow> exec_spawn g me (StartSpawned h) (l, S) = Inl Aborted
    | Inr v \<Rightarrow> \<exists>S'. exec_spawn g me (StartSpawned h) (l, S)
          = Inr (queueInLoop me (CleanupSpawned h) (l\<lparr>spawnedTasks := insert h (spawnedTasks l)\<rparr>), S')
        \<and> cleanups S' = [] \<and> world S' = w' \<and> spawned_done h t S' \<and> heap_fresh S' \<and> next_frame S \<le> next_frame S'
        \<and> frames S' = (frames S)(h := frames S' h, t := frames S' t)"
proof -
  obtain S1 where S1: "resume g h S = resume g t S1" "spawned_at h t p S1" "cleanups S1 = []" "world S1 = world S"
      "next_frame S1 = next_frame S" "frames S1 = (frames S)(h := frames S1 h, t := frames S1 t)"
    using wrapper_begins [OF ready fresh, of g] cl by auto
  note last = spawned_end [OF S1(2), unfolded S1(4), OF run, of g]
  show ?thesis
  proof (cases r)
    case (Inl e)
    with last S1(1) show ?thesis by (simp add: spawn_functor_def resume_on_def)
  next
    case (Inr v)
    with last S1(3,5) obtain S2 where S2: "resume g t S1 = Some (Inr S2)" "cleanups S2 = [h]" "world S2 = w'" "spawned_done h t S2"
        "next_frame S \<le> next_frame S2" "frames S2 = (frames S1)(h := frames S2 h, t := frames S2 t)"
      by auto
    have fr: "frames S2 = (frames S)(h := frames S2 h, t := frames S2 t)"
      by (subst S2(6), subst S1(6)) (simp add: fun_eq_iff)
    have "h < next_frame S" "t < next_frame S"
      using ready fresh by (auto simp: spawn_ready_def heap_fresh_def not_le [symmetric])
    then have "heap_fresh S2"
      unfolding heap_fresh_def by (subst fr) (use fresh S2(5) in \<open>simp add: heap_fresh_def\<close>)
    then have "exec_spawn g me (StartSpawned h) (l, S)
        = Inr (queueInLoop me (CleanupSpawned h) (l\<lparr>spawnedTasks := insert h (spawnedTasks l)\<rparr>), S2\<lparr>cleanups := []\<rparr>)
      \<and> heap_fresh (S2\<lparr>cleanups := []\<rparr>) \<and> spawned_done h t (S2\<lparr>cleanups := []\<rparr>)"
      using S1(1) S2(1,2,4) by (simp add: spawn_functor_def resume_on_def heap_fresh_def spawned_done_def)
    with Inr S2(3,5) fr show ?thesis by (auto intro!: exI [of _ "S2\<lparr>cleanups := []\<rparr>"])
  qed
qed

text \<open>The handle of the wrapper and of the task of each spawned coroutine.\<close>

type_synonym 'w job = "nat \<times> nat \<times> 'w prog"

definition handles_of :: "'w job list \<Rightarrow> nat list" where
  "handles_of js = concat (map (\<lambda>(h, t, p). [h, t]) js)"

lemma handles_of_simps [simp]: "handles_of [] = []" "handles_of ((h, t, p) # js) = h # t # handles_of js"
  by (simp_all add: handles_of_def)

lemma handles_in: "(h, t, p) \<in> set js \<Longrightarrow> h \<in> set (handles_of js) \<and> t \<in> set (handles_of js)"
  by (force simp: handles_of_def)

lemma spawn_ready_frame:
  "spawn_ready h t p S \<Longrightarrow> frames S' h = frames S h \<Longrightarrow> frames S' t = frames S t \<Longrightarrow> next_frame S \<le> next_frame S' \<Longrightarrow> spawn_ready h t p S'"
  by (auto simp: spawn_ready_def)

lemma spawned_done_frame:
  "spawned_done h t S \<Longrightarrow> frames S' h = frames S h \<Longrightarrow> frames S' t = frames S t \<Longrightarrow> next_frame S \<le> next_frame S' \<Longrightarrow> spawned_done h t S'"
  by (auto simp: spawned_done_def)

text \<open>The round that starts the coroutines.\<close>

lemma start_all:
  assumes "\<And>h t p. (h, t, p) \<in> set js \<Longrightarrow> spawn_ready h t p S" and "distinct (handles_of js)" and "heap_fresh S" and "cleanups S = []"
    and "runs_all (world S) (map (\<lambda>j. snd (snd j)) js) e w'"
  shows "case e of
      Some x \<Rightarrow> exec_all (exec_spawn g me) (map (\<lambda>j. StartSpawned (fst j)) js) (l, S) = Inl Aborted
    | None \<Rightarrow> \<exists>l' S'. exec_all (exec_spawn g me) (map (\<lambda>j. StartSpawned (fst j)) js) (l, S) = Inr (l', S') \<and> same_loop l l'
        \<and> pendingFunctors l' = pendingFunctors l @ map (\<lambda>j. CleanupSpawned (fst j)) js \<and> spawnedTasks l' = fst ` set js \<union> spawnedTasks l
        \<and> world S' = w' \<and> (\<forall>(h, t, p) \<in> set js. spawned_done h t S') \<and> next_frame S \<le> next_frame S'
        \<and> (\<forall>a. a \<notin> set (handles_of js) \<longrightarrow> frames S' a = frames S a)"
  using assms
proof (induction js arbitrary: l S)
  case Nil
  then show ?case by (auto elim: runs_all_NilE)
next
  case (Cons j js)
  obtain h t p where j: "j = (h, t, p)" by (cases j)
  have ready: "spawn_ready h t p S" using Cons.prems(1) j by simp
  have "runs_all (world S) (p # map (\<lambda>j. snd (snd j)) js) e w'" using Cons.prems(5) j by simp
  then consider
      v w1 where "runs None (world S) p (Inr v) w1" "runs_all w1 (map (\<lambda>j. snd (snd j)) js) e w'"
    | x where "runs None (world S) p (Inl x) w'" "e = Some x"
    by (cases rule: runs_all_ConsE) blast+
  then show ?case
  proof cases
    case (1 v w1)
    from start_one [OF ready Cons.prems(3,4) 1(1), of g me l] obtain S1 where
      S1: "exec_spawn g me (StartSpawned h) (l, S) = Inr (queueInLoop me (CleanupSpawned h) (l\<lparr>spawnedTasks := insert h (spawnedTasks l)\<rparr>), S1)"
        "cleanups S1 = []" "world S1 = w1" "spawned_done h t S1" "heap_fresh S1" "next_frame S \<le> next_frame S1"
        "frames S1 = (frames S)(h := frames S1 h, t := frames S1 t)" by auto
    let ?l1 = "queueInLoop me (CleanupSpawned h) (l\<lparr>spawnedTasks := insert h (spawnedTasks l)\<rparr>)"
    have keep: "frames S1 a = frames S a" if "a \<notin> {h, t}" for a
      by (subst S1(7)) (use that in simp)
    have apart: "h \<notin> set (handles_of js)" "t \<notin> set (handles_of js)" "distinct (handles_of js)" using Cons.prems(2) j by auto
    have "spawn_ready h' t' p' S1" if job: "(h', t', p') \<in> set js" for h' t' p'
    proof (rule spawn_ready_frame [of h' t' p' S])
      show "spawn_ready h' t' p' S" by (rule Cons.prems(1)) (simp add: job)
      show "frames S1 h' = frames S h'" "frames S1 t' = frames S t'"
        by (rule keep, use handles_in [OF job] apart(1,2) in blast)+
    qed (rule S1(6))
    note rest = Cons.IH [of S1 ?l1, OF this apart(3) S1(5,2) 1(2) [folded S1(3)]]
    show ?thesis
    proof (cases e)
      case None
      with rest obtain l2 S2 where S2: "exec_all (exec_spawn g me) (map (\<lambda>j. StartSpawned (fst j)) js) (?l1, S1) = Inr (l2, S2)" "same_loop ?l1 l2"
          "pendingFunctors l2 = pendingFunctors l @ CleanupSpawned h # map (\<lambda>j. CleanupSpawned (fst j)) js"
          "spawnedTasks l2 = fst ` set js \<union> insert h (spawnedTasks l)" "world S2 = w'" "\<forall>(h, t, p) \<in> set js. spawned_done h t S2"
          "next_frame S1 \<le> next_frame S2" "\<forall>a. a \<notin> set (handles_of js) \<longrightarrow> frames S2 a = frames S1 a"
        by auto
      have "same_loop l ?l1" by simp
      then have "same_loop l l2" using S2(2) by (rule same_loop_trans)
      moreover have "frames S2 h = frames S1 h" "frames S2 t = frames S1 t" using S2(8) apart(1,2) by simp_all
      then have "spawned_done h t S2" using spawned_done_frame [OF S1(4)] S2(7) by blast
      moreover have "frames S2 a = frames S a" if "a \<notin> set (handles_of (j # js))" for a
        using that S2(8) keep [of a] j by simp
      moreover have "next_frame S \<le> next_frame S2" using S1(6) S2(7) by simp
      ultimately show ?thesis using None j S1(1) S2(1,3-6) by simp
    next
      case (Some x)
      with rest j S1(1) show ?thesis by simp
    qed
  next
    case (2 x)
    with start_one [OF ready Cons.prems(3,4) 2(1), of g me l] j show ?thesis by simp
  qed
qed

text \<open>The round that destroys them.\<close>

lemma clean_all:
  assumes "\<And>h t p. (h, t, p) \<in> set js \<Longrightarrow> spawned_done h t S" and "distinct (handles_of js)" and "fst ` set js \<subseteq> spawnedTasks l"
  shows "\<exists>S'. exec_all (exec_spawn g me) (map (\<lambda>j. CleanupSpawned (fst j)) js) (l, S)
      = Inr (l\<lparr>spawnedTasks := spawnedTasks l - fst ` set js\<rparr>, S')
    \<and> world S' = world S \<and> frames S' = (\<lambda>a. if a \<in> set (handles_of js) then None else frames S a)"
  using assms
proof (induction js arbitrary: l S)
  case (Cons j js)
  obtain h t p where j: "j = (h, t, p)" by (cases j)
  let ?S1 = "S\<lparr>frames := (frames S)(h := None, t := None)\<rparr>"
  let ?l1 = "l\<lparr>spawnedTasks := spawnedTasks l - {h}\<rparr>"
  have apart: "h \<notin> set (handles_of js)" "t \<notin> set (handles_of js)" "distinct (handles_of js)" using Cons.prems(2) j by auto
  have "destroy h S = Inr ?S1" using Cons.prems(1) [of h t p] j by (intro destroy_spawned) simp
  then have first: "exec_spawn g me (CleanupSpawned h) (l, S) = Inr (?l1, ?S1)"
    using Cons.prems(3) j by (simp add: cleanupSpawnedTask_def)
  have "spawned_done h' t' ?S1" if job: "(h', t', p') \<in> set js" for h' t' p'
  proof (rule spawned_done_frame [of h' t' S])
    show "spawned_done h' t' S" by (rule Cons.prems(1) [of h' t' p']) (simp add: job)
  qed (use handles_in [OF job] apart(1,2) in auto)
  moreover have "x \<noteq> h" if "x \<in> fst ` set js" for x
    using that handles_in apart(1) by fastforce
  then have "fst ` set js \<subseteq> spawnedTasks ?l1"
    using Cons.prems(3) by auto
  ultimately obtain S' where "exec_all (exec_spawn g me) (map (\<lambda>j. CleanupSpawned (fst j)) js) (?l1, ?S1)
        = Inr (?l1\<lparr>spawnedTasks := spawnedTasks ?l1 - fst ` set js\<rparr>, S')" "world S' = world S"
      "frames S' = (\<lambda>a. if a \<in> set (handles_of js) then None else frames ?S1 a)"
    using Cons.IH [of ?S1 ?l1, OF _ apart(3)] by auto
  with first j show ?case by (auto simp: fun_eq_iff Diff_insert2 [symmetric] intro!: exI [of _ S'])
qed (simp add: fun_eq_iff)

section \<open>Whole rounds\<close>

definition ready_loop :: "nat \<Rightarrow> ('k, 'f) event_loop \<Rightarrow> bool" where
  "ready_loop c l \<longleftrightarrow> wakeup_chan l = c \<and> loop_chans l c \<noteq> None \<and> \<not> quit_flag l"

lemma same_ready: "same_loop l l' \<Longrightarrow> ready_loop c l \<Longrightarrow> ready_loop c l'"
  unfolding same_loop_def ready_loop_def by (metis domIff)

lemma after_round [simp]: "same_loop l (l'\<lparr>callingPendingFunctors := b, pendingFunctors := fs\<rparr>) = same_loop l l'"
    "same_loop l (l'\<lparr>callingPendingFunctors := b\<rparr>) = same_loop l l'"
  by (simp_all add: same_loop_def)

lemma start_round:
  assumes loop: "ready_loop c l" "wakeup_answer c answer" "pendingFunctors l = map (\<lambda>j. StartSpawned (fst j)) js"
    and jobs: "\<And>h t p. (h, t, p) \<in> set js \<Longrightarrow> spawn_ready h t p S" "distinct (handles_of js)" "heap_fresh S" "cleanups S = []"
    and run: "runs_all (world S) (map (\<lambda>j. snd (snd j)) js) e w'"
  shows "case e of
      Some x \<Rightarrow> loop_iteration (exec_spawn g tid) (\<lambda>_. Inr) wakeup_event answer (l, S) = Inl Aborted
    | None \<Rightarrow> \<exists>l' S'. loop_iteration (exec_spawn g tid) (\<lambda>_. Inr) wakeup_event answer (l, S) = Inr (l', S') \<and> same_loop l l'
        \<and> pendingFunctors l' = map (\<lambda>j. CleanupSpawned (fst j)) js \<and> spawnedTasks l' = fst ` set js \<union> spawnedTasks l
        \<and> world S' = w' \<and> (\<forall>(h, t, p) \<in> set js. spawned_done h t S')
        \<and> (\<forall>a. a \<notin> set (handles_of js) \<longrightarrow> frames S' a = frames S a)"
proof -
  obtain l1 where l1: "same_loop l l1" "pendingFunctors l1 = pendingFunctors l" "spawnedTasks l1 = spawnedTasks l"
      "loop_iteration (exec_spawn g tid) (\<lambda>_. Inr) wakeup_event answer (l, S) = doPendingFunctors (exec_spawn g tid) (\<lambda>_. Inr) (l1, S)"
    using poll_round [of l answer] loop(1,2) unfolding ready_loop_def by metis
  let ?l2 = "l1\<lparr>callingPendingFunctors := True, pendingFunctors := []\<rparr>"
  note st = start_all [of js S e w' g tid ?l2, OF jobs run]
  show ?thesis
  proof (cases e)
    case None
    with st obtain l3 S3 where S3: "exec_all (exec_spawn g tid) (map (\<lambda>j. StartSpawned (fst j)) js) (?l2, S) = Inr (l3, S3)" "same_loop ?l2 l3"
        "pendingFunctors l3 = map (\<lambda>j. CleanupSpawned (fst j)) js" "spawnedTasks l3 = fst ` set js \<union> spawnedTasks l"
        "world S3 = w'" "\<forall>(h, t, p) \<in> set js. spawned_done h t S3" "\<forall>a. a \<notin> set (handles_of js) \<longrightarrow> frames S3 a = frames S a"
      by (auto simp: l1(3))
    have "loop_iteration (exec_spawn g tid) (\<lambda>_. Inr) wakeup_event answer (l, S) = Inr (l3\<lparr>callingPendingFunctors := False\<rparr>, S3)"
      using functors_round [of "exec_spawn g tid" l1 S "Inr (l3, S3)"] S3(1) loop(3) l1(2,4) by simp
    moreover have "same_loop l (l3\<lparr>callingPendingFunctors := False\<rparr>)"
      using l1(1) S3(2) by (simp add: same_loop_def)
    ultimately show ?thesis using None S3(3-7) by simp
  next
    case (Some x)
    with st functors_round [of "exec_spawn g tid" l1 S "Inl Aborted"] loop(3) l1(2,4) show ?thesis by simp
  qed
qed

lemma clean_round:
  assumes loop: "ready_loop c l" "wakeup_answer c answer" "pendingFunctors l = map (\<lambda>j. CleanupSpawned (fst j)) js"
    and jobs: "\<forall>(h, t, p) \<in> set js. spawned_done h t S" "distinct (handles_of js)" "fst ` set js \<subseteq> spawnedTasks l"
  shows "\<exists>l' S'. loop_iteration (exec_spawn g tid) (\<lambda>_. Inr) wakeup_event answer (l, S) = Inr (l', S') \<and> same_loop l l'
    \<and> pendingFunctors l' = [] \<and> spawnedTasks l' = spawnedTasks l - fst ` set js \<and> world S' = world S
    \<and> frames S' = (\<lambda>a. if a \<in> set (handles_of js) then None else frames S a)"
proof -
  obtain l1 where l1: "same_loop l l1" "pendingFunctors l1 = pendingFunctors l" "spawnedTasks l1 = spawnedTasks l"
      "loop_iteration (exec_spawn g tid) (\<lambda>_. Inr) wakeup_event answer (l, S) = doPendingFunctors (exec_spawn g tid) (\<lambda>_. Inr) (l1, S)"
    using poll_round [of l answer] loop(1,2) unfolding ready_loop_def by metis
  let ?l2 = "l1\<lparr>callingPendingFunctors := True, pendingFunctors := []\<rparr>"
  let ?l3 = "?l2\<lparr>spawnedTasks := spawnedTasks l - fst ` set js\<rparr>"
  have "\<exists>S'. exec_all (exec_spawn g tid) (map (\<lambda>j. CleanupSpawned (fst j)) js) (?l2, S) = Inr (?l2\<lparr>spawnedTasks := spawnedTasks ?l2 - fst ` set js\<rparr>, S')
      \<and> world S' = world S \<and> frames S' = (\<lambda>a. if a \<in> set (handles_of js) then None else frames S a)"
    by (rule clean_all [OF _ jobs(2)]) (use jobs(1,3) l1(3) in auto)
  then obtain S' where S': "exec_all (exec_spawn g tid) (map (\<lambda>j. CleanupSpawned (fst j)) js) (?l2, S) = Inr (?l3, S')" "world S' = world S"
      "frames S' = (\<lambda>a. if a \<in> set (handles_of js) then None else frames S a)"
    using l1(3) by auto
  have "loop_iteration (exec_spawn g tid) (\<lambda>_. Inr) wakeup_event answer (l, S) = Inr (?l3\<lparr>callingPendingFunctors := False\<rparr>, S')"
    using functors_round [of "exec_spawn g tid" l1 S "Inr (?l3, S')"] S'(1) loop(3) l1(2,4) by simp
  moreover have "same_loop l (?l3\<lparr>callingPendingFunctors := False\<rparr>)" using l1(1) by (simp add: same_loop_def)
  ultimately show ?thesis using S'(2,3) by (intro exI [of _ "?l3\<lparr>callingPendingFunctors := False\<rparr>"] exI [of _ S']) simp
qed

lemma empty_round:
  assumes "loop_chans l (wakeup_chan l) \<noteq> None" and "wakeup_answer (wakeup_chan l) a" and "pendingFunctors l = []"
  shows "\<exists>l'. same_loop l l' \<and> pendingFunctors l' = [] \<and> spawnedTasks l' = spawnedTasks l
    \<and> loop_iteration (exec_spawn g tid) (\<lambda>_. Inr) wakeup_event a (l, S) = Inr (l', S)"
proof -
  obtain l1 where l1: "same_loop l l1" "pendingFunctors l1 = []" "spawnedTasks l1 = spawnedTasks l"
      "loop_iteration (exec_spawn g tid) (\<lambda>_. Inr) wakeup_event a (l, S) = doPendingFunctors (exec_spawn g tid) (\<lambda>_. Inr) (l1, S)"
    using poll_round [OF assms(1,2), of "exec_spawn g tid" "\<lambda>_. Inr" S] assms(3) by metis
  then show ?thesis
    using functors_round [of "exec_spawn g tid" l1 S, OF refl]
    by (intro exI [of _ "l1\<lparr>callingPendingFunctors := False, pendingFunctors := []\<rparr>"]) simp
qed

lemma idle_rounds_loop:
  assumes "ready_loop c l" and "\<forall>a \<in> set as. wakeup_answer c a" and "pendingFunctors l = []"
  shows "\<exists>l'. spawn_rounds g tid as (l, S) = Inr (False, l', S) \<and> pendingFunctors l' = [] \<and> spawnedTasks l' = spawnedTasks l \<and> ready_loop c l'"
  using assms
proof (induction as arbitrary: l)
  case Nil
  then show ?case by (simp add: spawn_rounds_def loop_while.simps ready_loop_def)
next
  case (Cons a as)
  obtain l2 where l2: "same_loop l l2" "pendingFunctors l2 = []" "spawnedTasks l2 = spawnedTasks l"
      "loop_iteration (exec_spawn g tid) (\<lambda>_. Inr) wakeup_event a (l, S) = Inr (l2, S)"
    using empty_round [of l a g tid S] Cons.prems by (auto simp: ready_loop_def)
  from Cons.IH [OF same_ready [OF l2(1) Cons.prems(1)] _ l2(2)] obtain l' where "spawn_rounds g tid as (l2, S) = Inr (False, l', S)"
      "pendingFunctors l' = []" "spawnedTasks l' = spawnedTasks l" "ready_loop c l'"
    using Cons.prems(2) l2(3) by auto
  with l2(4) Cons.prems(1) show ?case by (simp add: spawn_rounds_def loop_while_Cons ready_loop_def)
qed

section \<open>Spawning from another thread\<close>

fun jobs :: "nat \<Rightarrow> nat list \<Rightarrow> 'w prog list \<Rightarrow> 'w job list" where
  "jobs n (t # ts) (p # ps) = (n, t, p) # jobs (Suc n) ts ps"
| "jobs n _ _ = []"

lemma jobs_lists:
  assumes "list_all2 R ts ps"
  shows "map (\<lambda>j. snd (snd j)) (jobs n ts ps) = ps" "fst ` set (jobs n ts ps) = {n..<n + length ts}"
    "set (handles_of (jobs n ts ps)) = {n..<n + length ts} \<union> set ts"
    "distinct ts \<Longrightarrow> \<forall>t \<in> set ts. t < n \<Longrightarrow> distinct (handles_of (jobs n ts ps))"
proof -
  from assms show "map (\<lambda>j. snd (snd j)) (jobs n ts ps) = ps" by (induction arbitrary: n rule: list_all2_induct) auto
  from assms show "fst ` set (jobs n ts ps) = {n..<n + length ts}" by (induction arbitrary: n rule: list_all2_induct) auto
  from assms show "set (handles_of (jobs n ts ps)) = {n..<n + length ts} \<union> set ts"
    by (induction arbitrary: n rule: list_all2_induct) auto
  from assms show "distinct (handles_of (jobs n ts ps))" if "distinct ts" "\<forall>t \<in> set ts. t < n" using that
  proof (induction arbitrary: n rule: list_all2_induct)
    case (Cons t ts p ps)
    have "set (handles_of (jobs (Suc n) ts ps)) = {Suc n..<Suc n + length ts} \<union> set ts"
      using Cons.hyps(2) by (induction arbitrary: n rule: list_all2_induct) auto
    moreover have "distinct (handles_of (jobs (Suc n) ts ps))" using Cons.IH [of "Suc n"] Cons.prems by force
    ultimately show ?case using Cons.prems by auto
  qed simp
qed

lemma tasks_old:
  assumes "heap_fresh S" and "list_all2 (\<lambda>t p. \<exists>g'. frames S t = Some (new_frame g' TVoid p)) ts ps"
  shows "\<forall>t \<in> set ts. t < next_frame S"
proof -
  have "\<forall>t \<in> set ts. \<exists>f. frames S t = Some f"
    using assms(2) by (induction rule: list_all2_induct) auto
  then show ?thesis
    using assms(1) unfolding heap_fresh_def by (metis not_le option.distinct(1))
qed

lemma spawned_elsewhere:
  assumes "me \<noteq> threadId l" and "heap_fresh S" and "list_all2 (\<lambda>t p. \<exists>g'. frames S t = Some (new_frame g' TVoid p)) ts ps"
  shows "\<exists>l1 S1. spawn_each g me ts (l, S) = Inr (l1, S1) \<and> same_loop l l1 \<and> spawnedTasks l1 = spawnedTasks l
    \<and> pendingFunctors l1 = pendingFunctors l @ map (\<lambda>j. StartSpawned (fst j)) (jobs (next_frame S) ts ps)
    \<and> heap_fresh S1 \<and> cleanups S1 = cleanups S \<and> world S1 = world S \<and> next_frame S \<le> next_frame S1
    \<and> (\<forall>(h, t, p) \<in> set (jobs (next_frame S) ts ps). spawn_ready h t p S1) \<and> (\<forall>a < next_frame S. frames S1 a = frames S a)
    \<and> next_frame S1 = next_frame S + length ts"
  using assms
proof (induction ts arbitrary: ps l S)
  case Nil
  then show ?case by simp
next
  case (Cons t ts)
  let ?h = "next_frame S"
  obtain p qs g' where ps: "ps = p # qs" and t: "frames S t = Some (new_frame g' TVoid p)"
    and others: "list_all2 (\<lambda>t p. \<exists>g'. frames S t = Some (new_frame g' TVoid p)) ts qs"
    using Cons.prems(3) by (auto simp: list_all2_Cons1)
  have lt: "u < ?h" if "frames S u \<noteq> None" for u using that Cons.prems(2) by (auto simp: heap_fresh_def not_le [symmetric])
  obtain S1 where S1: "spawn g me t (l, S) = runInLoop (exec_spawn g me) me (StartSpawned ?h) (l, S1)" "spawn_ready ?h t p S1" "heap_fresh S1"
      "cleanups S1 = cleanups S" "world S1 = world S" "next_frame S1 = Suc ?h" "frames S1 = (frames S)(?h := frames S1 ?h)"
    using spawn_makes_ready [OF Cons.prems(2) t, of p g me l] lt [of t] t by (auto simp: new_frame_def)
  let ?l1 = "queueInLoop me (StartSpawned ?h) l"
  have first: "spawn g me t (l, S) = Inr (?l1, S1)" using S1(1) Cons.prems(1) by (simp add: runInLoop_def isInLoopThread_def)
  have keep: "frames S1 u = frames S u" if "u < ?h" for u by (subst S1(7)) (use that in simp)
  have "list_all2 (\<lambda>t p. \<exists>g'. frames S1 t = Some (new_frame g' TVoid p)) ts qs"
    using others by (rule list_all2_mono) (metis keep lt option.distinct(1))
  moreover have same: "same_loop l ?l1" by simp
  then have "me \<noteq> threadId ?l1" using Cons.prems(1) by (simp add: same_loop_def)
  ultimately obtain l2 S2 where S2: "spawn_each g me ts (?l1, S1) = Inr (l2, S2)" "same_loop ?l1 l2" "spawnedTasks l2 = spawnedTasks l"
      "pendingFunctors l2 = pendingFunctors l @ StartSpawned ?h # map (\<lambda>j. StartSpawned (fst j)) (jobs (Suc ?h) ts qs)"
      "heap_fresh S2" "cleanups S2 = cleanups S" "world S2 = world S" "next_frame S1 \<le> next_frame S2"
      "\<forall>(h, t, p) \<in> set (jobs (Suc ?h) ts qs). spawn_ready h t p S2" "\<forall>a < Suc ?h. frames S2 a = frames S1 a" "next_frame S2 = Suc ?h + length ts"
    using Cons.IH [of ?l1 S1 qs] S1(3-6) by auto
  have "spawn_ready ?h t p S2"
    by (rule spawn_ready_frame [OF S1(2)]) (use S2(8,10) lt [of t] t in simp_all)
  moreover have "same_loop l l2" using same S2(2) by (rule same_loop_trans)
  moreover have "frames S2 a = frames S a" if "a < ?h" for a using that S2(10) keep by simp
  ultimately show ?case using first S2 ps by simp
qed

section \<open>Properties\<close>

lemma spawned_rounds:
  assumes "me \<noteq> threadId l" and "ready_loop c l" and "pendingFunctors l = []" and "heap_fresh S" and "cleanups S = []" and "distinct ts"
    and tasks: "list_all2 (\<lambda>t p. \<exists>g'. frames S t = Some (new_frame g' TVoid p)) ts ps"
    and "runs_all (world S) ps e w'" and "wakeup_answer c a1"
  defines "H \<equiv> {next_frame S..<next_frame S + length ts}"
  shows "\<exists>l1 S1. spawn_each g me ts (l, S) = Inr (l1, S1) \<and> ready_loop c l1 \<and> threadId l1 = threadId l \<and>
    (case e of
      Some x \<Rightarrow> loop_iteration (exec_spawn g tid) (\<lambda>_. Inr) wakeup_event a1 (l1, S1) = Inl Aborted
    | None \<Rightarrow> \<exists>l2 S2. loop_iteration (exec_spawn g tid) (\<lambda>_. Inr) wakeup_event a1 (l1, S1) = Inr (l2, S2) \<and> ready_loop c l2
        \<and> threadId l2 = threadId l
        \<and> pendingFunctors l2 = map (\<lambda>j. CleanupSpawned (fst j)) (jobs (next_frame S) ts ps) \<and> spawnedTasks l2 = H \<union> spawnedTasks l
        \<and> world S2 = w' \<and> (\<forall>(h, t, p) \<in> set (jobs (next_frame S) ts ps). spawned_done h t S2)
        \<and> (\<forall>a. a \<notin> H \<union> set ts \<longrightarrow> frames S2 a = frames S a))"
proof -
  let ?js = "jobs (next_frame S) ts ps"
  note lists = jobs_lists [OF tasks, of "next_frame S"]
  obtain l1 S1 where S1: "spawn_each g me ts (l, S) = Inr (l1, S1)" "same_loop l l1" "spawnedTasks l1 = spawnedTasks l"
      "pendingFunctors l1 = map (\<lambda>j. StartSpawned (fst j)) ?js" "heap_fresh S1" "cleanups S1 = []" "world S1 = world S"
      "\<forall>(h, t, p) \<in> set ?js. spawn_ready h t p S1" "\<forall>a < next_frame S. frames S1 a = frames S a" "next_frame S1 = next_frame S + length ts"
    using spawned_elsewhere [OF assms(1,4) tasks, of g] assms(3,5) by auto
  have r1: "ready_loop c l1" by (rule same_ready [OF S1(2) assms(2)])
  have out: "frames S1 a = frames S a" if "a \<notin> H" for a
    using that S1(5,9,10) assms(4) by (cases "a < next_frame S") (auto simp: H_def heap_fresh_def)
  note round = start_round [where g = g and tid = tid, OF r1 assms(9) S1(4) _ lists(4) [OF assms(6) tasks_old [OF assms(4) tasks]] S1(5,6)]
  have run: "runs_all (world S1) (map (\<lambda>j. snd (snd j)) ?js) e w'" using assms(8) S1(7) lists(1) by simp
  have ready: "spawn_ready h t p S1" if "(h, t, p) \<in> set ?js" for h t p using S1(8) that by fast
  have tid1: "threadId l1 = threadId l" using S1(2) by (simp add: same_loop_def)
  show ?thesis
  proof (cases e)
    case None
    with round [OF ready run] obtain l2 S2 where S2: "loop_iteration (exec_spawn g tid) (\<lambda>_. Inr) wakeup_event a1 (l1, S1) = Inr (l2, S2)"
        "same_loop l1 l2" "pendingFunctors l2 = map (\<lambda>j. CleanupSpawned (fst j)) ?js" "spawnedTasks l2 = fst ` set ?js \<union> spawnedTasks l1"
        "world S2 = w'" "\<forall>(h, t, p) \<in> set ?js. spawned_done h t S2" "\<forall>a. a \<notin> set (handles_of ?js) \<longrightarrow> frames S2 a = frames S1 a"
      by auto
    have "ready_loop c l2" "threadId l2 = threadId l" using same_ready [OF S2(2) r1] S2(2) tid1 by (simp_all add: same_loop_def)
    moreover have "frames S2 a = frames S a" if "a \<notin> H \<union> set ts" for a
      using that S2(7) out lists(3) by (simp add: H_def)
    ultimately show ?thesis using None S1(1,3) r1 tid1 S2(1,3-6) lists(2) by (simp add: H_def)
  next
    case (Some x)
    with round [OF ready run] S1(1) r1 tid1 show ?thesis by simp
  qed
qed

lemma spawned_then_freed:
  assumes "me \<noteq> threadId l" and "ready_loop c l" and "pendingFunctors l = []" and "heap_fresh S" and "cleanups S = []" and "distinct ts"
    and "list_all2 (\<lambda>t p. \<exists>g'. frames S t = Some (new_frame g' TVoid p)) ts ps" and "runs_all (world S) ps e w'"
    and "\<forall>a \<in> set (a1 # a2 # as). wakeup_answer c a" and "spawnedTasks l \<inter> {next_frame S..<next_frame S + length ts} = {}"
  shows "\<exists>l1 S1. spawn_each g me ts (l, S) = Inr (l1, S1) \<and>
    (case e of
      Some x \<Rightarrow> spawn_rounds g (threadId l) (a1 # a2 # as) (l1, S1) = Inl Aborted
    | None \<Rightarrow> \<exists>l' S'. spawn_rounds g (threadId l) (a1 # a2 # as) (l1, S1) = Inr (False, l', S') \<and> world S' = w'
        \<and> frames S' = (\<lambda>a. if a \<in> set ts then None else frames S a) \<and> spawnedTasks l' = spawnedTasks l \<and> pendingFunctors l' = [])"
proof -
  let ?js = "jobs (next_frame S) ts ps" and ?H = "{next_frame S..<next_frame S + length ts}"
  note lists = jobs_lists [OF assms(7), of "next_frame S"]
  have ans: "wakeup_answer c a1" "wakeup_answer c a2" "\<forall>a \<in> set as. wakeup_answer c a" using assms(9) by auto
  obtain l1 S1 where S1: "spawn_each g me ts (l, S) = Inr (l1, S1)" "ready_loop c l1" and round: "case e of
      Some x \<Rightarrow> loop_iteration (exec_spawn g (threadId l)) (\<lambda>_. Inr) wakeup_event a1 (l1, S1) = Inl Aborted
    | None \<Rightarrow> \<exists>l2 S2. loop_iteration (exec_spawn g (threadId l)) (\<lambda>_. Inr) wakeup_event a1 (l1, S1) = Inr (l2, S2) \<and> ready_loop c l2
        \<and> threadId l2 = threadId l
        \<and> pendingFunctors l2 = map (\<lambda>j. CleanupSpawned (fst j)) ?js \<and> spawnedTasks l2 = ?H \<union> spawnedTasks l
        \<and> world S2 = w' \<and> (\<forall>(h, t, p) \<in> set ?js. spawned_done h t S2) \<and> (\<forall>a. a \<notin> ?H \<union> set ts \<longrightarrow> frames S2 a = frames S a)"
    using spawned_rounds [OF assms(1-8) ans(1), of g "threadId l"] by blast
  show ?thesis
  proof (cases e)
    case None
    with round obtain l2 S2 where S2: "loop_iteration (exec_spawn g (threadId l)) (\<lambda>_. Inr) wakeup_event a1 (l1, S1) = Inr (l2, S2)" "ready_loop c l2"
        "pendingFunctors l2 = map (\<lambda>j. CleanupSpawned (fst j)) ?js" "spawnedTasks l2 = ?H \<union> spawnedTasks l" "world S2 = w'"
        "\<forall>(h, t, p) \<in> set ?js. spawned_done h t S2" "\<forall>a. a \<notin> ?H \<union> set ts \<longrightarrow> frames S2 a = frames S a" by auto
    note dist = lists(4) [OF assms(6) tasks_old [OF assms(4,7)]]
    obtain l3 S3 where S3: "loop_iteration (exec_spawn g (threadId l)) (\<lambda>_. Inr) wakeup_event a2 (l2, S2) = Inr (l3, S3)" "same_loop l2 l3"
        "pendingFunctors l3 = []" "spawnedTasks l3 = spawnedTasks l2 - fst ` set ?js" "world S3 = world S2"
        "frames S3 = (\<lambda>a. if a \<in> set (handles_of ?js) then None else frames S2 a)"
      using clean_round [where g = g and tid = "threadId l", OF S2(2) ans(2) S2(3,6) dist] S2(4) lists(2) by auto
    obtain l4 where l4: "spawn_rounds g (threadId l) as (l3, S3) = Inr (False, l4, S3)" "pendingFunctors l4 = []" "spawnedTasks l4 = spawnedTasks l3"
      using idle_rounds_loop [OF same_ready [OF S3(2) S2(2)] ans(3) S3(3)] by blast
    have "spawn_rounds g (threadId l) (a1 # a2 # as) (l1, S1) = Inr (False, l4, S3)"
      using S1(2) S2(1,2) S3(1) l4(1) by (simp add: spawn_rounds_def loop_while_Cons ready_loop_def)
    moreover have "frames S3 = (\<lambda>a. if a \<in> set ts then None else frames S a)"
      using assms(4) S2(7) lists(3) by (auto simp: S3(6) fun_eq_iff heap_fresh_def)
    moreover have "spawnedTasks l4 = spawnedTasks l" using assms(10) l4(3) S3(4) S2(4) lists(2) by auto
    ultimately show ?thesis using None S1(1) l4(2) S3(5) S2(5) by simp
  next
    case (Some x)
    with round S1 show ?thesis by (simp add: spawn_rounds_def loop_while_Cons ready_loop_def)
  qed
qed

text \<open>Two tasks of thread 1 for a loop of thread 0: each adds to a counter.\<close>

definition count_body :: "nat prog" where
  "count_body = stmt Suc (Ret VVoid)"

definition sample_two_tasks :: "nat cstate" where
  "sample_two_tasks = snd (create (new_frame 0 TVoid count_body) (snd (create (new_frame 0 TVoid count_body) (empty_heap 0))))"

lemma sample_two_tasks_facts:
  "heap_fresh sample_two_tasks" "cleanups sample_two_tasks = []" "next_frame sample_two_tasks = 2" "world sample_two_tasks = 0"
  "frames sample_two_tasks = [0 \<mapsto> new_frame 0 TVoid count_body, 1 \<mapsto> new_frame 0 TVoid count_body]"
  by (simp_all add: sample_two_tasks_def create_def heap_fresh_def)

lemma count_runs: "runs_all 0 [count_body, count_body] None 2"
proof -
  have one: "runs None w count_body (Inr VVoid) (Suc w)" for w by (simp add: count_body_def stmt_def)
  show ?thesis using runs_all_Cons [OF one runs_all_Cons [OF one runs_all_Nil], of 0] by (simp add: numeral_2_eq_2)
qed

lemma sample_spawn_ready: "ready_loop 1 sample_spawn_loop" "1 \<noteq> threadId sample_spawn_loop" "pendingFunctors sample_spawn_loop = []"
    "spawnedTasks sample_spawn_loop = {}" "wakeup_answer c (\<lambda>_. Inr [])" "threadId sample_spawn_loop = 0"
  by (simp_all add: ready_loop_def sample_spawn_loop_def sample_loop_def wakeup_answer_def)

lemma sample_tasks_listed:
  "list_all2 (\<lambda>t p. \<exists>g'. frames sample_two_tasks t = Some (new_frame g' TVoid p)) [0, 1] [count_body, count_body]"
  "distinct [0, 1 :: nat]" "runs_all (world sample_two_tasks) [count_body, count_body] None 2"
  using count_runs by (auto simp: sample_two_tasks_facts)

text \<open>C14. Tasks spawned from another thread run and are cleaned up: the first round of the loop after the calls runs their
  bodies one after the other, each to its end; the second destroys the frames of every wrapper and its
  task and forgets the handles, so that only the frames from before, without the tasks, are left, and
  the loop goes on polling with nothing pending. When a body throws, the program is terminated.\<close>

theorem spawned_tasks_run_and_are_freed:
  assumes "me \<noteq> threadId l" and "ready_loop c l" and "pendingFunctors l = []" and "heap_fresh S" and "cleanups S = []" and "distinct ts"
    and "list_all2 (\<lambda>t p. \<exists>g'. frames S t = Some (new_frame g' TVoid p)) ts ps" and "runs_all (world S) ps e w'"
    and "\<forall>a \<in> set (a1 # a2 # as). wakeup_answer c a" and "spawnedTasks l \<inter> {next_frame S..<next_frame S + length ts} = {}"
  shows "\<exists>l1 S1. spawn_each g me ts (l, S) = Inr (l1, S1) \<and>
    (case e of
      Some x \<Rightarrow> spawn_rounds g (threadId l) (a1 # a2 # as) (l1, S1) = Inl Aborted
    | None \<Rightarrow> \<exists>l' S'. spawn_rounds g (threadId l) (a1 # a2 # as) (l1, S1) = Inr (False, l', S') \<and> world S' = w'
        \<and> frames S' = (\<lambda>a. if a \<in> set ts then None else frames S a) \<and> spawnedTasks l' = spawnedTasks l \<and> pendingFunctors l' = [])"
  by (rule spawned_then_freed [OF assms])

theorem spawned_tasks_run_and_are_freed_witness:
  "\<exists>l1 S1 l' S'. spawn_each 0 1 [0, 1] (sample_spawn_loop, sample_two_tasks) = Inr (l1, S1)
     \<and> spawn_rounds 0 0 [\<lambda>_. Inr [], \<lambda>_. Inr []] (l1, S1) = Inr (False, l', S') \<and> world S' = 2 \<and> frames S' = (\<lambda>_. None)"
proof -
  have "\<forall>a \<in> set ((\<lambda>_. Inr []) # (\<lambda>_. Inr []) # []). wakeup_answer 1 a" "spawnedTasks sample_spawn_loop \<inter> A = {}" for A
    by (simp_all add: sample_spawn_ready)
  note result = spawned_tasks_run_and_are_freed [where g = 0, OF sample_spawn_ready(2,1,3) sample_two_tasks_facts(1,2) sample_tasks_listed(2,1,3) this]
  have none: "(\<lambda>a. if a \<in> set [0, 1] then None else frames sample_two_tasks a) = (\<lambda>_. None)"
    by (simp add: sample_two_tasks_facts fun_eq_iff)
  show ?thesis
    using result unfolding sample_spawn_ready(6) option.case none by blast
qed

text \<open>C39. A loop that is asked to quit before it has destroyed what it spawned leaves it behind: when another thread calls \<^verbatim>\<open>quit\<close>
  after the round that ran the coroutines, \<^verbatim>\<open>loop\<close> returns without running the queued destructions. The
  frames of every wrapper and every task stay allocated, at their ends, with their handles in
  \<^verbatim>\<open>spawnedTasks_\<close>; the destructor of the loop drops the handles.\<close>

theorem quit_leaks_spawned_frames:
  assumes "me \<noteq> threadId l" and "ready_loop c l" and "pendingFunctors l = []" and "heap_fresh S" and "cleanups S = []" and "distinct ts"
    and "list_all2 (\<lambda>t p. \<exists>g'. frames S t = Some (new_frame g' TVoid p)) ts ps" and "runs_all (world S) ps None w'" and "wakeup_answer c a1"
  shows "\<exists>l1 S1 l2 S2. spawn_each g me ts (l, S) = Inr (l1, S1) \<and> spawn_rounds g (threadId l) [a1] (l1, S1) = Inr (False, l2, S2)
    \<and> spawn_rounds g (threadId l) as (quit me l2, S2) = Inr (True, quit me l2, S2) \<and> world S2 = w'
    \<and> (\<forall>h \<in> {next_frame S..<next_frame S + length ts} \<union> set ts. \<exists>f. frames S2 h = Some f \<and> status f = AtEnd)
    \<and> spawnedTasks (quit me l2) = {next_frame S..<next_frame S + length ts} \<union> spawnedTasks l
    \<and> length (pendingFunctors (quit me l2)) = length ts"
proof -
  let ?js = "jobs (next_frame S) ts ps" and ?H = "{next_frame S..<next_frame S + length ts}"
  note lists = jobs_lists [OF assms(7), of "next_frame S"]
  obtain l1 S1 l2 S2 where S: "spawn_each g me ts (l, S) = Inr (l1, S1)" "ready_loop c l1"
      "loop_iteration (exec_spawn g (threadId l)) (\<lambda>_. Inr) wakeup_event a1 (l1, S1) = Inr (l2, S2)" "ready_loop c l2" "threadId l2 = threadId l"
      "pendingFunctors l2 = map (\<lambda>j. CleanupSpawned (fst j)) ?js" "spawnedTasks l2 = ?H \<union> spawnedTasks l" "world S2 = w'"
      "\<forall>(h, t, p) \<in> set ?js. spawned_done h t S2"
    using spawned_rounds [OF assms, of g "threadId l"] by auto
  have "\<exists>f. frames S2 x = Some f \<and> status f = AtEnd" if "x \<in> set (handles_of ?js)" for x
    using that S(9) by (fastforce simp: handles_of_def spawned_done_def)
  moreover have "length ?js = length ts" using lists(1) assms(7) by (metis length_map list_all2_lengthD)
  moreover have "quit me l2 = wakeup (l2\<lparr>quit_flag := True\<rparr>)" using assms(1) S(5) by (simp add: quit_def isInLoopThread_def)
  moreover have "spawn_rounds g (threadId l) [a1] (l1, S1) = Inr (False, l2, S2)"
    using S(2-4) by (simp add: spawn_rounds_def loop_while_Cons ready_loop_def) (simp add: loop_while.simps)
  ultimately show ?thesis
    using S(1,6-8) lists(3)
    by (intro exI [of _ l1] exI [of _ S1] exI [of _ l2] exI [of _ S2]) (simp add: spawn_rounds_def loop_while_quit wakeup_def)
qed

theorem quit_leaks_spawned_frames_witness:
  "\<exists>l1 S1 l2 S2. spawn_each 0 1 [0, 1] (sample_spawn_loop, sample_two_tasks) = Inr (l1, S1)
     \<and> spawn_rounds 0 0 [\<lambda>_. Inr []] (l1, S1) = Inr (False, l2, S2) \<and> spawn_rounds 0 0 [] (quit 1 l2, S2) = Inr (True, quit 1 l2, S2)
     \<and> frames S2 3 \<noteq> None \<and> spawnedTasks (quit 1 l2) = {2, 3}"
proof -
  obtain l1 S1 l2 S2 where r: "spawn_each 0 1 [0, 1] (sample_spawn_loop, sample_two_tasks) = Inr (l1, S1)"
      "spawn_rounds 0 0 [\<lambda>_. Inr []] (l1, S1) = Inr (False, l2, S2)" "spawn_rounds 0 0 [] (quit 1 l2, S2) = Inr (True, quit 1 l2, S2)"
      "\<forall>h \<in> {2..<2 + length [0, 1 :: nat]} \<union> set [0, 1]. \<exists>f. frames S2 h = Some f \<and> status f = AtEnd"
      "spawnedTasks (quit 1 l2) = {2..<2 + length [0, 1 :: nat]} \<union> {}"
    using quit_leaks_spawned_frames [where g = 0 and as = "[]", OF sample_spawn_ready(2,1,3) sample_two_tasks_facts(1,2) sample_tasks_listed(2,1,3)
        sample_spawn_ready(5)]
    unfolding sample_spawn_ready(4,6) sample_two_tasks_facts(3) by blast
  have "{2..<2 + length [0, 1 :: nat]} = {2, 3 :: nat}" by auto
  with r show ?thesis by fastforce
qed

end
