(* ===== verification/CoroMain.thy ===== *)
theory CoroMain
  imports CoroServer SpawnLoop
begin

text \<open>
  The rest of \<^verbatim>\<open>main\<close> of \<^verbatim>\<open>examples/coro_echo_server.cc\<close>: what it prints, the loop around the accept coroutine, the interrupt
  that stops it, and the end of the program.
\<close>

section \<open>The lines of main\<close>

definition coro_banner :: "16 word \<Rightarrow> string list" where
  "coro_banner prt = [''=== Hayai Coroutine Echo Server ==='' @ [CHR 10], ''Listening on port '' @ dec (unat prt) @ [CHR 10],
     ''Press Ctrl+C to stop'' @ [CHR 10, CHR 10]]"

text \<open>
  After the loop: a last line, then the server is destroyed with what its members are by now. The
  coroutine frames are not objects of \<^verbatim>\<open>main\<close>: no destructor refers to them.
\<close>

definition coro_main_end :: "nat \<Rightarrow> async_server_obj \<Rightarrow> echo_world cstate \<Rightarrow> echo_world cstate res" where
  "coro_main_end me obj S =
     (let W = print ([CHR 10] @ ''[Server] Shutdown complete.'') (world S) in
      case AsyncServer_dtor me (obj\<lparr>as_members := Some (ew_srv W)\<rparr>) of
        (obj', Inl e) \<Rightarrow> Inl e
      | (obj', Inr _) \<Rightarrow> Inr (S\<lparr>world := W\<rparr>))"

section \<open>The interrupt\<close>

lemma main_end_without_clients:
  assumes "connections (as_tcp obj) = []" and "pendingConnections (ew_srv (world S)) = []"
  shows "coro_main_end me obj S = Inr (S\<lparr>world := print ([CHR 10] @ ''[Server] Shutdown complete.'') (world S)\<rparr>)"
proof -
  have "snd (reset_acceptor (s\<lparr>connections := []\<rparr>)) = Inr ()" for s
    by (auto simp: reset_acceptor_def Acceptor_dtor_def Let_def isNoneEvent_def disableAll_mask_def split: option.splits)
  then have "snd (AsyncServer_dtor me (obj\<lparr>as_members := Some (ew_srv (print m (world S)))\<rparr>)) = Inr ()" for m
    using assms by (simp add: AsyncServer_dtor_def print_def on_tcp_def TcpServer_dtor_def then_do_def split: prod.split) (metis snd_conv)
  then show ?thesis
    by (auto simp: coro_main_end_def Let_def split: prod.splits sum.splits) (metis snd_conv sum.distinct(1))
qed

text \<open>The interrupt ends the program but not its accept loop: with no client, the coroutine waits in \<^verbatim>\<open>accept()\<close> while the
  loop polls; a signal clears the flag and makes the loop return after its poll. Nothing resumes the
  coroutine, so its last line is never printed, and nothing destroys its frame or that of its wrapper,
  neither the destructor of the server nor that of the loop.\<close>

theorem interrupt_leaves_accept_loop:
  assumes "threadId l = me" and "ready_loop c l" and "pendingFunctors l = []" and "ew_running W" and "pendingConnections (ew_srv W) = []"
    and "\<forall>a \<in> set as. wakeup_answer c a" and "wakeup_answer c b" and "connections (as_tcp obj) = []"
  shows "\<exists>l1 S1 l2 l3 W3 l4 S5. start_accepting g me (l, W) = Inr (l1, S1) \<and> spawn_rounds g me as (l1, S1) = Inr (False, l2, S1)
    \<and> sigint who True (l2, world S1) = (l3, W3) \<and> \<not> ew_running W3
    \<and> loop_iteration (exec_spawn g me) (\<lambda>_. Inr) wakeup_event b (l3, S1\<lparr>world := W3\<rparr>) = Inr (l4, S1\<lparr>world := W3\<rparr>)
    \<and> spawn_rounds g me bs (l4, S1\<lparr>world := W3\<rparr>) = Inr (True, l4, S1\<lparr>world := W3\<rparr>)
    \<and> coro_main_end me obj (S1\<lparr>world := W3\<rparr>) = Inr S5 \<and> frames S5 0 \<noteq> None \<and> frames S5 1 \<noteq> None \<and> 1 \<in> spawnedTasks l4
    \<and> ew_out (world S5) = ew_out W @ [''[Server] Accepting connections...'' @ [CHR 10], [CHR 10] @ ''[Server] Shutdown complete.'' @ [CHR 10]]"
proof -
  let ?l1 = "l\<lparr>spawnedTasks := insert 1 (spawnedTasks l)\<rparr>"
  obtain S1 where S1: "start_accepting g me (l, W) = Inr (?l1, S1)"
      "world S1 = (print ''[Server] Accepting connections...'' W)\<lparr>ew_srv := (ew_srv W)\<lparr>acceptCoroutine := Some 0\<rparr>\<rparr>"
      "frames S1 0 \<noteq> None" "frames S1 1 \<noteq> None"
    using start_accepting_waits [OF assms(1,4,5), of g] by blast
  have "ready_loop c ?l1" "pendingFunctors ?l1 = []" using assms(2,3) by (simp_all add: ready_loop_def)
  from idle_rounds_loop [OF this(1) assms(6) this(2), of g me S1] obtain l2 where l2: "spawn_rounds g me as (?l1, S1) = Inr (False, l2, S1)"
      "pendingFunctors l2 = []" "spawnedTasks l2 = spawnedTasks ?l1" "ready_loop c l2" by blast
  let ?l3 = "quit who l2" and ?W3 = "(world S1)\<lparr>ew_running := False\<rparr>"
  have l3: "pendingFunctors ?l3 = []" "spawnedTasks ?l3 = spawnedTasks ?l1" "loop_chans ?l3 (wakeup_chan ?l3) \<noteq> None" "wakeup_answer (wakeup_chan ?l3) b" "quit_flag ?l3"
    using l2(2-4) assms(7) by (simp_all add: quit_def wakeup_def ready_loop_def Let_def)
  obtain l4 where l4: "same_loop ?l3 l4" "spawnedTasks l4 = spawnedTasks ?l3"
      "loop_iteration (exec_spawn g me) (\<lambda>_. Inr) wakeup_event b (?l3, S1\<lparr>world := ?W3\<rparr>) = Inr (l4, S1\<lparr>world := ?W3\<rparr>)"
    using empty_round [OF l3(3,4,1)] by blast
  have "quit_flag l4" using l4(1) l3(5) by (simp add: same_loop_def)
  then have stop: "spawn_rounds g me bs (l4, S1\<lparr>world := ?W3\<rparr>) = Inr (True, l4, S1\<lparr>world := ?W3\<rparr>)"
    by (simp add: spawn_rounds_def loop_while_quit)
  have "pendingConnections (ew_srv ?W3) = []" using S1(2) assms(5) by simp
  then have "coro_main_end me obj (S1\<lparr>world := ?W3\<rparr>) = Inr (S1\<lparr>world := print ([CHR 10] @ ''[Server] Shutdown complete.'') ?W3\<rparr>)"
    using main_end_without_clients [OF assms(8), of "S1\<lparr>world := ?W3\<rparr>"] by simp
  moreover have "sigint who True (l2, world S1) = (?l3, ?W3)" by (simp add: sigint_def)
  moreover have "1 \<in> spawnedTasks l4" using l4(2) l3(2) by simp
  ultimately show ?thesis
    using S1 l2(1) l4(3) stop
    by (intro exI [of _ ?l1] exI [of _ S1] exI [of _ l2] exI [of _ ?l3] exI [of _ ?W3] exI [of _ l4] exI conjI) (assumption | simp add: print_def)+
qed

end
