(* ===== verification/TaskSafety.thy ===== *)
theory TaskSafety
  imports Task
begin

text \<open>
  Types and ownership of coroutines, for bodies of any shape, also those that suspend anywhere or never
  end: bodies are typed coinductively the way the compiler types them, and every frame is owned by one
  \<^verbatim>\<open>Task\<close> object or by the one coroutine that awaits it. The machine keeps this, so that resuming, \<^verbatim>\<open>get\<close>,
  moves and destruction never touch a destroyed frame, and destroying all tasks frees all frames.
\<close>

section \<open>Typed bodies\<close>

text \<open>
  Besides the types of results, a typed body is one whose statements and awaiters have no undefined
  behaviour of their own, and that awaits only tasks it calls.
\<close>

coinductive typed :: "ty \<Rightarrow> 'w prog \<Rightarrow> bool" where
  typed_Ret: "ty_of v = T \<Longrightarrow> typed T (Ret v)"
| typed_Raise: "typed T (Raise e)"
| typed_Do: "(\<And>w. \<exists>w' p. act w = Inr (w', p) \<and> typed T p) \<Longrightarrow> typed T (Do act)"
| typed_Park: "(\<And>h w. \<exists>w'. suspend h w = Inr w') \<Longrightarrow> typed T p \<Longrightarrow> typed T (Park suspend p)"
| typed_Call: "typed U q \<Longrightarrow> (\<And>v. ty_of v = U \<Longrightarrow> typed T (k (Inr v))) \<Longrightarrow> (\<And>e. typed T (k (Inl e))) \<Longrightarrow> typed T (Call U q k)"

inductive_simps typed_simps [simp]:
  "typed T (Ret v)" "typed T (Raise e)" "typed T (Do act)" "typed T (Park suspend p)" "typed T (Call U q k)" "typed T (Join t k)"

text \<open>What may follow the await of a task of type \<open>U\<close> in a body of type \<open>T\<close>.\<close>

definition rest_typed :: "ty \<Rightarrow> ty \<Rightarrow> (val res \<Rightarrow> 'w prog) \<Rightarrow> bool" where
  "rest_typed U T k \<longleftrightarrow> (\<forall>v. ty_of v = U \<longrightarrow> typed T (k (Inr v))) \<and> (\<forall>e. typed T (k (Inl e)))"

lemma ty_of_fresh [simp]: "ty_of (fresh_value g T) = T"
  by (cases T) simp_all

section \<open>Well-formed heaps\<close>

definition frame_ok :: "'w cstate \<Rightarrow> nat \<Rightarrow> 'w frame \<Rightarrow> bool" where
  "frame_ok S h f \<longleftrightarrow> ty_of (ret_value f) = result_ty f \<and> \<not> is_spawn f \<and> params f = [] \<and>
     (case status f of
        Run p \<Rightarrow> typed (result_ty f) p
      | AtEnd \<Rightarrow> True
      | Waiting keep t k \<Rightarrow> \<not> keep \<and> h < t \<and>
          (\<exists>g. frames S t = Some g \<and> continuation g = Some h \<and> rest_typed (result_ty g) (result_ty f) k))"

definition waits_for :: "'w cstate \<Rightarrow> nat \<Rightarrow> nat \<Rightarrow> bool" where
  "waits_for S c t \<longleftrightarrow> (\<exists>f k. frames S c = Some f \<and> status f = Waiting False t k)"

text \<open>
  Every frame is well-formed, and a frame with a continuation is the one its continuation waits for;
  \<open>R\<close> are frames no one waits for although they have a continuation, while they are being destroyed.
\<close>

definition heap_wf :: "nat set \<Rightarrow> 'w cstate \<Rightarrow> bool" where
  "heap_wf R S \<longleftrightarrow> heap_fresh S \<and> (\<forall>t \<in> R. \<forall>c. \<not> waits_for S c t) \<and>
     (\<forall>h f. frames S h = Some f \<longrightarrow> frame_ok S h f \<and> (\<forall>c. h \<notin> R \<longrightarrow> continuation f = Some c \<longrightarrow> waits_for S c h))"

text \<open>The frames that task objects own, with their types: those nobody awaits.\<close>

definition roots :: "'w cstate \<Rightarrow> (nat \<times> ty) set" where
  "roots S = {(h, T). \<exists>f. frames S h = Some f \<and> continuation f = None \<and> result_ty f = T}"

lemma heap_wfD:
  assumes "heap_wf R S" and "frames S h = Some f"
  shows "frame_ok S h f" and "h < next_frame S" and "h \<notin> R \<Longrightarrow> continuation f = Some c \<Longrightarrow> waits_for S c h"
proof -
  show "frame_ok S h f" "h \<notin> R \<Longrightarrow> continuation f = Some c \<Longrightarrow> waits_for S c h"
    using assms unfolding heap_wf_def by blast+
  have "heap_fresh S" using assms(1) by (simp add: heap_wf_def)
  with assms(2) show "h < next_frame S" by (force simp: heap_fresh_def not_le [symmetric])
qed

lemma waits_forD:
  assumes "heap_wf R S" and "waits_for S c t"
  shows "c < t" and "t \<notin> R" and "\<exists>g. frames S t = Some g \<and> continuation g = Some c"
  using assms heap_wfD(1) [OF assms(1)] by (fastforce simp: waits_for_def frame_ok_def heap_wf_def)+

text \<open>A frame that does not wait may change its status and result freely, within its type.\<close>

definition same_promise :: "'w frame \<Rightarrow> 'w frame \<Rightarrow> bool" where
  "same_promise f f' \<longleftrightarrow> result_ty f' = result_ty f \<and> continuation f' = continuation f \<and> is_spawn f' = is_spawn f \<and> params f' = params f"

lemma waits_for_put:
  "waits_for (put_frame h (Some f') S) c t \<longleftrightarrow>
     (if c = h then (\<exists>k. status f' = Waiting False t k) else waits_for S c t)"
  by (simp add: waits_for_def)

lemma frame_ok_put:
  assumes "frame_ok S x f" and "frames S h = Some g" and "same_promise g g'"
  shows "frame_ok (put_frame h (Some g') S) x f"
  using assms by (cases "status f") (auto simp: frame_ok_def same_promise_def)

lemma set_frame_wf:
  assumes wf: "heap_wf R S" and f: "frames S h = Some f" and same: "same_promise f f'"
    and val: "ty_of (ret_value f') = result_ty f'"
    and st: "status f' = AtEnd \<or> (\<exists>p. status f' = Run p \<and> typed (result_ty f') p)"
    and was: "\<And>t. waits_for S h t \<Longrightarrow> t \<in> R'" and R: "R \<subseteq> R'" and R': "\<And>t c. t \<in> R' \<Longrightarrow> waits_for S c t \<Longrightarrow> c = h"
  shows "heap_wf R' (put_frame h (Some f') S)" and "roots (put_frame h (Some f') S) = roots S"
proof -
  have new: "frame_ok (put_frame h (Some f') S) h f'"
    using heap_wfD(1) [OF wf f] same val st by (auto simp: frame_ok_def same_promise_def)
  have nowait: "\<not> (\<exists>k. status f' = Waiting False t k)" for t
    using st by auto
  have "waits_for (put_frame h (Some f') S) c x"
    if "frames (put_frame h (Some f') S) x = Some fx" "x \<notin> R'" "continuation fx = Some c" for x fx c
  proof -
    have "waits_for S c x"
      using that f same R by (intro heap_wfD(3) [OF wf, of x "if x = h then f else fx"]) (auto simp: same_promise_def)
    with was [of x] that(2) nowait show ?thesis by (auto simp: waits_for_put)
  qed
  moreover have "frame_ok (put_frame h (Some f') S) x fx" if "frames (put_frame h (Some f') S) x = Some fx" for x fx
    using that new frame_ok_put [OF heap_wfD(1) [OF wf] f same] by (cases "x = h") auto
  moreover have "heap_fresh (put_frame h (Some f') S)"
    using wf heap_wfD(2) [OF wf f] by (auto simp: heap_wf_def heap_fresh_def)
  ultimately show "heap_wf R' (put_frame h (Some f') S)"
    unfolding heap_wf_def
  proof (intro conjI ballI allI impI)
    show "\<not> waits_for (put_frame h (Some f') S) c t" if "t \<in> R'" for t c
      using R' [OF that, of c] nowait by (auto simp: waits_for_put)
  qed blast+
  show "roots (put_frame h (Some f') S) = roots S"
    using f same by (auto simp: roots_def same_promise_def split: if_splits)
qed

text \<open>The state outside the frames does not matter.\<close>

lemma heap_wf_world [simp]: "heap_wf R (S\<lparr>world := w\<rparr>) = heap_wf R S" "roots (S\<lparr>world := w\<rparr>) = roots S"
proof -
  have "frame_ok (S\<lparr>world := w\<rparr>) = frame_ok S" "waits_for (S\<lparr>world := w\<rparr>) = waits_for S"
    by (simp_all add: fun_eq_iff frame_ok_def waits_for_def split: status.split)
  then show "heap_wf R (S\<lparr>world := w\<rparr>) = heap_wf R S" "roots (S\<lparr>world := w\<rparr>) = roots S"
    by (simp_all add: heap_wf_def heap_fresh_def roots_def)
qed

section \<open>Destruction\<close>

text \<open>A frame being destroyed gives up the temporary it waits for, which is then awaited by nobody.\<close>

lemma drop_root_wf:
  assumes wf: "heap_wf {t} S" and g: "frames S t = Some g"
  shows "heap_wf (set (owned_tasks g)) (put_frame t None S)"
    and "roots (put_frame t None S) = {(x, T). (x, T) \<in> roots S \<and> x \<noteq> t}"
    and "owned_tasks g = [] \<or> (\<exists>u g'. owned_tasks g = [u] \<and> t < u \<and> frames S u = Some g' \<and> continuation g' \<noteq> None)"
proof -
  have ok: "frame_ok S t g" and nobody: "\<not> waits_for S c t" for c
    using heap_wfD(1) [OF wf g] wf by (auto simp: heap_wf_def)
  have w: "waits_for S t u \<longleftrightarrow> u \<in> set (owned_tasks g)" for u
    using ok g by (auto simp: waits_for_def owned_tasks_def frame_ok_def split: status.splits)
  show "owned_tasks g = [] \<or> (\<exists>u g'. owned_tasks g = [u] \<and> t < u \<and> frames S u = Some g' \<and> continuation g' \<noteq> None)"
    using ok by (auto simp: owned_tasks_def frame_ok_def split: status.splits)
  have wput: "waits_for (put_frame t None S) c x \<longleftrightarrow> c \<noteq> t \<and> waits_for S c x" for c x
    by (auto simp: waits_for_def)
  have "\<not> waits_for (put_frame t None S) c u" if "u \<in> set (owned_tasks g)" for c u
    using waits_forD(3) [OF wf, of t u] waits_forD(3) [OF wf, of c u] that w wput by fastforce
  moreover have "frame_ok (put_frame t None S) x f" if x: "frames S x = Some f" "x \<noteq> t" for x f
    using heap_wfD(1) [OF wf x(1)] nobody x
    by (cases "status f") (auto simp: frame_ok_def waits_for_def)
  moreover have "waits_for (put_frame t None S) c x"
    if x: "frames S x = Some f" "x \<noteq> t" "x \<notin> set (owned_tasks g)" "continuation f = Some c" for x f c
    using heap_wfD(3) [OF wf x(1), of c] x w wput by auto
  moreover have "heap_fresh (put_frame t None S)"
    using wf by (auto simp: heap_wf_def heap_fresh_def)
  ultimately show "heap_wf (set (owned_tasks g)) (put_frame t None S)"
    unfolding heap_wf_def by auto
  show "roots (put_frame t None S) = {(x, T). (x, T) \<in> roots S \<and> x \<noteq> t}"
    by (auto simp: roots_def split: if_splits)
qed

lemma destroy_frames_wf:
  assumes "heap_wf {t} S" and "frames S t = Some g" and "next_frame S \<le> n + t"
  shows "\<exists>S'. destroy_frames n [t] S = Inr S' \<and> heap_wf {} S' \<and> (\<forall>x < t. frames S' x = frames S x)
    \<and> roots S' = {(x, T). (x, T) \<in> roots S \<and> x \<noteq> t}"
  using assms
proof (induction n arbitrary: t S g)
  case 0
  then show ?case using heap_wfD(2) [OF 0(1,2)] by simp
next
  case (Suc n)
  note drop = drop_root_wf [OF Suc.prems(1,2)]
  show ?case
  proof (cases "owned_tasks g = []")
    case True
    then show ?thesis using drop(1,2) Suc.prems(2) by simp
  next
    case False
    then obtain u g' where u: "owned_tasks g = [u]" "t < u" "frames S u = Some g'" "continuation g' \<noteq> None"
      using drop(3) by blast
    from Suc.IH [of u "put_frame t None S" g'] drop(1) u Suc.prems(3) obtain S' where
      S': "destroy_frames n [u] (put_frame t None S) = Inr S'" "heap_wf {} S'" "\<forall>x < u. frames S' x = frames (put_frame t None S) x"
        "roots S' = {(x, T). (x, T) \<in> roots (put_frame t None S) \<and> x \<noteq> u}"
      by auto
    moreover have "(u, T) \<notin> roots S" for T
      using u(3,4) by (auto simp: roots_def)
    ultimately show ?thesis
      using drop(2) u(1,2) Suc.prems(2) by (intro exI [of _ S']) auto
  qed
qed

lemma destroy_root:
  assumes "heap_wf {t} S" and "frames S t = Some g"
  shows "\<exists>S'. destroy t S = Inr S' \<and> heap_wf {} S' \<and> (\<forall>x < t. frames S' x = frames S x)
    \<and> roots S' = {(x, T). (x, T) \<in> roots S \<and> x \<noteq> t}"
  unfolding destroy_def by (rule destroy_frames_wf [OF assms]) simp

text \<open>Destruction does not look at frames it leaves alone.\<close>

lemma destroy_frames_gone: "destroy_frames n hs S = Inr S' \<Longrightarrow> frames S h = None \<Longrightarrow> frames S' h = None"
  by (induction n arbitrary: hs S) (auto split: list.splits option.splits if_splits)

lemma destroy_frames_frame:
  "destroy_frames n hs S = Inr S' \<Longrightarrow> frames S' h \<noteq> None \<Longrightarrow> destroy_frames n hs (put_frame h x S) = Inr (put_frame h x S')"
proof (induction n arbitrary: hs S)
  case (Suc n)
  show ?case
  proof (cases hs)
    case (Cons a hs')
    then obtain f where f: "frames S a = Some f" "destroy_frames n (owned_tasks f @ hs') (put_frame a None S) = Inr S'"
      using Suc.prems(1) by (auto split: option.splits)
    then have "a \<noteq> h"
      using destroy_frames_gone [of n _ "put_frame a None S" S' h] Suc.prems(2) by auto
    moreover have "put_frame a None (put_frame h x S) = put_frame h x (put_frame a None S)" if "a \<noteq> h"
      using that by (simp add: put_frame_def fun_upd_twist)
    ultimately show ?thesis
      using Suc.IH [OF f(2) Suc.prems(2)] f(1) Cons by simp
  qed (use Suc.prems in simp)
qed (auto split: if_splits)

section \<open>Every resumption is safe\<close>

lemma not_waiting: "frames S h = Some f \<Longrightarrow> status f = Run p \<Longrightarrow> \<not> waits_for S h t"
  by (simp add: waits_for_def)

text \<open>A running frame that goes on, stops or ends.\<close>

lemma run_frame_wf:
  assumes "heap_wf {} S" and "frames S h = Some f" and "status f = Run p" and "same_promise f f'"
    and "ty_of (ret_value f') = result_ty f'" and "status f' = AtEnd \<or> (\<exists>p. status f' = Run p \<and> typed (result_ty f') p)"
  shows "heap_wf {} (put_frame h (Some f') S)" and "roots (put_frame h (Some f') S) = roots S"
  using set_frame_wf [OF assms(1,2,4,5,6), of "{}"] not_waiting [OF assms(2,3)] by auto

lemma ended_ok:
  assumes "frame_ok S h f" and "r = Inl e \<or> r = Inr v \<and> ty_of v = result_ty f"
  shows "same_promise f (ended r f)" and "ty_of (ret_value (ended r f)) = result_ty (ended r f)"
  using assms by (auto simp: same_promise_def ended_def frame_ok_def split: if_splits)

text \<open>What a jump leads to: a well-formed heap with the same owned frames, and a handle that can be resumed.\<close>

definition safe_jump :: "'w cstate \<Rightarrow> 'w cstate jump res \<Rightarrow> bool" where
  "safe_jump S j \<longleftrightarrow>
     (case j of
        Inl e \<Rightarrow> False
      | Inr (Stop S') \<Rightarrow> heap_wf {} S' \<and> roots S' = roots S
      | Inr (Goto h S') \<Rightarrow> heap_wf {} S' \<and> roots S' = roots S \<and> (\<exists>f. frames S' h = Some f \<and> status f \<noteq> AtEnd))"

lemma complete_safe:
  assumes wf: "heap_wf {} S" and f: "frames S h = Some f" "status f = Run p" and r: "r = Inl e \<or> r = Inr v \<and> ty_of v = result_ty f"
  shows "safe_jump S (complete h r f S)"
proof -
  note ok = heap_wfD(1) [OF wf f(1)]
  note e = ended_ok [OF ok r]
  note w = run_frame_wf [OF wf f e, simplified]
  have sp: "\<not> is_spawn f" using ok by (simp add: frame_ok_def)
  show ?thesis
  proof (cases "continuation f")
    case None
    then show ?thesis using sp w by (simp add: safe_jump_def complete_def finish_frame_ended final_suspend_def)
  next
    case (Some c)
    with heap_wfD(3) [OF wf f(1)] have "waits_for S c h" by simp
    then obtain fc k where "frames S c = Some fc" "status fc = Waiting False h k" by (auto simp: waits_for_def)
    moreover from this have "c \<noteq> h" using f by auto
    ultimately show ?thesis
      using sp w Some by (simp add: safe_jump_def complete_def finish_frame_ended final_suspend_def)
  qed
qed

lemma call_safe:
  assumes wf: "heap_wf {} S" and f: "frames S h = Some f" "status f = Run (Call T q k)"
  shows "safe_jump S (run_to_jump g h f (Call T q k) S)"
proof -
  let ?t = "next_frame S"
  let ?f = "f\<lparr>status := Waiting False ?t k\<rparr>" and ?c = "(new_frame g T q)\<lparr>continuation := Some h\<rparr>"
  let ?S = "put_frame ?t (Some ?c) (put_frame h (Some ?f) (S\<lparr>next_frame := Suc ?t\<rparr>))"
  have h: "h < ?t" and free: "frames S ?t = None" and ok: "frame_ok S h f" and fresh: "heap_fresh S"
    using heap_wfD [OF wf f(1)] wf by (auto simp: heap_wf_def heap_fresh_def)
  have t: "typed T q" "rest_typed T (result_ty f) k"
    using ok f(2) by (auto simp: frame_ok_def rest_typed_def)
  have fr: "frames ?S = (frames S)(h \<mapsto> ?f, ?t \<mapsto> ?c)" by simp
  have old: "frame_ok ?S x fx" if x: "frames S x = Some fx" "x \<noteq> h" for x fx
    using heap_wfD(1,2) [OF wf x(1)] free f h by (cases "status fx") (auto simp: frame_ok_def)
  have "frame_ok ?S h ?f" "frame_ok ?S ?t ?c"
    using ok h t by (auto simp: frame_ok_def new_frame_def)
  then have all: "frame_ok ?S x fx" if "frames ?S x = Some fx" for x fx
    using that old unfolding fr by (auto split: if_splits)
  have wt: "waits_for ?S c x \<longleftrightarrow> c = h \<and> x = ?t \<or> c \<noteq> h \<and> waits_for S c x" for c x
    using h free f(2) by (auto simp: waits_for_def new_frame_def)
  have cont: "waits_for S c x \<and> c \<noteq> h" if "frames S x = Some fx" "continuation fx = Some c" for x fx c
    using heap_wfD(3) [OF wf that(1)] that(2) not_waiting [OF f] by auto
  have "waits_for ?S c x" if "frames ?S x = Some fx" "continuation fx = Some c" for x fx c
    using that cont [of x _ c] f h unfolding fr wt by (auto simp: new_frame_def split: if_splits)
  then have "heap_wf {} ?S"
    using all fresh h by (auto simp: heap_wf_def heap_fresh_def)
  moreover have "roots ?S = roots S"
    using f h free unfolding roots_def fr by (auto simp: new_frame_def split: if_splits)
  moreover have "run_to_jump g h f (Call T q k) S = Inr (Goto ?t ?S)"
    using h by (simp add: create_def Task_await_suspend_def put_frame_def fun_upd_twist)
  ultimately show ?thesis
    by (simp add: safe_jump_def new_frame_def)
qed

lemma run_safe:
  assumes wf: "heap_wf {} S" and f: "frames S h = Some f" "status f = Run p"
  shows "safe_jump S (run_to_jump g h f p S)"
proof -
  have ok: "frame_ok S h f" and t: "typed (result_ty f) p"
    using heap_wfD(1) [OF wf f(1)] f(2) by (simp_all add: frame_ok_def)
  have go: "heap_wf {} (put_frame h (Some (f\<lparr>status := Run q\<rparr>)) (S\<lparr>world := w\<rparr>))
      \<and> roots (put_frame h (Some (f\<lparr>status := Run q\<rparr>)) (S\<lparr>world := w\<rparr>)) = roots S" if "typed (result_ty f) q" for q w
    using run_frame_wf [of "S\<lparr>world := w\<rparr>" h f p "f\<lparr>status := Run q\<rparr>"] wf f ok that by (simp add: same_promise_def frame_ok_def)
  show ?thesis
  proof (cases p)
    case (Ret v)
    then show ?thesis using complete_safe [OF wf f, of "Inr v" _ v] t by simp
  next
    case (Raise e)
    then show ?thesis using complete_safe [OF wf f, of "Inl e"] by simp
  next
    case (Do act)
    with t obtain w q where "act (world S) = Inr (w, q)" "typed (result_ty f) q" by (auto dest: spec [of _ "world S"])
    with Do go show ?thesis by (simp add: safe_jump_def)
  next
    case (Park suspend q)
    with t obtain w where "suspend h (world S) = Inr w" "typed (result_ty f) q" by (auto dest: spec [of _ "world S"])
    with Park go show ?thesis by (simp add: safe_jump_def)
  next
    case (Call T q k)
    then show ?thesis using call_safe [OF wf f(1)] f(2) by simp
  next
    case (Join u k)
    with t show ?thesis by simp
  qed
qed

lemma await_result_typed:
  "frames S t = Some g \<Longrightarrow> ty_of (ret_value g) = result_ty g \<Longrightarrow>
     \<exists>r. await_result (result_ty g) t S = Inr r \<and> (\<forall>v. r = Inr v \<longrightarrow> ty_of v = result_ty g)"
  by (auto simp: await_result_def TaskVoid_await_resume_def Task_await_resume_def as_val_def split: option.split)

lemma wait_safe:
  assumes wf: "heap_wf {} S" and f: "frames S h = Some f" "status f = Waiting keep t k"
  shows "safe_jump S (resume_step g h S)"
proof -
  have ok: "frame_ok S h f" by (rule heap_wfD(1) [OF wf f(1)])
  then obtain gt where t: "\<not> keep" "h < t" "frames S t = Some gt" "continuation gt = Some h" "rest_typed (result_ty gt) (result_ty f) k"
    using f(2) by (auto simp: frame_ok_def)
  from await_result_typed [OF t(3)] heap_wfD(1) [OF wf t(3)] obtain r where
    r: "await_result (result_ty gt) t S = Inr r" "\<And>v. r = Inr v \<Longrightarrow> ty_of v = result_ty gt"
    by (auto simp: frame_ok_def)
  let ?f = "f\<lparr>status := Run (k r)\<rparr>" and ?S = "put_frame h (Some (f\<lparr>status := Run (k r)\<rparr>)) S"
  have "typed (result_ty f) (k r)"
    using t(5) r(2) by (cases r) (auto simp: rest_typed_def)
  then have wf': "heap_wf {t} ?S" and roots: "roots ?S = roots S"
    using set_frame_wf [OF wf f(1), of ?f "{t}"] ok f waits_forD(3) [OF wf, of _ t] t(3,4)
    by (auto simp: same_promise_def frame_ok_def waits_for_def)
  have gt: "frames ?S t = Some gt" using t by simp
  obtain S1 where S1: "destroy t ?S = Inr S1" "heap_wf {} S1" "\<forall>x < t. frames S1 x = frames ?S x"
      "roots S1 = {(x, T). (x, T) \<in> roots ?S \<and> x \<noteq> t}"
    using destroy_root [OF wf' gt] by blast
  have h: "frames S1 h = Some ?f" using S1(3) t(2) by simp
  have "destroy t (put_frame h (Some f) ?S) = Inr (put_frame h (Some f) S1)"
    using destroy_frames_frame [of "Suc (next_frame S)" "[t]" ?S S1 h "Some f"] S1(1) h by (simp add: destroy_def)
  moreover have "put_frame h (Some f) ?S = S" using f(1) by (simp add: put_frame_same)
  moreover have "put_frame h (Some ?f) S1 = S1" using h by (rule put_frame_same)
  moreover have "(t, T) \<notin> roots S" for T
    using t(3,4) by (simp add: roots_def)
  then have "roots S1 = roots S"
    unfolding S1(4) roots by auto
  ultimately show ?thesis
    using f t(1,3) r(1) S1(2) h by (simp add: resume_step_def safe_jump_def)
qed

lemma resume_step_safe:
  assumes "heap_wf {} S" and "frames S h = Some f" and "status f \<noteq> AtEnd"
  shows "safe_jump S (resume_step g h S)"
proof (cases "status f")
  case (Run p)
  then show ?thesis using run_safe [OF assms(1,2) Run] assms(2) by (simp add: resume_step_def)
next
  case (Waiting keep t k)
  then show ?thesis by (rule wait_safe [OF assms(1,2)])
qed (use assms in simp)
lemmas resume_induct [consumes 1, case_names step] = resume.raw_induct [rotated]
lemmas get_loop_induct [consumes 1, case_names step] = get_loop.raw_induct [rotated]

lemma resume_safe:
  "resume g h S = Some x \<Longrightarrow> heap_wf {} S \<and> (\<exists>f. frames S h = Some f \<and> status f \<noteq> AtEnd) \<longrightarrow>
     (\<exists>S'. x = Inr S' \<and> heap_wf {} S' \<and> roots S' = roots S)"
proof (induction rule: resume_induct)
  case (step resume' g h S x)
  show ?case
  proof (intro impI)
    assume pre: "heap_wf {} S \<and> (\<exists>f. frames S h = Some f \<and> status f \<noteq> AtEnd)"
    then have safe: "safe_jump S (resume_step g h S)"
      using resume_step_safe by blast
    show "\<exists>S'. x = Inr S' \<and> heap_wf {} S' \<and> roots S' = roots S"
    proof (cases "resume_step g h S")
      case (Inr j)
      show ?thesis
      proof (cases j)
        case (Goto h' S1)
        with Inr safe have S1: "heap_wf {} S1 \<and> (\<exists>f. frames S1 h' = Some f \<and> status f \<noteq> AtEnd)" "roots S1 = roots S"
          by (simp_all add: safe_jump_def)
        from step(2) Inr Goto have "resume' g h' S1 = Some x" by simp
        from step(1) [OF this] S1 show ?thesis by simp
      qed (use step(2) Inr safe in \<open>auto simp: safe_jump_def\<close>)
    qed (use safe in \<open>simp add: safe_jump_def\<close>)
  qed
qed

lemma root_frame: "(h, T) \<in> roots S \<Longrightarrow> \<exists>f. frames S h = Some f \<and> continuation f = None \<and> result_ty f = T"
  by (simp add: roots_def)

lemma get_loop_safe:
  "get_loop g h S = Some x \<Longrightarrow> heap_wf {} S \<and> (h, T) \<in> roots S \<longrightarrow>
     (\<exists>S'. x = Inr S' \<and> heap_wf {} S' \<and> roots S' = roots S)"
proof (induction rule: get_loop_induct)
  case (step loop' g h S x)
  show ?case
  proof (intro impI)
    assume pre: "heap_wf {} S \<and> (h, T) \<in> roots S"
    then obtain f where f: "frames S h = Some f" by (auto dest: root_frame)
    show "\<exists>S'. x = Inr S' \<and> heap_wf {} S' \<and> roots S' = roots S"
    proof (cases "status f = AtEnd")
      case True
      then show ?thesis using step(2) f pre by (auto simp: is_done_def)
    next
      case False
      with step(2) f obtain y where y: "resume g h S = Some y"
        by (auto simp: is_done_def split: option.splits)
      with resume_safe [OF y] pre f False obtain S1 where "y = Inr S1" "heap_wf {} S1" "roots S1 = roots S" by auto
      then have S1: "heap_wf {} S1 \<and> (h, T) \<in> roots S1" "roots S1 = roots S" and "loop' g h S1 = Some x"
        using step(2) y f False pre by (simp_all add: is_done_def)
      from step(1) [OF this(3)] S1 show ?thesis by simp
    qed
  qed
qed

text \<open>Both forms of \<^verbatim>\<open>get\<close> on an owned frame return, if at all, without a fault and a value of the task's type.\<close>

lemma Task_get_safe:
  assumes "heap_wf {} S" and "(h, T) \<in> roots S" and "Task_get g (Some h) S = Some y"
  shows "\<exists>r S'. y = Inr (r, S') \<and> (\<forall>v. r = Inr v \<longrightarrow> ty_of v = T) \<and> heap_wf {} S' \<and> roots S' = roots S"
proof -
  obtain x where x: "get_loop g h S = Some x"
    using assms(3) by (auto simp: Task_get_def split: option.splits)
  with get_loop_safe [OF x] assms(1,2) obtain S' where S': "x = Inr S'" "heap_wf {} S'" "roots S' = roots S" by auto
  with assms(2) obtain f where f: "frames S' h = Some f" "result_ty f = T" by (auto dest: root_frame)
  moreover have "ty_of (ret_value f) = result_ty f"
    using heap_wfD(1) [OF S'(2) f(1)] by (simp add: frame_ok_def)
  ultimately show ?thesis
    using assms(3) x S' by (auto simp: Task_get_def Task_await_resume_def split: option.splits)
qed

lemma TaskVoid_get_safe:
  assumes "heap_wf {} S" and "(h, T) \<in> roots S" and "TaskVoid_get g (Some h) S = Some y"
  shows "\<exists>r S'. y = Inr (r, S') \<and> heap_wf {} S' \<and> roots S' = roots S"
proof -
  obtain x where x: "get_loop g h S = Some x"
    using assms(3) by (auto simp: TaskVoid_get_def split: option.splits)
  with get_loop_safe [OF x] assms(1,2) obtain S' where "x = Inr S'" "heap_wf {} S'" "roots S' = roots S" by auto
  moreover from this assms(2) obtain f where "frames S' h = Some f" by (auto dest: root_frame)
  ultimately show ?thesis
    using assms(3) x by (auto simp: TaskVoid_get_def TaskVoid_await_resume_def)
qed

lemma Task_dtor_safe:
  assumes "heap_wf {} S" and "\<And>h. t = Some h \<Longrightarrow> \<exists>T. (h, T) \<in> roots S"
  shows "\<exists>S'. Task_dtor t S = Inr S' \<and> heap_wf {} S' \<and> roots S' = {(x, T). (x, T) \<in> roots S \<and> t \<noteq> Some x}"
proof (cases t)
  case None
  then show ?thesis using assms(1) by (simp add: Task_dtor_def)
next
  case (Some h)
  then obtain f where f: "frames S h = Some f" "continuation f = None" using assms(2) by (auto dest: root_frame)
  have "heap_wf {h} S"
    using assms(1) waits_forD(3) [OF assms(1), of _ h] f by (fastforce simp: heap_wf_def)
  from destroy_root [OF this f(1)] Some show ?thesis by (auto simp: Task_dtor_def)
qed

lemma create_wf:
  assumes wf: "heap_wf {} S" and p: "typed T p" and c: "create (new_frame g T p) S = (h, S')"
  shows "heap_wf {} S'" and "roots S' = insert (h, T) (roots S)" and "h \<notin> fst ` roots S"
proof -
  have h: "h = next_frame S" and S': "frames S' = (frames S)(h \<mapsto> new_frame g T p)" "next_frame S' = Suc h"
    using c by (auto simp: create_def)
  have free: "frames S h = None" and fresh: "heap_fresh S" using wf h by (auto simp: heap_wf_def heap_fresh_def)
  have new: "frame_ok S' h (new_frame g T p)" using p by (simp add: frame_ok_def new_frame_def)
  have old: "frame_ok S' x f" if "frames S x = Some f" for x f
    using heap_wfD(1) [OF wf that] free by (cases "status f") (auto simp: frame_ok_def S')
  have w: "waits_for S' c x" if "waits_for S c x" for c x
    using that free by (auto simp: waits_for_def S')
  show "heap_wf {} S'"
    using new old w heap_wfD(3) [OF wf] fresh h unfolding heap_wf_def
    by (auto simp: S' heap_fresh_def new_frame_def split: if_splits)
  show "roots S' = insert (h, T) (roots S)"
    using free by (auto simp: roots_def S' new_frame_def split: if_splits)
  show "h \<notin> fst ` roots S" using free by (auto simp: roots_def)
qed

text \<open>When no task is left, no frame is left: the oldest frame is awaited by no other.\<close>

lemma no_roots_no_frames:
  assumes wf: "heap_wf {} S" and "roots S = {}"
  shows "frames S = (\<lambda>_. None)"
proof (rule ccontr)
  assume "frames S \<noteq> (\<lambda>_. None)"
  then have ex: "\<exists>h. frames S h \<noteq> None" by auto
  define h where "h = (LEAST h. frames S h \<noteq> None)"
  then obtain f where f: "frames S h = Some f"
    using LeastI_ex [OF ex] by auto
  moreover have "(h, result_ty f) \<notin> roots S" using assms(2) by simp
  ultimately obtain c where "continuation f = Some c" by (auto simp: roots_def)
  with heap_wfD(3) [OF wf f] have w: "waits_for S c h" by simp
  with waits_forD(1) [OF wf w] have "c < h" "frames S c \<noteq> None" by (auto simp: waits_for_def)
  with not_less_Least [of c "\<lambda>h. frames S h \<noteq> None"] show False by (simp add: h_def)
qed

section \<open>Programs that own tasks\<close>

text \<open>Live \<^verbatim>\<open>Task\<close> objects by address, and the coroutine heap.\<close>

record 'w task_store =
  objs :: "nat \<Rightarrow> task option"
  heap :: "'w cstate"

inductive task_step :: "'w task_store \<Rightarrow> 'w task_store \<Rightarrow> bool" where
  ts_make: "objs s a = None \<Longrightarrow> typed T p \<Longrightarrow> create (new_frame g T p) (heap s) = (h, S') \<Longrightarrow>
    task_step s \<lparr>objs = (objs s)(a \<mapsto> Task_ctor h), heap = S'\<rparr>"
| ts_move: "objs s a = Some t \<Longrightarrow> objs s b = None \<Longrightarrow> Task_move t = (t1, t2) \<Longrightarrow>
    task_step s (s\<lparr>objs := (objs s)(b \<mapsto> t1, a \<mapsto> t2)\<rparr>)"
| ts_assign: "objs s a = Some t \<Longrightarrow> objs s b = Some u \<Longrightarrow> Task_move_assign (a = b) t u (heap s) = Inr (t1, u1, S') \<Longrightarrow>
    task_step s \<lparr>objs = (objs s)(a \<mapsto> t1, b \<mapsto> u1), heap = S'\<rparr>"
| ts_dtor: "objs s a = Some t \<Longrightarrow> Task_dtor t (heap s) = Inr S' \<Longrightarrow> task_step s \<lparr>objs = (objs s)(a := None), heap = S'\<rparr>"
| ts_get: "objs s a = Some t \<Longrightarrow> Task_get g t (heap s) = Some (Inr (r, S')) \<Longrightarrow> task_step s (s\<lparr>heap := S'\<rparr>)"
| ts_get_void: "objs s a = Some t \<Longrightarrow> TaskVoid_get g t (heap s) = Some (Inr (u, S')) \<Longrightarrow> task_step s (s\<lparr>heap := S'\<rparr>)"

definition task_start :: "'w task_store \<Rightarrow> bool" where
  "task_start s \<longleftrightarrow> objs s = (\<lambda>_. None) \<and> (\<exists>w. heap s = empty_heap w)"

text \<open>Every owned frame belongs to exactly one object.\<close>

definition owners_ok :: "'w task_store \<Rightarrow> bool" where
  "owners_ok s \<longleftrightarrow> heap_wf {} (heap s) \<and> (\<forall>h. (\<exists>T. (h, T) \<in> roots (heap s)) \<longleftrightarrow> (\<exists>a. objs s a = Some (Some h))) \<and>
     (\<forall>a b h. objs s a = Some (Some h) \<longrightarrow> objs s b = Some (Some h) \<longrightarrow> a = b)"

lemma owners_okD:
  assumes "owners_ok s"
  shows "heap_wf {} (heap s)" and "objs s a = Some (Some h) \<Longrightarrow> \<exists>T. (h, T) \<in> roots (heap s)"
    and "(h, T) \<in> roots (heap s) \<Longrightarrow> \<exists>a. objs s a = Some (Some h)"
    and "objs s a = Some (Some h) \<Longrightarrow> objs s b = Some (Some h) \<Longrightarrow> a = b"
  using assms unfolding owners_ok_def by blast+

lemma task_start_ok: "task_start s \<Longrightarrow> owners_ok s"
  by (auto simp: task_start_def owners_ok_def heap_wf_def roots_def)

lemma task_dtor_of:
  assumes ok: "owners_ok s" and t: "objs s a = Some t"
  shows "\<exists>S'. Task_dtor t (heap s) = Inr S' \<and> heap_wf {} S' \<and> roots S' = {(x, T). (x, T) \<in> roots (heap s) \<and> t \<noteq> Some x}"
  using owners_okD(2) [OF ok] t by (intro Task_dtor_safe owners_okD(1) [OF ok]) auto

lemma task_get_of:
  assumes ok: "owners_ok s" and t: "objs s a = Some t" and y: "Task_get g t (heap s) = Some y"
  shows "\<exists>r S'. y = Inr (r, S') \<and> heap_wf {} S' \<and> roots S' = roots (heap s)"
proof (cases t)
  case None
  then show ?thesis using y owners_okD(1) [OF ok] by (auto simp: Task_get_def)
next
  case (Some h)
  with owners_okD(2) [OF ok] t obtain T where "(h, T) \<in> roots (heap s)" by blast
  with Task_get_safe [OF owners_okD(1) [OF ok] this] y Some show ?thesis by blast
qed

lemma task_get_void_of:
  assumes ok: "owners_ok s" and t: "objs s a = Some t" and y: "TaskVoid_get g t (heap s) = Some y"
  shows "\<exists>r S'. y = Inr (r, S') \<and> heap_wf {} S' \<and> roots S' = roots (heap s)"
proof (cases t)
  case None
  then show ?thesis using y owners_okD(1) [OF ok] by (auto simp: TaskVoid_get_def)
next
  case (Some h)
  with owners_okD(2) [OF ok] t obtain T where "(h, T) \<in> roots (heap s)" by blast
  with TaskVoid_get_safe [OF owners_okD(1) [OF ok] this] y Some show ?thesis by blast
qed

lemma task_step_ok: "task_step s s' \<Longrightarrow> owners_ok s \<Longrightarrow> owners_ok s'"
proof (induction rule: task_step.induct)
  case (ts_make s a T p g h S')
  note c = create_wf [OF owners_okD(1) [OF ts_make.prems] ts_make.hyps(2,3)]
  have "h' \<noteq> h" if "objs s b = Some (Some h')" for b h'
    using owners_okD(2) [OF ts_make.prems that] c(3) by force
  moreover have "(\<exists>b. ((objs s)(a \<mapsto> Task_ctor h)) b = Some (Some h')) \<longleftrightarrow> h' = h \<or> (\<exists>b. objs s b = Some (Some h'))" for h'
    using ts_make.hyps(1) by (auto simp: Task_ctor_def) (metis option.distinct(1))
  ultimately show ?case
    using c(1,2) owners_okD(2,3,4) [OF ts_make.prems] unfolding owners_ok_def
    by (auto simp: Task_ctor_def simp del: fun_upd_apply) (fastforce simp: Task_ctor_def split: if_splits)+
next
  case (ts_move s a t b t1 t2)
  have "(\<exists>x. ((objs s)(b \<mapsto> t1, a \<mapsto> t2)) x = Some (Some h)) \<longleftrightarrow> (\<exists>x. objs s x = Some (Some h))" for h
    using ts_move.hyps by (auto simp: Task_move_def) (metis option.distinct(1) option.inject)
  with ts_move show ?case
    unfolding owners_ok_def by (auto simp: Task_move_def simp del: fun_upd_apply) (auto split: if_splits)
next
  case (ts_assign s a t b u t1 u1 S')
  show ?case
  proof (cases "a = b")
    case True
    with ts_assign.hyps have "(objs s)(a \<mapsto> t1, b \<mapsto> u1) = objs s" "S' = heap s"
      by (auto simp: Task_move_assign_def fun_eq_iff)
    then show ?thesis using ts_assign.prems by (simp add: owners_ok_def)
  next
    case ne: False
    from task_dtor_of [OF ts_assign.prems ts_assign.hyps(1)] obtain S2 where
      S2: "Task_dtor t (heap s) = Inr S2" "heap_wf {} S2" "roots S2 = {(x, T). (x, T) \<in> roots (heap s) \<and> t \<noteq> Some x}" by blast
    then have eqs: "S' = S2" "t1 = u" "u1 = None"
      using ts_assign.hyps(3) ne by (auto simp: Task_move_assign_def Task_dtor_def)
    have "(\<exists>x. ((objs s)(a \<mapsto> u, b \<mapsto> None)) x = Some (Some h)) \<longleftrightarrow> (\<exists>x. objs s x = Some (Some h)) \<and> t \<noteq> Some h" for h
      using ts_assign.hyps(1,2) ne owners_okD(4) [OF ts_assign.prems] by auto (metis option.inject)+
    with eqs S2 ts_assign ne show ?thesis
      unfolding owners_ok_def by (auto simp del: fun_upd_apply) (auto split: if_splits)
  qed
next
  case (ts_dtor s a t S')
  from task_dtor_of [OF ts_dtor.prems ts_dtor.hyps(1)] ts_dtor.hyps(2) have
    S': "heap_wf {} S'" "roots S' = {(x, T). (x, T) \<in> roots (heap s) \<and> t \<noteq> Some x}" by auto
  have "(\<exists>x. ((objs s)(a := None)) x = Some (Some h)) \<longleftrightarrow> (\<exists>x. objs s x = Some (Some h)) \<and> t \<noteq> Some h" for h
    using ts_dtor.hyps(1) owners_okD(4) [OF ts_dtor.prems] by auto (metis option.inject)+
  with S' ts_dtor show ?case
    unfolding owners_ok_def by (auto simp del: fun_upd_apply) (auto split: if_splits)
next
  case (ts_get s a t g r S')
  from task_get_of [OF ts_get.prems ts_get.hyps] have "heap_wf {} S'" "roots S' = roots (heap s)" by auto
  with ts_get show ?case by (simp add: owners_ok_def)
next
  case (ts_get_void s a t g u S')
  from task_get_void_of [OF ts_get_void.prems ts_get_void.hyps] have "heap_wf {} S'" "roots S' = roots (heap s)" by auto
  with ts_get_void show ?case by (simp add: owners_ok_def)
qed

interpretation owners: invariant_machine task_start task_step owners_ok
  by unfold_locales (blast intro: task_start_ok task_step_ok)+
section \<open>Properties\<close>

text \<open>A program that makes one task: the nested sample body, which also suspends.\<close>

definition sample_owner :: "string list task_store" where
  "sample_owner = \<lparr>objs = [0 \<mapsto> Task_ctor 0], heap = snd (create (new_frame 0 TInt sample_nested) (empty_heap []))\<rparr>"

lemma sample_nested_typed: "typed TInt sample_nested"
  by (auto simp: sample_nested_def rethrow_def stmt_def SuspendAlways_def co_await_def split: sum.split)

lemma sample_owner_reachable: "reachable task_start task_step sample_owner"
proof (rule reachable_step)
  show "reachable task_start task_step \<lparr>objs = (\<lambda>_. None), heap = empty_heap []\<rparr>"
    by (rule reachable_start) (auto simp: task_start_def)
  show "task_step \<lparr>objs = (\<lambda>_. None), heap = empty_heap []\<rparr> sample_owner"
    using ts_make [of "\<lparr>objs = (\<lambda>_. None), heap = empty_heap []\<rparr>" 0, OF _ sample_nested_typed, of 0 0]
    by (simp add: sample_owner_def create_def)
qed

text \<open>C7. Ownership of frames: in every reachable state of such a program, destroying any task object succeeds and no
  \<^verbatim>\<open>get\<close> ends in a fault, so no frame is used after its destruction or destroyed twice; and when all task
  objects are gone, all frames are gone, also those of callees abandoned on the way.\<close>

theorem tasks_own_their_frames:
  assumes "reachable task_start task_step s"
  shows "(\<forall>a t. objs s a = Some t \<longrightarrow>
            (\<exists>S'. Task_dtor t (heap s) = Inr S') \<and> (\<forall>g e. Task_get g t (heap s) \<noteq> Some (Inl e) \<and> TaskVoid_get g t (heap s) \<noteq> Some (Inl e)))
    \<and> (objs s = (\<lambda>_. None) \<longrightarrow> frames (heap s) = (\<lambda>_. None))"
proof (intro conjI allI impI)
  have ok: "owners_ok s" by (rule owners.reachable_inv [OF assms])
  show "\<exists>S'. Task_dtor t (heap s) = Inr S'" if "objs s a = Some t" for a t
    using task_dtor_of [OF ok that] by blast
  show "Task_get g t (heap s) \<noteq> Some (Inl e)" "TaskVoid_get g t (heap s) \<noteq> Some (Inl e)" if "objs s a = Some t" for a t g e
    using task_get_of [OF ok that] task_get_void_of [OF ok that] by fastforce+
  assume "objs s = (\<lambda>_. None)"
  then have "roots (heap s) = {}" using owners_okD(3) [OF ok] by fastforce
  then show "frames (heap s) = (\<lambda>_. None)" by (rule no_roots_no_frames [OF owners_okD(1) [OF ok]])
qed

theorem tasks_own_their_frames_witness:
  "\<exists>S'. Task_dtor (Some 0) (heap sample_owner) = Inr S' \<and> frames S' = (\<lambda>_. None)"
proof -
  have o: "objs sample_owner 0 = Some (Some 0)" by (simp add: sample_owner_def Task_ctor_def)
  then obtain S' where S': "Task_dtor (Some 0) (heap sample_owner) = Inr S'"
    using tasks_own_their_frames [OF sample_owner_reachable] by blast
  let ?s = "\<lparr>objs = (objs sample_owner)(0 := None), heap = S'\<rparr>"
  have "reachable task_start task_step ?s"
    by (rule reachable_step [OF sample_owner_reachable ts_dtor [OF o S']])
  from tasks_own_their_frames [OF this] have "frames S' = (\<lambda>_. None)" by (simp add: sample_owner_def)
  with S' show ?thesis by blast
qed

end
