(* ===== verification/CoroDemo.thy ===== *)
theory CoroDemo
  imports TaskSafety
begin

text \<open>
  The demonstration program \<^verbatim>\<open>examples/coro_basic_demo.cc\<close>: its five coroutines and its \<^verbatim>\<open>main\<close>. The outside state
  of the coroutines is what was printed so far, one string per output expression.
\<close>

section \<open>Coroutines\<close>

type_synonym console = "string list"

definition nl :: string where
  "nl = [CHR 10]"

text \<open>\<^verbatim>\<open>std::cout << ... << std::endl\<close>.\<close>

definition say :: "string \<Rightarrow> console \<Rightarrow> console" where
  "say s out = out @ [s @ nl]"

text \<open>How an \<^verbatim>\<open>int\<close> is printed.\<close>

definition show_int :: "int \<Rightarrow> string" where
  "show_int i = (if i < 0 then ''-'' @ dec (nat (- i)) else dec (nat i))"

text \<open>\<^verbatim>\<open>co_await\<close> of a task whose exception the body does not catch.\<close>

definition await_val :: "ty \<Rightarrow> console prog \<Rightarrow> (val \<Rightarrow> console prog) \<Rightarrow> console prog" where
  "await_val T q k = Call T q (\<lambda>r. case r of Inl e \<Rightarrow> Raise e | Inr v \<Rightarrow> k v)"

definition computeValue :: "console prog" where
  "computeValue = stmt (say ''Computing...'') (Ret (VInt 42))"

definition int_ok :: "int \<Rightarrow> bool" where
  "int_ok i \<longleftrightarrow> - 2147483648 \<le> i \<and> i \<le> 2147483647"

definition multiplyByTwo :: "int \<Rightarrow> console prog" where
  "multiplyByTwo x = Do (\<lambda>out. if int_ok (x * 2) then Inr (out, Ret (VInt (x * 2))) else Inl SignedOverflow)"

fun int_of_val :: "val \<Rightarrow> int" where
  "int_of_val (VInt i) = i"
| "int_of_val _ = 0"

definition computeAndDouble :: "console prog" where
  "computeAndDouble =
     await_val TInt computeValue
       (\<lambda>v. let val = int_of_val v in
          stmt (say (''Got value: '' @ show_int val))
            (await_val TInt (multiplyByTwo val) (\<lambda>doubled. Ret doubled)))"

definition mightFail :: "bool \<Rightarrow> console prog" where
  "mightFail shouldFail =
     (if shouldFail then Raise (RuntimeError ''Operation failed'') else Ret (VString ''Success!''))"

definition printMessage :: "console prog" where
  "printMessage = stmt (say ''Hello from coroutine!'') (Ret VVoid)"

section \<open>The main program\<close>

text \<open>
  Statements of \<^verbatim>\<open>main\<close> may throw, fault, or not return. \<open>with_task\<close> is a block with a local task: the task
  is made, the block gets what \<^verbatim>\<open>get()\<close> returned or threw, and the task is destroyed at the end of the
  block, or before a handler outside it runs.
\<close>

type_synonym 'a stmt_result = "('a res \<times> console cstate) res option"

definition with_task :: "int \<Rightarrow> ty \<Rightarrow> console prog \<Rightarrow> (val \<Rightarrow> console \<Rightarrow> console) \<Rightarrow> console cstate \<Rightarrow> unit stmt_result" where
  "with_task garbage T p use S =
     (let (h, S1) = create (new_frame garbage T p) S; task = Task_ctor h;
          got = (if T = TVoid
                 then map_option (\<lambda>m. bind_res m (\<lambda>(r, S2). Inr (as_val r, S2))) (TaskVoid_get garbage task S1)
                 else Task_get garbage task S1) in
      map_option (\<lambda>m. bind_res m
        (\<lambda>(r, S2). let S3 = (case r of Inl e \<Rightarrow> S2 | Inr v \<Rightarrow> S2\<lparr>world := use v (world S2)\<rparr>) in
           bind_res (Task_dtor task S3) (\<lambda>S4. Inr (bind_res r (\<lambda>_. Inr ()), S4)))) got)"

definition print_stmt :: "string \<Rightarrow> console cstate \<Rightarrow> console cstate" where
  "print_stmt s S = S\<lparr>world := say s (world S)\<rparr>"

text \<open>Sequencing: an exception that no handler catches leaves \<^verbatim>\<open>main\<close>.\<close>

definition andthen :: "unit stmt_result \<Rightarrow> (console cstate \<Rightarrow> unit stmt_result) \<Rightarrow> unit stmt_result" where
  "andthen m k =
     (case m of
        None \<Rightarrow> None
      | Some (Inl e) \<Rightarrow> Some (Inl e)
      | Some (Inr (Inl ex, S)) \<Rightarrow> Some (Inr (Inl ex, S))
      | Some (Inr (Inr _, S)) \<Rightarrow> k S)"

definition try_catch :: "unit stmt_result \<Rightarrow> (string \<Rightarrow> console cstate \<Rightarrow> console cstate) \<Rightarrow> unit stmt_result" where
  "try_catch m handler =
     map_option (\<lambda>x. bind_res x
       (\<lambda>(r, S). case r of
          Inl (RuntimeError what) \<Rightarrow> Inr (Inr (), handler what S)
        | _ \<Rightarrow> Inr (r, S))) m"

fun show_val :: "val \<Rightarrow> string" where
  "show_val (VInt i) = show_int i"
| "show_val (VString s) = s"
| "show_val VVoid = []"

text \<open>\<^verbatim>\<open><< std::endl << std::endl\<close>.\<close>

definition say2 :: "string \<Rightarrow> console \<Rightarrow> console" where
  "say2 s out = out @ [s @ nl @ nl]"

definition demo_main :: "int \<Rightarrow> console cstate \<Rightarrow> unit stmt_result" where
  "demo_main garbage S =
     (let S1 = S\<lparr>world := say2 ''=== Hayai Coroutine Examples ==='' (world S)\<rparr>;
          S2 = print_stmt ''Example 1: Simple return value'' S1 in
      andthen (with_task garbage TInt computeValue (\<lambda>v. say2 (''Result: '' @ show_val v)) S2)
       (\<lambda>S3. andthen (with_task garbage TInt computeAndDouble (\<lambda>v. say2 (''Final result: '' @ show_val v))
                 (print_stmt ''Example 2: Nested coroutines'' S3))
       (\<lambda>S4. andthen (try_catch (with_task garbage TString (mightFail True) (\<lambda>v out. out)
                 (print_stmt ''Example 3: Exception handling'' S4))
                 (\<lambda>what. print_stmt (''Caught exception: '' @ what)))
       (\<lambda>S5. andthen (with_task garbage TString (mightFail False) (\<lambda>v. say2 (''Success case: '' @ show_val v)) S5)
       (\<lambda>S6. andthen (with_task garbage TVoid printMessage (\<lambda>v. say [])
                 (print_stmt ''Example 4: Void coroutine'' S6))
       (\<lambda>S7. Some (Inr (Inr (), print_stmt ''=== All examples completed! ==='' S7))))))))"

section \<open>What the coroutines compute\<close>

lemma computeValue_runs: "runs ho out computeValue (Inr (VInt 42)) (say ''Computing...'' out)"
  by (simp add: computeValue_def stmt_def)

lemma multiplyByTwo_runs: "int_ok (x * 2) \<Longrightarrow> runs ho out (multiplyByTwo x) (Inr (VInt (x * 2))) out"
  by (simp add: multiplyByTwo_def)

lemma runs_await_val:
  "runs None w q (Inr v) w1 \<Longrightarrow> T \<noteq> TVoid \<Longrightarrow> runs ho w1 (k v) r w' \<Longrightarrow> runs ho w (await_val T q k) r w'"
  unfolding await_val_def by (rule runs_Call, assumption) (simp add: seen_def)

lemma computeAndDouble_runs:
  "runs ho out computeAndDouble (Inr (VInt 84)) (say (''Got value: '' @ show_int 42) (say ''Computing...'' out))"
  unfolding computeAndDouble_def
proof (rule runs_await_val [OF computeValue_runs])
  show "runs ho (say ''Computing...'' out)
      (let val = int_of_val (VInt 42) in
         stmt (say (''Got value: '' @ show_int val)) (await_val TInt (multiplyByTwo val) (\<lambda>doubled. Ret doubled)))
      (Inr (VInt 84)) (say (''Got value: '' @ show_int 42) (say ''Computing...'' out))"
    using multiplyByTwo_runs [of 42 None] by (auto simp: stmt_def int_ok_def intro!: runs_await_val)
qed simp

lemma mightFail_runs:
  "runs ho out (mightFail True) (Inl (RuntimeError ''Operation failed'')) out"
  "runs ho out (mightFail False) (Inr (VString ''Success!'')) out"
  by (simp_all add: mightFail_def)

lemma printMessage_runs: "runs ho out printMessage (Inr VVoid) (say ''Hello from coroutine!'' out)"
  by (simp add: printMessage_def stmt_def)
section \<open>What the main program prints\<close>

lemma destroy_frames_world:
  "destroy_frames n hs (S\<lparr>world := w\<rparr>) = bind_res (destroy_frames n hs S) (\<lambda>S'. Inr (S'\<lparr>world := w\<rparr>))"
proof (induction n arbitrary: hs S)
  case (Suc n)
  then show ?case
    by (simp flip: put_frame_world split: list.split option.split)
qed simp

text \<open>A block with a task, in one step: the effects of the body, then of the block; the heap is as before.\<close>

lemma with_task_runs:
  assumes run: "runs (Some (next_frame S)) (world S) p r w'" and fresh: "heap_fresh S"
  shows "\<exists>n. with_task g T p use S = Some (Inr (bind_res r (\<lambda>_. Inr ()),
    S\<lparr>next_frame := n, world := (case seen T r of Inl e \<Rightarrow> w' | Inr v \<Rightarrow> use v w')\<rparr>))"
proof -
  let ?h = "next_frame S"
  obtain S1 where S1: "create (new_frame g T p) S = (?h, S1)" by (simp add: create_def)
  from get_new_task [OF run fresh S1] obtain S2 n where
    S2: "if T = TVoid then TaskVoid_get g (Some ?h) S1 = Some (Inr (bind_res r (\<lambda>_. Inr ()), S2))
         else Task_get g (Some ?h) S1 = Some (Inr (r, S2))"
    and d: "Task_dtor (Some ?h) S2 = Inr (S\<lparr>next_frame := n, world := w'\<rparr>)" by blast
  have dw: "Task_dtor (Some ?h) (S2\<lparr>world := w\<rparr>) = Inr (S\<lparr>next_frame := n, world := w\<rparr>)" for w
    using d destroy_frames_world [of "Suc (next_frame S2)" "[?h]" w S2] by (simp add: Task_dtor_def destroy_def)
  have "S\<lparr>next_frame := n, world := world S2\<rparr> = S\<lparr>next_frame := n, world := w'\<rparr>"
    using d dw [of "world S2"] by simp
  then have w: "world S2 = w'"
    by (metis cstate.select_convs(4) cstate.surjective cstate.update_convs(4))
  show ?thesis
  proof (cases r)
    case (Inl e)
    then show ?thesis
      using S1 S2 d by (intro exI [of _ n]) (auto simp: with_task_def Task_ctor_def as_val_def seen_def split: if_splits)
  next
    case (Inr v)
    then show ?thesis
      using S1 S2 dw w by (intro exI [of _ n]) (auto simp: with_task_def Task_ctor_def as_val_def seen_def split: if_splits)
  qed
qed
text \<open>All states of \<^verbatim>\<open>main\<close> between its statements have an empty heap.\<close>

definition between :: "nat \<Rightarrow> console \<Rightarrow> console cstate" where
  "between n out = (empty_heap out)\<lparr>next_frame := n\<rparr>"

lemma between_task:
  assumes "\<And>h. runs (Some h) out p r out'" and "out2 = (case seen T r of Inl e \<Rightarrow> out' | Inr v \<Rightarrow> use v out')"
    and "r2 = bind_res r (\<lambda>_. Inr ())"
  shows "\<exists>m. with_task g T p use (between n out) = Some (Inr (r2, between m out2))"
  using with_task_runs [of "between n out" p r out' g T use] assms by (auto simp: between_def empty_heap_def heap_fresh_def)

lemma print_between: "print_stmt s (between n out) = between n (say s out)"
  by (simp add: print_stmt_def between_def empty_heap_def)

lemma andthen_done: "andthen (Some (Inr (Inr (), S))) k = k S"
  by (simp add: andthen_def)

lemma try_catch_caught: "try_catch (Some (Inr (Inl (RuntimeError what), S))) handler = Some (Inr (Inr (), handler what S))"
  by (simp add: try_catch_def)

section \<open>Properties\<close>

text \<open>The lines the program is meant to print.\<close>

definition demo_transcript :: "string list" where
  "demo_transcript =
     [''=== Hayai Coroutine Examples ==='' @ nl @ nl,
      ''Example 1: Simple return value'' @ nl, ''Computing...'' @ nl, ''Result: 42'' @ nl @ nl,
      ''Example 2: Nested coroutines'' @ nl, ''Computing...'' @ nl, ''Got value: 42'' @ nl, ''Final result: 84'' @ nl @ nl,
      ''Example 3: Exception handling'' @ nl, ''Caught exception: Operation failed'' @ nl, ''Success case: Success!'' @ nl @ nl,
      ''Example 4: Void coroutine'' @ nl, ''Hello from coroutine!'' @ nl, nl,
      ''=== All examples completed! ==='' @ nl]"

lemma show_numbers: "show_int 42 = ''42''" "show_int 84 = ''84''"
  by code_simp+

text \<open>C26. The demonstration program prints what it is meant to, whatever the uninitialised values are, ends normally,
  and leaves no coroutine frame behind: values through nested awaits, the exception of a failing
  coroutine at the handler around \<^verbatim>\<open>get()\<close>, and a coroutine without a result.\<close>

theorem demo_prints_transcript:
  "\<exists>n. demo_main g (empty_heap []) = Some (Inr (Inr (), (empty_heap demo_transcript)\<lparr>next_frame := n\<rparr>))"
proof -
  let ?out = "\<lambda>k. take k demo_transcript"
  note line = seen_def show_numbers say_def say2_def demo_transcript_def
  have "\<exists>m. with_task g TInt computeValue (\<lambda>v. say2 (''Result: '' @ show_val v)) (between 0 (?out 2))
      = Some (Inr (Inr (), between m (?out 4)))"
    by (rule between_task [OF computeValue_runs]) (simp_all add: line)
  then obtain n3 where n3: "with_task g TInt computeValue (\<lambda>v. say2 (''Result: '' @ show_val v)) (between 0 (?out 2))
      = Some (Inr (Inr (), between n3 (?out 4)))" ..
  have "\<exists>m. with_task g TInt computeAndDouble (\<lambda>v. say2 (''Final result: '' @ show_val v)) (between n3 (?out 5))
      = Some (Inr (Inr (), between m (?out 8)))"
    by (rule between_task [OF computeAndDouble_runs]) (simp_all add: line)
  then obtain n4 where n4: "with_task g TInt computeAndDouble (\<lambda>v. say2 (''Final result: '' @ show_val v)) (between n3 (?out 5))
      = Some (Inr (Inr (), between n4 (?out 8)))" ..
  have "\<exists>m. with_task g TString (mightFail True) (\<lambda>v out. out) (between n4 (?out 9))
      = Some (Inr (Inl (RuntimeError ''Operation failed''), between m (?out 9)))"
    by (rule between_task [OF mightFail_runs(1)]) (simp_all add: line)
  then obtain n5 where n5: "with_task g TString (mightFail True) (\<lambda>v out. out) (between n4 (?out 9))
      = Some (Inr (Inl (RuntimeError ''Operation failed''), between n5 (?out 9)))" ..
  have "\<exists>m. with_task g TString (mightFail False) (\<lambda>v. say2 (''Success case: '' @ show_val v)) (between n5 (?out 10))
      = Some (Inr (Inr (), between m (?out 11)))"
    by (rule between_task [OF mightFail_runs(2)]) (simp_all add: line)
  then obtain n6 where n6: "with_task g TString (mightFail False) (\<lambda>v. say2 (''Success case: '' @ show_val v)) (between n5 (?out 10))
      = Some (Inr (Inr (), between n6 (?out 11)))" ..
  have "\<exists>m. with_task g TVoid printMessage (\<lambda>v. say []) (between n6 (?out 12)) = Some (Inr (Inr (), between m (?out 14)))"
    by (rule between_task [OF printMessage_runs]) (simp_all add: line)
  then obtain n7 where n7: "with_task g TVoid printMessage (\<lambda>v. say []) (between n6 (?out 12))
      = Some (Inr (Inr (), between n7 (?out 14)))" ..
  have step: "say ''Example 1: Simple return value'' (say2 ''=== Hayai Coroutine Examples ==='' []) = ?out 2"
      "say ''Example 2: Nested coroutines'' (?out 4) = ?out 5" "say ''Example 3: Exception handling'' (?out 8) = ?out 9"
      "say (''Caught exception: '' @ ''Operation failed'') (?out 9) = ?out 10" "say ''Example 4: Void coroutine'' (?out 11) = ?out 12"
      "say ''=== All examples completed! ==='' (?out 14) = demo_transcript"
    by (simp_all add: line)
  have start: "print_stmt ''Example 1: Simple return value'' ((empty_heap [])\<lparr>world := say2 ''=== Hayai Coroutine Examples ==='' []\<rparr>)
      = between 0 (?out 2)"
    by (simp add: print_stmt_def between_def empty_heap_def step)
  have "demo_main g (empty_heap []) = Some (Inr (Inr (), between n7 demo_transcript))"
    by (simp only: demo_main_def Let_def start empty_heap_simps print_between n3 n4 n5 n6 n7 step andthen_done try_catch_caught)
  then show ?thesis
    by (auto simp: between_def)
qed

end
