(* ===== verification/Reactor.thy ===== *)
theory Reactor
  imports EchoServer
begin

text \<open>
  The loops and the server put together. \<^verbatim>\<open>EventLoop::loop\<close> of any loop of a server, the base loop or a
  worker, with the handlers and functors the other components install: the wakeup channel drains
  the pipe, the acceptor's channel accepts, a connection's channel runs the connection's handlers, and
  the functors are those the server queued. A whole round is shown to be a sequence of steps of the
  server's step relation, so what holds in every reachable state of that relation holds of what the
  loops really execute.
\<close>

unbundle bit_operations_syntax

section \<open>Composition\<close>

text \<open>
  Addresses of channels: the acceptor's, then those of the connections. The channel object is a member
  of its owner; the loop knows it by its address.
\<close>

definition acceptor_addr :: nat where
  "acceptor_addr = 1"

definition conn_addr :: "nat \<Rightarrow> nat" where
  "conn_addr c = c + 2"

definition chan_at :: "server \<Rightarrow> chan_heap" where
  "chan_at s a =
     (if a = acceptor_addr then map_option acceptChannel (srv_acceptor s)
      else if 2 \<le> a then map_option (\<lambda>w. conn_chan (conn w)) (srv_conns s (a - 2))
      else None)"

text \<open>What the outside answers at every instant: the kernel, and the callbacks the user's code has.\<close>

record io_env =
  wr_at :: "nat \<Rightarrow> write_fun"
  readv_at :: "nat \<Rightarrow> nat list \<Rightarrow> readv_result"
  kernel_at :: "nat \<Rightarrow> kernel"
  cbs_at :: "nat \<Rightarrow> conn_cbs"

definition env_ok :: "io_env \<Rightarrow> bool" where
  "env_ok E \<longleftrightarrow> (\<forall>n. cbs_ok (cbs_at E n) \<and> write_documented (wr_at E n) \<and> readv_documented (readv_at E n))"

text \<open>The rest of the program next to the loop: the server and a clock for the answers.\<close>

type_synonym world = "server \<times> nat"

type_synonym 'k reactor = "('k, server_task) event_loop \<times> world"

text \<open>Functors of one loop among those of all loops.\<close>

definition of_loop :: "nat \<Rightarrow> (nat \<times> server_task) list \<Rightarrow> server_task list" where
  "of_loop l q = map snd (filter (\<lambda>e. fst e = l) q)"

text \<open>
  An operation of the server seen by the loop that runs it: functors it queued on this loop go through
  \<^verbatim>\<open>queueInLoop\<close>, and the channels have the interest it gave them; what the poll reported on a channel
  stays there.
\<close>

definition refresh :: "server \<Rightarrow> ('k, server_task) event_loop \<Rightarrow> ('k, server_task) event_loop" where
  "refresh s l =
     l\<lparr>loop_chans := (\<lambda>a. if a = wakeup_chan l then loop_chans l a
        else map_option (\<lambda>ch. ch\<lparr>revents := (case loop_chans l a of Some old \<Rightarrow> revents old | None \<Rightarrow> 0)\<rparr>) (chan_at s a))\<rparr>"

definition absorb :: "server \<Rightarrow> server \<Rightarrow> ('k, server_task) event_loop \<Rightarrow> ('k, server_task) event_loop" where
  "absorb s s' l =
     refresh s' (fold (queueInLoop (threadId l)) (drop (length (of_loop (loop_id l) (srv_queue s))) (of_loop (loop_id l) (srv_queue s'))) l)"

definition perform :: "(server \<Rightarrow> server outcome) \<Rightarrow> 'k reactor \<Rightarrow> 'k reactor res" where
  "perform f x =
     (case x of (l, s, n) \<Rightarrow>
       (case f s of (s', Inl e) \<Rightarrow> Inl e | (s', Inr _) \<Rightarrow> Inr (absorb s s' l, s', Suc n)))"

text \<open>\<^verbatim>\<open>Channel::handleEvent\<close> of the channel at an address, with the callbacks its owner installed.\<close>

definition acceptor_callbacks :: "(nat \<Rightarrow> nat) \<Rightarrow> io_env \<Rightarrow> nat \<Rightarrow> nat \<Rightarrow> 'k reactor channel_callbacks" where
  "acceptor_callbacks T E n me =
     Channel_setReadCallback (Some (perform (accept_ready T (cbs_at E n) (kernel_at E n) me))) no_channel_callbacks"

definition channel_event :: "(nat \<Rightarrow> nat) \<Rightarrow> io_env \<Rightarrow> ('k, server_task, world) handler" where
  "channel_event T E a x =
     (case x of (l, s, n) \<Rightarrow>
       (case loop_chans l a of
          None \<Rightarrow> Inl UseAfterFree
        | Some ch \<Rightarrow>
            if a = wakeup_chan l then handleEvent (\<lambda>_. True) ch wakeup_callbacks x
            else if a = acceptor_addr then handleEvent (\<lambda>_. True) ch (acceptor_callbacks T E n (threadId l)) x
            else perform (run_conn (threadId l) (handle_event (server_cbs (cbs_at E n)) (wr_at E n) (readv_at E n)
                   (\<lambda>obj. srv_conns s obj \<noteq> None) (threadId l) (revents ch)) (a - 2)) x))"

text \<open>
  A functor of the round: the first of a round finds the queue just swapped out, and each is kept
  until the round ends.
\<close>

definition take_batch :: "nat \<Rightarrow> server \<Rightarrow> server" where
  "take_batch l s = (if l \<in> fst ` set (srv_batch s) then s else swap_functors l s)"

definition run_functor :: "(nat \<Rightarrow> nat) \<Rightarrow> io_env \<Rightarrow> ('k, server_task, world) exec" where
  "run_functor T E t x =
     (case x of (l, s, n) \<Rightarrow>
       let s1 = take_batch (loop_id l) s;
           b1 = takeWhile (\<lambda>e. fst e \<noteq> loop_id l) (srv_batch s1);
           b2 = tl (dropWhile (\<lambda>e. fst e \<noteq> loop_id l) (srv_batch s1));
           s2 = s1\<lparr>srv_batch := b1 @ b2, srv_held := srv_held s1 @ [(loop_id l, t)]\<rparr> in
       perform (run_server_task (cbs_at E n) (wr_at E n) (kernel_at E n) (threadId l) t) (l, s2, n))"

definition drop_functors :: "('k, server_task, world) drops" where
  "drop_functors ts x = (case x of (l, s, n) \<Rightarrow> perform (end_round (loop_id l)) x)"

abbreviation reactor_loop :: "(nat \<Rightarrow> nat) \<Rightarrow> io_env \<Rightarrow> nat \<Rightarrow> (nat \<Rightarrow> int + kevent list) list \<Rightarrow> 'k reactor \<Rightarrow>
    (bool \<times> 'k reactor) res" where
  "reactor_loop T E \<equiv> loop (run_functor T E) drop_functors (channel_event T E)"

section \<open>The functors a loop knows are those the server queued on it\<close>

text \<open>Operations of the server only add functors, and leave those of the running round alone.\<close>

definition extends :: "server \<Rightarrow> server \<Rightarrow> bool" where
  "extends s s' \<longleftrightarrow> (\<exists>q. srv_queue s' = srv_queue s @ q) \<and> srv_batch s' = srv_batch s \<and> srv_held s' = srv_held s"

lemma extends_refl [simp, intro]: "extends s s"
  by (simp add: extends_def)

lemma extends_trans: "extends s t \<Longrightarrow> extends t u \<Longrightarrow> extends s u"
  by (auto simp: extends_def)

lemma extends_simps [simp]:
  "extends s (add_calls cs s')  = extends s s'" "extends s (put_conn c w s') = extends s s'"
  "extends s (s'\<lparr>connections := m\<rparr>) = extends s s'" "extends s (s'\<lparr>srv_acceptor := a\<rparr>) = extends s s'"
  "extends s (s'\<lparr>threadPool := p\<rparr>) = extends s s'" "extends s (s'\<lparr>nextConnId := i\<rparr>) = extends s s'"
  "extends s (s'\<lparr>srv_next := k\<rparr>) = extends s s'"
  by (simp_all add: extends_def add_calls_def put_conn_def)

lemma extends_queue_task: "extends s s' \<Longrightarrow> extends s (queue_task l t s')"
  by (auto simp: extends_def queue_task_def)

lemma removeConnectionInLoop_extends: "removeConnectionInLoop me c s = (s', r) \<Longrightarrow> extends s s'"
  by (auto simp: removeConnectionInLoop_def Let_def intro: extends_queue_task split: if_splits option.splits prod.splits)

lemma removeConnection_extends: "removeConnection me c s = (s', r) \<Longrightarrow> extends s s'"
  by (auto simp: removeConnection_def intro: extends_queue_task removeConnectionInLoop_extends split: if_splits)

lemma then_do_outcome: "then_do m f = (s', r) \<Longrightarrow> \<exists>s1. fst m = s1 \<and> (s' = s1 \<or> f s1 = (s', r))"
  by (auto simp: then_do_def split: prod.splits sum.splits)

lemma do_times_extends:
  assumes "\<And>s s' r. f s = (s', r) \<Longrightarrow> extends s s'"
  shows "do_times n f s = (s', r) \<Longrightarrow> extends s s'"
proof (induction n arbitrary: s)
  case (Suc n)
  from then_do_outcome [of "f s" "do_times n f" s' r] Suc.prems have "s' = fst (f s) \<or> do_times n f (fst (f s)) = (s', r)" by auto
  with Suc.IH assms [of s "fst (f s)" "snd (f s)"] show ?case by (auto intro: extends_trans)
qed simp

lemma do_each_extends:
  assumes "\<And>x s s' r. f x s = (s', r) \<Longrightarrow> extends s s'"
  shows "do_each f xs s = (s', r) \<Longrightarrow> extends s s'"
proof (induction xs arbitrary: s)
  case (Cons x xs)
  from then_do_outcome [of "f x s" "do_each f xs" s' r] Cons.prems have "s' = fst (f x s) \<or> do_each f xs (fst (f x s)) = (s', r)" by auto
  with Cons.IH assms [of x s "fst (f x s)" "snd (f x s)"] show ?case by (auto intro: extends_trans)
qed simp

lemma run_conn_extends: "run_conn me f c s = (s', r) \<Longrightarrow> extends s s'"
proof -
  assume ret: "run_conn me f c s = (s', r)"
  have "extends s s'" if "do_times n (removeConnection me c) (put_conn c w s) = (s', r)" for n w
    using do_times_extends [of "removeConnection me c", OF removeConnection_extends that] by (auto simp: extends_def put_conn_def)
  with ret show ?thesis
    by (auto simp: run_conn_def split: option.splits sum.splits)
qed

lemma newConnection_extends: "newConnection T ucb k me fd peer s = (s', r) \<Longrightarrow> extends s s'"
proof -
  assume ret: "newConnection T ucb k me fd peer s = (s', r)"
  have est: "extends s v" if "establish ucb me c u = (v, r)" "extends s u" for c u v
    using run_conn_extends [of me _ c u v r] that by (auto simp: establish_def intro: extends_trans)
  show ?thesis
    using ret by (auto simp: newConnection_def Let_def intro: est extends_queue_task split: if_splits sum.splits prod.splits)
qed

lemma accept_ready_extends: "accept_ready T ucb k me s = (s', r) \<Longrightarrow> extends s s'"
proof -
  assume ret: "accept_ready T ucb k me s = (s', r)"
  have each: "extends u v" if "do_each (\<lambda>(fd, peer). newConnection T ucb k me fd peer) xs u = (v, q)" for xs u v q
    by (rule do_each_extends [OF _ that]) (auto intro: newConnection_extends)
  show ?thesis
    using ret by (auto simp: accept_ready_def intro: extends_trans [of s "add_calls _ s"] dest: each split: option.splits prod.splits sum.splits)
qed

lemma reset_acceptor_extends: "reset_acceptor s = (s', r) \<Longrightarrow> extends s s'"
  by (auto simp: reset_acceptor_def split: option.splits sum.splits)

lemma stop_in_loop_extends: "stop_in_loop me s = (s', r) \<Longrightarrow> extends s s'"
proof -
  assume "stop_in_loop me s = (s', r)"
  then obtain s1 where "s1 = fst (reset_acceptor s)" "s' = s1 \<or> do_each (\<lambda>c. run_conn me (shutdown me) c) (map snd (connections s1)) s1 = (s', r)"
    unfolding stop_in_loop_def by (auto dest!: then_do_outcome)
  moreover have "extends s1 s'" if "do_each (\<lambda>c. run_conn me (shutdown me) c) xs s1 = (s', r)" for xs
    by (rule do_each_extends [OF _ that]) (rule run_conn_extends)
  ultimately show ?thesis
    using reset_acceptor_extends [of s s1 "snd (reset_acceptor s)"] by (auto intro: extends_trans)
qed

lemma run_server_task_extends: "run_server_task ucb wr k me t s = (s', r) \<Longrightarrow> extends s s'"
  by (cases t) (auto simp: listen_in_loop_def establish_def intro: stop_in_loop_extends run_conn_extends
      removeConnectionInLoop_extends split: option.splits prod.splits)

text \<open>
  Between rounds the loop's pending functors are the server's for that loop. While a round runs, the
  functors \<open>ts\<close> are still to come: either none has run and the queue is swapped out of the loop only, or
  they are the loop's part of the server's batch.
\<close>

definition in_step :: "(nat \<Rightarrow> nat) \<Rightarrow> 'k reactor \<Rightarrow> bool" where
  "in_step T x \<longleftrightarrow> (case x of (l, s, n) \<Rightarrow>
     T (loop_id l) = threadId l \<and> pendingFunctors l = of_loop (loop_id l) (srv_queue s))"

definition round_over :: "'k reactor \<Rightarrow> bool" where
  "round_over x \<longleftrightarrow> (case x of (l, s, n) \<Rightarrow> of_loop (loop_id l) (srv_batch s @ srv_held s) = [])"

definition running :: "(nat \<Rightarrow> nat) \<Rightarrow> server_task list \<Rightarrow> 'k reactor \<Rightarrow> bool" where
  "running T ts x \<longleftrightarrow> (case x of (l, s, n) \<Rightarrow>
     (in_step T x \<and> of_loop (loop_id l) (srv_batch s) = ts) \<or>
     (T (loop_id l) = threadId l \<and> pendingFunctors l = [] \<and> of_loop (loop_id l) (srv_queue s) = ts \<and> round_over x))"

lemma of_loop_simps [simp]:
  "of_loop l [] = []" "of_loop l (p @ q) = of_loop l p @ of_loop l q"
  "of_loop l (e # q) = (if fst e = l then snd e # of_loop l q else of_loop l q)"
  "of_loop l (filter (\<lambda>e. fst e = l) q) = of_loop l q" "of_loop l (filter (\<lambda>e. fst e \<noteq> l) q) = []"
  by (simp_all add: of_loop_def)

lemma of_loop_empty: "of_loop l q = [] \<longleftrightarrow> l \<notin> fst ` set q"
  by (auto simp: of_loop_def filter_empty_conv)

lemma of_loop_first:
  assumes "of_loop l q = t # ts"
  shows "q = takeWhile (\<lambda>e. fst e \<noteq> l) q @ (l, t) # tl (dropWhile (\<lambda>e. fst e \<noteq> l) q)"
    and "of_loop l (takeWhile (\<lambda>e. fst e \<noteq> l) q @ tl (dropWhile (\<lambda>e. fst e \<noteq> l) q)) = ts"
    and "l \<notin> fst ` set (takeWhile (\<lambda>e. fst e \<noteq> l) q)"
proof -
  show before: "l \<notin> fst ` set (takeWhile (\<lambda>e. fst e \<noteq> l) q)"
    by (auto dest: set_takeWhileD)
  have split: "takeWhile (\<lambda>e. fst e \<noteq> l) q @ dropWhile (\<lambda>e. fst e \<noteq> l) q = q" by simp
  have none: "of_loop l (takeWhile (\<lambda>e. fst e \<noteq> l) q) = []" using before by (simp add: of_loop_empty)
  have rest: "of_loop l (dropWhile (\<lambda>e. fst e \<noteq> l) q) = t # ts"
    using assms none arg_cong [OF split, of "of_loop l"] by (simp only: of_loop_simps append_Nil)
  then obtain e es where d: "dropWhile (\<lambda>e. fst e \<noteq> l) q = e # es" by (cases "dropWhile (\<lambda>e. fst e \<noteq> l) q") auto
  have "fst e = l" using d by (metis (mono_tags, lifting) hd_dropWhile list.discI list.sel(1))
  with rest d have e: "e = (l, t)" "of_loop l es = ts" by (auto simp: prod_eq_iff)
  show "q = takeWhile (\<lambda>e. fst e \<noteq> l) q @ (l, t) # tl (dropWhile (\<lambda>e. fst e \<noteq> l) q)"
    using split d e by simp
  show "of_loop l (takeWhile (\<lambda>e. fst e \<noteq> l) q @ tl (dropWhile (\<lambda>e. fst e \<noteq> l) q)) = ts"
    using none d e by simp
qed

lemma queue_all:
  "pendingFunctors (fold (queueInLoop me) ts l) = pendingFunctors l @ ts" "loop_id (fold (queueInLoop me) ts l) = loop_id l"
  "threadId (fold (queueInLoop me) ts l) = threadId l" "wakeup_chan (fold (queueInLoop me) ts l) = wakeup_chan l"
  "quit_flag (fold (queueInLoop me) ts l) = quit_flag l" "loop_chans (fold (queueInLoop me) ts l) = loop_chans l"
  "loop_poller (fold (queueInLoop me) ts l) = loop_poller l"
  by (induction ts arbitrary: l) (simp_all add: loop_op_defs Let_def)

lemma absorb_simps [simp]:
  "loop_id (absorb s s' l) = loop_id l" "threadId (absorb s s' l) = threadId l" "wakeup_chan (absorb s s' l) = wakeup_chan l"
  "quit_flag (absorb s s' l) = quit_flag l"
  by (simp_all add: absorb_def refresh_def queue_all)

lemma absorb_pending:
  assumes "extends s s'" and "pendingFunctors l = of_loop (loop_id l) (srv_queue s)"
  shows "pendingFunctors (absorb s s' l) = of_loop (loop_id l) (srv_queue s')"
  using assms by (auto simp: absorb_def refresh_def queue_all extends_def)

lemma perform_ok:
  assumes "perform f (l, s, n) = Inr (l', s', n')" and "\<And>r. f s = (s', r) \<Longrightarrow> extends s s'"
    and "pendingFunctors l = of_loop (loop_id l) (srv_queue s)"
  shows "f s = (s', Inr ())" "loop_id l' = loop_id l" "threadId l' = threadId l" "extends s s'"
    "pendingFunctors l' = of_loop (loop_id l') (srv_queue s')"
proof -
  from assms(1) show f: "f s = (s', Inr ())" and "loop_id l' = loop_id l" "threadId l' = threadId l"
    by (auto simp: perform_def split: prod.splits sum.splits)
  from f assms(2) show ext: "extends s s'" by blast
  from assms(1) absorb_pending [OF ext assms(3)] show "pendingFunctors l' = of_loop (loop_id l') (srv_queue s')"
    by (auto simp: perform_def split: prod.splits sum.splits)
qed

section \<open>A round is a sequence of steps of the server\<close>

lemma channel_event_sim:
  assumes E: "env_ok E" and x: "in_step T (l, s, n)" and ret: "channel_event T E a (l, s, n) = Inr (l', s', n')"
  shows "(server_step T)\<^sup>*\<^sup>* s s' \<and> in_step T (l', s', n') \<and> loop_id l' = loop_id l \<and> threadId l' = threadId l \<and> extends s s'"
proof -
  let ?me = "threadId l"
  note E' = E [unfolded env_ok_def, rule_format, of n]
  have pend: "pendingFunctors l = of_loop (loop_id l) (srv_queue s)" using x by (simp add: in_step_def)
  have finish: ?thesis if p: "perform f (l, s, n) = Inr (l', s', n')" and ext: "\<And>r. f s = (s', r) \<Longrightarrow> extends s s'"
      and step: "f s = (s', Inr ()) \<Longrightarrow> server_step T s s'" for f
    using perform_ok [OF p ext pend] step x by (auto simp: in_step_def)
  obtain ch where ch: "loop_chans l a = Some ch"
    using ret by (auto simp: channel_event_def split: option.splits)
  consider (skip) "s' = s" "in_step T (l', s', n')" "loop_id l' = loop_id l" "threadId l' = threadId l"
    | (accept) "perform (accept_ready T (cbs_at E n) (kernel_at E n) ?me) (l, s, n) = Inr (l', s', n')"
    | (conn) "perform (run_conn ?me (handle_event (server_cbs (cbs_at E n)) (wr_at E n) (readv_at E n)
          (\<lambda>obj. srv_conns s obj \<noteq> None) ?me (revents ch)) (a - 2)) (l, s, n) = Inr (l', s', n')"
  proof -
    have "handleEventWithGuard ch wakeup_callbacks (l, s, n) = Inr (l', s', n') \<Longrightarrow>
        s' = s \<and> in_step T (l', s', n') \<and> loop_id l' = loop_id l \<and> threadId l' = threadId l"
      using x by (auto simp: handleEventWithGuard_def wakeup_callbacks_def call_if_def in_step_def handleWakeup_def split: if_splits)
    moreover have "handleEventWithGuard ch (acceptor_callbacks T E n ?me) (l, s, n) = Inr (l', s', n') \<Longrightarrow>
        (l', s', n') = (l, s, n) \<or> perform (accept_ready T (cbs_at E n) (kernel_at E n) ?me) (l, s, n) = Inr (l', s', n')"
      by (auto simp: handleEventWithGuard_def acceptor_callbacks_def call_if_def bind_res_eq_Inr split: if_splits)
    ultimately show thesis
      using ret ch x skip accept conn
      by (auto simp: channel_event_def handleEvent_def split: if_splits)
  qed
  then show ?thesis
  proof cases
    case accept
    show ?thesis by (rule finish [OF accept]) (use E' in \<open>blast intro: accept_ready_extends srv_accept\<close>)+
  next
    case conn
    show ?thesis by (rule finish [OF conn]) (use E' in \<open>blast intro: run_conn_extends srv_conn_event\<close>)+
  qed simp
qed

lemma handle_all_sim:
  assumes "env_ok E" and "in_step T (l, s, n)" and "handle_all (channel_event T E) as (l, s, n) = Inr (l', s', n')"
  shows "(server_step T)\<^sup>*\<^sup>* s s' \<and> in_step T (l', s', n') \<and> loop_id l' = loop_id l \<and> threadId l' = threadId l \<and> extends s s'"
  using assms(2,3)
proof (induction as arbitrary: l s n)
  case Nil
  then show ?case by simp
next
  case (Cons a as)
  obtain l1 s1 n1 where s1: "channel_event T E a (l, s, n) = Inr (l1, s1, n1)" "handle_all (channel_event T E) as (l1, s1, n1) = Inr (l', s', n')"
    using Cons.prems(2) by (auto simp: bind_res_eq_Inr)
  note first = channel_event_sim [OF assms(1) Cons.prems(1) s1(1)]
  with Cons.IH [OF _ s1(2)] show ?case by (auto intro: rtranclp_trans extends_trans)
qed

lemma take_batch_eq: "take_batch l s = (if of_loop l (srv_batch s) = [] then swap_functors l s else s)"
  by (simp add: take_batch_def of_loop_empty)

lemma take_batch_sim:
  assumes "running T (t # ts) (l, s, n)"
  shows "(server_step T)\<^sup>*\<^sup>* s (take_batch (loop_id l) s)" "of_loop (loop_id l) (srv_batch (take_batch (loop_id l) s)) = t # ts"
    "pendingFunctors l = of_loop (loop_id l) (srv_queue (take_batch (loop_id l) s))" "T (loop_id l) = threadId l"
proof -
  let ?i = "loop_id l"
  have "(in_step T (l, s, n) \<and> of_loop ?i (srv_batch s) = t # ts) \<or>
      (T ?i = threadId l \<and> pendingFunctors l = [] \<and> of_loop ?i (srv_queue s) = t # ts \<and> of_loop ?i (srv_batch s @ srv_held s) = [])"
    using assms by (simp only: running_def round_over_def prod.case)
  then have "(server_step T)\<^sup>*\<^sup>* s (take_batch ?i s) \<and> of_loop ?i (srv_batch (take_batch ?i s)) = t # ts \<and>
      pendingFunctors l = of_loop ?i (srv_queue (take_batch ?i s)) \<and> T ?i = threadId l"
  proof (elim disjE)
    assume "T ?i = threadId l \<and> pendingFunctors l = [] \<and> of_loop ?i (srv_queue s) = t # ts \<and> of_loop ?i (srv_batch s @ srv_held s) = []"
    moreover from this have "server_step T s (swap_functors ?i s)"
      by (intro srv_swap) (simp only: of_loop_empty not_False_eq_True)
    ultimately show ?thesis by (simp add: take_batch_eq) (simp add: swap_functors_def)
  qed (simp add: take_batch_eq in_step_def)
  then show "(server_step T)\<^sup>*\<^sup>* s (take_batch ?i s)" "of_loop ?i (srv_batch (take_batch ?i s)) = t # ts"
    "pendingFunctors l = of_loop ?i (srv_queue (take_batch ?i s))" "T ?i = threadId l"
    by blast+
qed

lemma run_functor_sim:
  assumes E: "env_ok E" and x: "running T (t # ts) (l, s, n)" and ret: "run_functor T E t (l, s, n) = Inr (l', s', n')"
  shows "(server_step T)\<^sup>*\<^sup>* s s' \<and> running T ts (l', s', n') \<and> loop_id l' = loop_id l \<and> threadId l' = threadId l"
proof -
  let ?i = "loop_id l"
  define s1 where "s1 = take_batch ?i s"
  let ?b1 = "takeWhile (\<lambda>e. fst e \<noteq> ?i) (srv_batch s1)" and ?b2 = "tl (dropWhile (\<lambda>e. fst e \<noteq> ?i) (srv_batch s1))"
  let ?s2 = "s1\<lparr>srv_batch := ?b1 @ ?b2, srv_held := srv_held s1 @ [(?i, t)]\<rparr>"
  note tb = take_batch_sim [OF x, folded s1_def]
  note b = of_loop_first [OF tb(2)]
  have run: "perform (run_server_task (cbs_at E n) (wr_at E n) (kernel_at E n) (threadId l) t) (l, ?s2, n) = Inr (l', s', n')"
    using ret by (simp add: run_functor_def s1_def Let_def)
  have "pendingFunctors l = of_loop ?i (srv_queue ?s2)" using tb(3) by simp
  note p = perform_ok [OF run run_server_task_extends this]
  have "server_step T s1 s'"
    using srv_task [of "cbs_at E n" "wr_at E n" s1 ?b1 ?i t ?b2 "kernel_at E n" T s'] E b(1,3) p(1) tb(4)
    by (simp add: env_ok_def)
  moreover have "of_loop ?i (srv_batch s') = ts" using p(4) b(2) by (simp add: extends_def)
  ultimately show ?thesis
    using tb(1,4) p by (auto simp: running_def in_step_def)
qed

lemma exec_all_sim:
  assumes "env_ok E" and "running T ts (l, s, n)" and "exec_all (run_functor T E) ts (l, s, n) = Inr (l', s', n')"
  shows "(server_step T)\<^sup>*\<^sup>* s s' \<and> running T [] (l', s', n') \<and> loop_id l' = loop_id l \<and> threadId l' = threadId l"
  using assms(2,3)
proof (induction ts arbitrary: l s n)
  case Nil
  then show ?case by simp
next
  case (Cons t ts)
  obtain l1 s1 n1 where s1: "run_functor T E t (l, s, n) = Inr (l1, s1, n1)" "exec_all (run_functor T E) ts (l1, s1, n1) = Inr (l', s', n')"
    using Cons.prems(2) by (auto simp: bind_res_eq_Inr)
  note first = run_functor_sim [OF assms(1) Cons.prems(1) s1(1)]
  with Cons.IH [OF _ s1(2)] show ?case by (auto intro: rtranclp_trans)
qed

lemma release_each_queues:
  "do_each release cs s = (s', r) \<Longrightarrow> srv_queue s' = srv_queue s \<and> srv_batch s' = srv_batch s \<and> srv_held s' = srv_held s"
proof (induction cs arbitrary: s)
  case (Cons c cs)
  have "srv_queue (fst (release c s)) = srv_queue s \<and> srv_batch (fst (release c s)) = srv_batch s \<and> srv_held (fst (release c s)) = srv_held s"
    by (auto simp: release_def add_calls_def put_conn_def split: option.splits sum.splits)
  with Cons then_do_outcome [of "release c s" "do_each release cs" s' r] show ?case by auto
qed simp

lemma drop_functors_sim:
  assumes "running T [] (l, s, n)" and "drop_functors ts (l, s, n) = Inr (l', s', n')"
  shows "(server_step T)\<^sup>*\<^sup>* s s' \<and> in_step T (l', s', n') \<and> round_over (l', s', n') \<and> loop_id l' = loop_id l \<and> threadId l' = threadId l"
proof -
  let ?i = "loop_id l"
  have x: "T ?i = threadId l" "pendingFunctors l = of_loop ?i (srv_queue s)" "of_loop ?i (srv_batch s) = []"
    using assms(1) by (auto simp: running_def in_step_def round_over_def)
  have er: "end_round ?i s = (s', Inr ())" and l': "l' = absorb s s' l"
    using assms(2) by (auto simp: drop_functors_def perform_def split: prod.splits sum.splits)
  have q: "srv_queue s' = srv_queue s" "srv_batch s' = srv_batch s" "srv_held s' = filter (\<lambda>e. fst e \<noteq> ?i) (srv_held s)"
    using release_each_queues er unfolding end_round_def by fastforce+
  have "server_step T s s'"
    using srv_round [OF _ er] x(3) by (simp add: of_loop_empty)
  moreover have "pendingFunctors l' = of_loop ?i (srv_queue s')"
    using x(2) q(1) by (simp add: l' absorb_def refresh_def queue_all)
  ultimately show ?thesis
    using x q by (auto simp: in_step_def round_over_def l')
qed

lemma doPendingFunctors_sim:
  assumes "env_ok E" and "in_step T (l, s, n)" and "round_over (l, s, n)"
    and "doPendingFunctors (run_functor T E) drop_functors (l, s, n) = Inr (l', s', n')"
  shows "(server_step T)\<^sup>*\<^sup>* s s' \<and> in_step T (l', s', n') \<and> round_over (l', s', n') \<and> loop_id l' = loop_id l \<and> threadId l' = threadId l"
proof -
  let ?l1 = "snd (pending_swap (pending_begin l))" and ?ts = "pendingFunctors l"
  obtain l2 s2 n2 where s2: "exec_all (run_functor T E) ?ts (?l1, s, n) = Inr (l2, s2, n2)"
      "drop_functors ?ts (pending_end l2, s2, n2) = Inr (l', s', n')"
    using assms(4) by (auto simp: doPendingFunctors_def pending_swap_def pending_begin_def bind_res_eq_Inr)
  have "running T ?ts (?l1, s, n)"
    using assms(2,3) by (auto simp: running_def in_step_def round_over_def pending_swap_def pending_begin_def)
  note batch = exec_all_sim [OF assms(1) this s2(1)]
  then have "running T [] (pending_end l2, s2, n2)"
    by (auto simp: running_def in_step_def round_over_def pending_end_def)
  note last = drop_functors_sim [OF this s2(2)]
  from batch last show ?thesis by (auto simp: pending_swap_def pending_begin_def pending_end_def)
qed

lemma iteration_sim:
  assumes E: "env_ok E" and x: "in_step T (l, s, n)" "round_over (l, s, n)"
    and ret: "loop_iteration (run_functor T E) drop_functors (channel_event T E) a (l, s, n) = Inr (l', s', n')"
  shows "(server_step T)\<^sup>*\<^sup>* s s' \<and> in_step T (l', s', n') \<and> round_over (l', s', n') \<and> loop_id l' = loop_id l \<and> threadId l' = threadId l"
proof -
  obtain p h active l2 s2 n2 where r: "handle_all (channel_event T E) active
        (l\<lparr>loop_poller := p, loop_chans := h, activeChannels := active, eventHandling := True\<rparr>, s, n) = Inr (l2, s2, n2)"
      "doPendingFunctors (run_functor T E) drop_functors (l2\<lparr>eventHandling := False\<rparr>, s2, n2) = Inr (l', s', n')"
    using ret by (auto simp: loop_iteration_def bind_res_eq_Inr)
  have "in_step T (l\<lparr>loop_poller := p, loop_chans := h, activeChannels := active, eventHandling := True\<rparr>, s, n)"
    using x(1) by (simp add: in_step_def)
  note events = handle_all_sim [OF E this r(1)]
  then have "in_step T (l2\<lparr>eventHandling := False\<rparr>, s2, n2)" "round_over (l2\<lparr>eventHandling := False\<rparr>, s2, n2)"
    using x(2) by (auto simp: in_step_def round_over_def extends_def)
  note functors = doPendingFunctors_sim [OF E this r(2)]
  with events show ?thesis by (auto intro: rtranclp_trans)
qed

lemma loop_while_sim:
  assumes "env_ok E" and "in_step T (l, s, n)" and "round_over (l, s, n)"
    and "loop_while (run_functor T E) drop_functors (channel_event T E) as (l, s, n) = Inr (stopped, l', s', n')"
  shows "(server_step T)\<^sup>*\<^sup>* s s' \<and> in_step T (l', s', n') \<and> round_over (l', s', n') \<and> loop_id l' = loop_id l"
  using assms(2-4)
proof (induction as arbitrary: l s n)
  case Nil
  then show ?case by (auto simp: loop_while.simps split: if_splits)
next
  case (Cons a as)
  show ?case
  proof (cases "quit_flag l")
    case False
    obtain l1 s1 n1 where r: "loop_iteration (run_functor T E) drop_functors (channel_event T E) a (l, s, n) = Inr (l1, s1, n1)"
        "loop_while (run_functor T E) drop_functors (channel_event T E) as (l1, s1, n1) = Inr (stopped, l', s', n')"
      using Cons.prems(3) False by (auto simp: loop_while_Cons bind_res_eq_Inr)
    note first = iteration_sim [OF assms(1) Cons.prems(1,2) r(1)]
    with Cons.IH [OF _ _ r(2)] show ?thesis by (auto intro: rtranclp_trans)
  qed (use Cons.prems in \<open>simp add: loop_while_quit\<close>)
qed

section \<open>Properties\<close>

text \<open>Loop 1 on a thread, knowing the given channels; and answers of the outside for examples.\<close>

definition sample_loop_of :: "nat \<Rightarrow> chan_heap \<Rightarrow> (kregs, server_task) event_loop" where
  "sample_loop_of tid h =
     \<lparr>loop_id = 1, looping = False, quit_flag = False, eventHandling = False, callingPendingFunctors = False, threadId = tid,
      loop_poller = \<lparr>kqueue = Map.empty, ev_capacity = 16, kqueueFd = 3, channels = Map.empty\<rparr>, loop_chans = h, wakeup_chan = 0, wakeup_words = 0, wakeupFd = (8, 9),
      activeChannels = [], pendingFunctors = [], spawnedTasks = {}\<rparr>"

lemma sample_loop_of_simps:
  "\<not> looping (sample_loop_of tid h)" "threadId (sample_loop_of tid h) = tid" "loop_id (sample_loop_of tid h) = 1"
  "loop_chans (sample_loop_of tid h) = h" "wakeup_chan (sample_loop_of tid h) = 0" "pendingFunctors (sample_loop_of tid h) = []"
  by (simp_all add: sample_loop_of_def)

definition sample_env :: "conn_cbs \<Rightarrow> string \<Rightarrow> io_env" where
  "sample_env cbs d = \<lparr>wr_at = (\<lambda>_. take_all), readv_at = (\<lambda>_ _. Inr (take 16 d)), kernel_at = (\<lambda>_. good_kernel), cbs_at = (\<lambda>_. cbs)\<rparr>"

definition readable :: "nat \<Rightarrow> kevent" where
  "readable a = \<lparr>kev_filter = EVFILT_READ, EV_EOF = False, EV_ERROR = False, kev_udata = a\<rparr>"

lemma readable_simps [simp]: "kev_udata (readable a) = a" "event_revents (readable a) = kReadEvent"
  by (simp_all add: readable_def event_revents_def)

text \<open>C2. What the loops execute is what the server's step relation allows: when \<^verbatim>\<open>loop()\<close> of any loop of a server runs
  with the handlers and functors the components install, from a reachable state and against whatever
  the kernel reports, the state it leaves the server in is reached by steps of the server and its pending
  functors are exactly those the server queued on it; so on every connection what was written,
  followed by what is buffered, is what was sent, every connection object is still referenced, and releasing
  one succeeds.\<close>

theorem loop_refines_server_steps:
  assumes "env_ok E" and "reachable (server_start T) (server_step T) s" and "in_step T (l, s, n)" and "round_over (l, s, n)"
    and "reactor_loop T E me answers (l, s, n) = Inr (stopped, l', s', n')"
  shows "(server_step T)\<^sup>*\<^sup>* s s' \<and> reachable (server_start T) (server_step T) s' \<and> in_step T (l', s', n') \<and> round_over (l', s', n')
    \<and> (\<forall>c w. srv_conns s' c = Some w \<and> no_drop (trace w) \<longrightarrow> written (trace w) @ content (outputBuffer (conn w)) = sent (trace w))
    \<and> (\<forall>c. srv_conns s' c \<noteq> None \<longrightarrow> referenced c s') \<and> (\<forall>c. \<exists>s''. release c s' = (s'', Inr ()))"
proof -
  obtain l1 where r: "loop_while (run_functor T E) drop_functors (channel_event T E) answers
        (l\<lparr>looping := True, quit_flag := False\<rparr>, s, n) = Inr (stopped, l1, s', n')" and l': "l' = (if stopped then l1\<lparr>looping := False\<rparr> else l1)"
    using assms(5) by (auto simp: loop_def bind_res_eq_Inr)
  have "in_step T (l\<lparr>looping := True, quit_flag := False\<rparr>, s, n)" "round_over (l\<lparr>looping := True, quit_flag := False\<rparr>, s, n)"
    using assms(3,4) by (simp_all add: in_step_def round_over_def)
  note sim = loop_while_sim [OF assms(1) this r]
  then have s': "reachable (server_start T) (server_step T) s'" using reachable_steps [OF assms(2)] by blast
  have inv: "server_inv T {} s'" by (rule server.reachable_inv [OF s'])
  have "written (trace w) @ content (outputBuffer (conn w)) = sent (trace w)" if "srv_conns s' c = Some w" "no_drop (trace w)" for c w
    using inv that connection.reachable_inv [OF heap_okD(2), of T s' c w] by (simp add: server_inv_def conn_inv_def)
  moreover have ref: "ref_ok s'" by (rule reachable_ref [OF s'])
  then have "\<forall>c. srv_conns s' c \<noteq> None \<longrightarrow> referenced c s'" by (simp add: ref_ok_def)
  ultimately show ?thesis
    using sim s' release_returns [OF ref] by (auto simp: l' in_step_def round_over_def)
qed

text \<open>A round without functors of its own.\<close>

lemma idle_round:
  assumes "pendingFunctors l = []" and "round_over (l, s, n)"
  shows "doPendingFunctors (run_functor T E) drop_functors (l, s, n) = Inr (absorb s s (l\<lparr>pendingFunctors := [], callingPendingFunctors := False\<rparr>), s, Suc n)"
proof -
  have "filter (\<lambda>e. fst e = loop_id l) (srv_held s) = []" "filter (\<lambda>e. fst e \<noteq> loop_id l) (srv_held s) = srv_held s"
    using assms(2) by (auto simp: round_over_def of_loop_empty filter_empty_conv filter_id_conv image_iff)
  then have "end_round (loop_id l) s = (s, Inr ())"
    by (simp add: end_round_def map_filter_simps)
  with assms(1) show ?thesis
    by (simp add: doPendingFunctors_def pending_swap_def pending_begin_def pending_end_def drop_functors_def perform_def)
qed

lemma one_event_round:
  fixes l :: "('k, server_task) event_loop"
  defines "polled a \<equiv> l\<lparr>loop_poller := (if ev_capacity (loop_poller l) = 1 then (loop_poller l)\<lparr>ev_capacity := 2\<rparr> else loop_poller l),
      loop_chans := (loop_chans l)(a \<mapsto> setRevents (the (loop_chans l a)) kReadEvent), activeChannels := [a], eventHandling := True\<rparr>"
  assumes "loop_chans l a \<noteq> None" and "channel_event T E a (polled a, s, n) = Inr (l2, s2, n2)"
    and "pendingFunctors l2 = []" and "round_over (l2, s2, n2)"
  shows "loop_iteration (run_functor T E) drop_functors (channel_event T E) (\<lambda>_. Inr [readable a]) (l, s, n)
    = Inr (absorb s2 s2 (l2\<lparr>eventHandling := False, pendingFunctors := [], callingPendingFunctors := False\<rparr>), s2, Suc n2)"
proof -
  obtain ch where ch: "loop_chans l a = Some ch" using assms(2) by blast
  have "poll (\<lambda>_. Inr [readable a]) (loop_poller l) (loop_chans l) []
      = Inr (loop_poller (polled a), loop_chans (polled a), [a])"
    by (simp add: poll_def ch polled_def)
  moreover have "round_over (l2\<lparr>eventHandling := False\<rparr>, s2, n2)" using assms(5) by (simp add: round_over_def)
  ultimately show ?thesis
    using assms(3,4) idle_round [of "l2\<lparr>eventHandling := False\<rparr>" s2 n2 T E]
    by (simp add: loop_iteration_def) (simp add: polled_def)
qed

theorem loop_refines_server_steps_witness:
  "\<exists>l' s' n'. reactor_loop (\<lambda>_. 0) (sample_env silent_cbs []) 0 [\<lambda>_. Inr [readable acceptor_addr]]
       (sample_loop_of 0 [acceptor_addr \<mapsto> Channel_ctor 1 4], sample_running, 0) = Inr (False, l', s', n')
     \<and> connections s' = [(''s#1'', 0)] \<and> reachable (server_start (\<lambda>_. 0)) (server_step (\<lambda>_. 0)) s'"
proof -
  let ?E = "sample_env silent_cbs []" and ?l = "sample_loop_of 0 [acceptor_addr \<mapsto> Channel_ctor 1 4]"
  have E: "env_ok ?E"
    by (simp add: env_ok_def sample_env_def silent_cbs_ok take_all_documented readv_documented_def)
  have "reachable (server_start (\<lambda>_. 0)) (server_step (\<lambda>_. 0)) sample_server"
    using sample_server_start by (rule reachable_start)
  then have r: "reachable (server_start (\<lambda>_. 0)) (server_step (\<lambda>_. 0)) sample_running"
    using srv_start [OF sample_server_started] by (rule reachable_step)
  have x: "in_step (\<lambda>_. 0) (?l, sample_running, 0)" "round_over (?l, sample_running, 0)"
    by (simp_all add: in_step_def round_over_def sample_loop_of_def sample_running_fields)
  let ?l1 = "?l\<lparr>looping := True, quit_flag := False\<rparr>"
  let ?l2 = "?l1\<lparr>loop_chans := [acceptor_addr \<mapsto> setRevents (Channel_ctor 1 4) kReadEvent], activeChannels := [acceptor_addr], eventHandling := True\<rparr>"
  have "channel_event (\<lambda>_. 0) ?E acceptor_addr (?l2, sample_running, 0) = Inr (absorb sample_running sample_serving ?l2, sample_serving, 1)"
    using sample_accept(1)
    by (simp add: channel_event_def handleEvent_def handleEventWithGuard_def acceptor_callbacks_def perform_def call_if_def sample_env_def
        sample_loop_of_def acceptor_addr_def setRevents_def Channel_ctor_def event_masks)
  moreover have "pendingFunctors (absorb sample_running sample_serving ?l2) = []" "round_over (absorb sample_running sample_serving ?l2, sample_serving, 1)"
    by (simp_all add: absorb_def refresh_def queue_all round_over_def sample_loop_of_def sample_accept sample_running_fields)
  ultimately obtain l3 where "loop_iteration (run_functor (\<lambda>_. 0) ?E) drop_functors (channel_event (\<lambda>_. 0) ?E)
      (\<lambda>_. Inr [readable acceptor_addr]) (?l1, sample_running, 0) = Inr (l3, sample_serving, 2)" "\<not> quit_flag l3"
    using one_event_round [where l = ?l1 and a = acceptor_addr and T = "\<lambda>_. 0" and E = ?E and s = sample_running and n = 0]
    by (simp add: sample_loop_of_def)
  then obtain l' where run: "reactor_loop (\<lambda>_. 0) ?E 0 [\<lambda>_. Inr [readable acceptor_addr]] (?l, sample_running, 0) = Inr (False, l', sample_serving, 2)"
    by (simp add: loop_def assertInLoopThread_def isInLoopThread_def loop_while_Cons loop_while.simps sample_loop_of_simps)
  from loop_refines_server_steps [OF E r x run] run sample_accept(3) show ?thesis by blast
qed


text \<open>C9. One round of the loop answers a client of the echo server: when the poll reports that an established
  connection with nothing waiting to be written is readable, and \<open>d\<close>, at most 1024 bytes, arrived, the
  round returns; the bytes that the kernel takes are on the wire, the rest is buffered and the channel
  the loop knows asks for writability exactly then; no other connection and no functor is touched.\<close>

theorem echo_round:
  assumes conn: "srv_conns s c = Some w" "conn_inv w" "empty_input (inputBuffer (conn w))" "conn_state (conn w) = Connected"
      "conn_in_loop (threadId l) w" "tie_obj (conn_chan (conn w)) = Some c"
    and idle: "\<not> isWriting (conn_chan (conn w))" "content (outputBuffer (conn w)) = []"
      "writerIndex (outputBuffer (conn w)) + length d \<le> vec_max"
    and loop: "loop_chans l (conn_addr c) \<noteq> None" "wakeup_chan l = 0" "in_step T (l, s, n)" "round_over (l, s, n)" "pendingFunctors l = []"
    and io: "cbs_at E n = echo_user_cbs (wr_at E n) (threadId l)" "\<And>lens. readv_at E n lens = Inr d" "write_documented (wr_at E n)"
      "wr_at E n d = Inr m" "0 < length d" "length d \<le> 1024"
  shows "\<exists>l' s' w' ch. loop_iteration (run_functor T E) drop_functors (channel_event T E) (\<lambda>_. Inr [readable (conn_addr c)]) (l, s, n)
      = Inr (l', s', n + 2)
    \<and> srv_conns s' = (srv_conns s)(c \<mapsto> w') \<and> connections s' = connections s \<and> pendingFunctors l' = []
    \<and> written (trace w') = written (trace w) @ take m d \<and> content (outputBuffer (conn w')) = drop m d
    \<and> loop_chans l' (conn_addr c) = Some ch \<and> isWriting ch = (m < length d)"
proof -
  let ?a = "conn_addr c" and ?me = "threadId l"
  let ?l1 = "l\<lparr>loop_poller := (if ev_capacity (loop_poller l) = 1 then (loop_poller l)\<lparr>ev_capacity := 2\<rparr> else loop_poller l),
      loop_chans := (loop_chans l)(?a \<mapsto> setRevents (the (loop_chans l ?a)) kReadEvent), activeChannels := [?a], eventHandling := True\<rparr>"
  from echo_chunk [where wr = "wr_at E n" and readv = "readv_at E n", OF conn(2-5) idle io(2,5,6,3,4)]
  obtain w' tr where w': "TcpConnection.handleRead (echo_cbs (wr_at E n) ?me) (readv_at E n) ?me w = Inr w'"
      "written (trace w') = written (trace w) @ take m d" "content (outputBuffer (conn w')) = drop m d"
      "isWriting (conn_chan (conn w')) = (m < length d)" "trace w' = trace w @ tr" "CbClose \<notin> set tr"
    by blast
  let ?s' = "put_conn c (Some w') s"
  have "new_closes w w' = 0" using w'(5,6) by (auto simp: new_closes_def filter_empty_conv)
  moreover have "handle_event (echo_cbs (wr_at E n) ?me) (wr_at E n) (readv_at E n) (\<lambda>obj. srv_conns s obj \<noteq> None) ?me kReadEvent w = Inr w'"
    using w'(1) conn(1,6)
    by (simp add: handle_event_def handleEvent_def handleEventWithGuard_def call_if_def conn_channel_callbacks_def setRevents_def event_masks)
  ultimately have "run_conn ?me (handle_event (echo_cbs (wr_at E n) ?me) (wr_at E n) (readv_at E n) (\<lambda>obj. srv_conns s obj \<noteq> None) ?me kReadEvent) c s
      = (?s', Inr ())"
    using conn(1) by (simp add: run_conn_def)
  then have ev: "channel_event T E ?a (?l1, s, n) = Inr (absorb s ?s' ?l1, ?s', Suc n)"
    using loop(2) io(1)
    by (simp add: channel_event_def perform_def conn_addr_def acceptor_addr_def setRevents_def echo_cbs_def)
  have q: "srv_queue ?s' = srv_queue s" "srv_batch ?s' = srv_batch s" "srv_held ?s' = srv_held s" by (simp_all add: put_conn_def)
  have "pendingFunctors (absorb s ?s' ?l1) = []" "round_over (absorb s ?s' ?l1, ?s', Suc n)"
    using loop(4,5) q by (simp_all add: absorb_def refresh_def queue_all round_over_def)
  note round = one_event_round [where l = l and a = ?a, OF loop(1) ev this]
  let ?l3 = "absorb ?s' ?s' ((absorb s ?s' ?l1)\<lparr>eventHandling := False, pendingFunctors := [], callingPendingFunctors := False\<rparr>)"
  have "\<exists>ch. loop_chans ?l3 ?a = Some ch \<and> isWriting ch = isWriting (conn_chan (conn w'))" "pendingFunctors ?l3 = []"
    using loop(2) by (simp_all add: absorb_def refresh_def queue_all put_conn_def chan_at_def conn_addr_def acceptor_addr_def isWriting_def)
  with w'(2-4) round show ?thesis
    by (intro exI [of _ ?l3] exI [of _ ?s'] exI [of _ w']) (simp add: put_conn_def)
qed

theorem echo_round_witness:
  "\<exists>l' s' w'. loop_iteration (run_functor (\<lambda>_. 7) (sample_env (echo_user_cbs take_all 7) ''hello'')) drop_functors
       (channel_event (\<lambda>_. 7) (sample_env (echo_user_cbs take_all 7) ''hello'')) (\<lambda>_. Inr [readable (conn_addr 3)])
       (sample_loop_of 7 [conn_addr 3 \<mapsto> conn_chan (conn sample_established)], sample_server\<lparr>srv_conns := [3 \<mapsto> sample_established]\<rparr>, 0)
     = Inr (l', s', 2) \<and> srv_conns s' 3 = Some w' \<and> written (trace w') = ''hello''"
proof -
  let ?s = "sample_server\<lparr>srv_conns := [3 \<mapsto> sample_established]\<rparr>"
  let ?l = "sample_loop_of 7 [conn_addr 3 \<mapsto> conn_chan (conn sample_established)]" and ?E = "sample_env (echo_user_cbs take_all 7) ''hello''"
  have inv: "conn_inv sample_established" by (rule connection.reachable_inv [OF sample_reachable(1)])
  have x: "in_step (\<lambda>_. 7) (?l, ?s, 0)" "round_over (?l, ?s, 0)"
    by (simp_all add: in_step_def round_over_def sample_loop_of_simps sample_server_fields)
  have io: "wr_at ?E 0 ''hello'' = Inr 5" "write_documented (wr_at ?E 0)" "cbs_at ?E 0 = echo_user_cbs (wr_at ?E 0) 7"
      "readv_at ?E 0 lens = Inr ''hello''" for lens
    by (simp_all add: sample_env_def take_all_documented) (simp add: take_all_def)
  have "empty_input (inputBuffer (conn sample_established))"
    by (simp add: sample_fields empty_input_def Buffer_default_fields kCheapPrepend_def kInitialSize_def)
  from echo_round [where s = ?s and c = 3 and l = ?l and T = "\<lambda>_. 7" and n = 0 and d = "''hello''" and m = 5 and E = ?E and w = sample_established,
      OF _ inv this _ _ _ _ _ _ _ _ x _ _ io(4,2,1)] show ?thesis
    by (auto simp: sample_fields sample_loop_of_simps conn_in_loop_def Buffer_default_fields kCheapPrepend_def io(3))
qed

section \<open>The end of the echo server\<close>

text \<open>
  The last lines of \<^verbatim>\<open>main\<close>: the loop runs until a signal makes it quit, then the server is destroyed on the
  main thread. The flag tells whether \<^verbatim>\<open>main\<close> returned.
\<close>

definition echo_main_tail :: "(nat \<Rightarrow> nat) \<Rightarrow> io_env \<Rightarrow> nat \<Rightarrow> (nat \<Rightarrow> int + kevent list) list \<Rightarrow> 'k reactor \<Rightarrow> (bool \<times> server) res" where
  "echo_main_tail T E me answers x =
     bind_res (reactor_loop T E me answers x) (\<lambda>(stopped, l, s, n).
       if stopped
       then (case TcpServer_dtor (cbs_at E n) me s of (s', Inl e) \<Rightarrow> Inl e | (s', Inr _) \<Rightarrow> Inr (True, s'))
       else Inr (False, s))"

text \<open>A server whose clients are all on worker loops cannot be shut down while one is connected: when the loop has
  returned, the destructor of the server calls \<^verbatim>\<open>connectDestroyed\<close> on the main thread, which aborts the program.\<close>

theorem echo_main_aborts_with_clients:
  assumes "env_ok E" and "reachable (server_start T) (server_step T) s" and "in_step T (l, s, n)" and "round_over (l, s, n)"
    and "reactor_loop T E me answers (l, s, n) = Inr (True, l', s', n')" and "connections s' \<noteq> []"
    and "\<forall>c w. c \<in> snd ` set (connections s') \<and> srv_conns s' c = Some w \<longrightarrow> T (conn_loop (conn w)) \<noteq> me"
  shows "echo_main_tail T E me answers (l, s, n) = Inl Aborted"
proof -
  have "in_step T (l\<lparr>looping := True, quit_flag := False\<rparr>, s, n)" "round_over (l\<lparr>looping := True, quit_flag := False\<rparr>, s, n)"
    using assms(3,4) by (simp_all add: in_step_def round_over_def)
  from loop_while_sim [OF assms(1) this] assms(5) have "(server_step T)\<^sup>*\<^sup>* s s'" by (auto simp: loop_def bind_res_eq_Inr)
  then have "server_inv T {} s'" using reachable_steps [OF assms(2)] server.reachable_inv by blast
  moreover obtain k c cs where kc: "connections s' = (k, c) # cs" using assms(6) by (metis list.exhaust surj_pair)
  ultimately obtain w where w: "srv_conns s' c = Some w" "conn_thread (conn w) = T (conn_loop (conn w))"
    using map_okD [of s' k c] heap_okD(3) [of T s' c] by (auto simp: server_inv_def)
  moreover have "c \<in> snd ` set (connections s')" by (simp add: kc)
  ultimately have "conn_thread (conn w) \<noteq> me" using assms(7) by metis
  then have "TcpServer_dtor (cbs_at E n') me s' = (s', Inl Aborted)"
    using w(1) kc by (simp add: TcpServer_dtor_def then_do_def run_conn_def connectDestroyed_def conn_assert_loop_def conn_in_loop_def)
  with assms(5) show ?thesis by (simp add: echo_main_tail_def)
qed

end
