(* ===== verification/Registration.thy ===== *)
theory Registration
  imports TcpConnection
begin

text \<open>
  A connection and the poller of its loop together: every change of the interest of a connection's
  channel goes through \<^verbatim>\<open>Channel::update\<close> to \<^verbatim>\<open>Poller::updateChannel\<close>, which hands two changes to the
  kernel. What the kernel watches for a descriptor is therefore a function of the connection's
  trace, and this theory relates it to the interest mask of the channel in every reachable state.
\<close>

section \<open>What every operation of a connection is made of\<close>

text \<open>
  A reflexive and transitive relation that holds across the primitive changes, each under the
  condition under which the code makes it, holds across every operation, callback and event. This
  carries properties of the state and the channel through all of them at once.
\<close>

fun plain_event :: "conn_event \<Rightarrow> bool" where
  "plain_event (Interest r w) = False"
| "plain_event ChanDisabled = False"
| "plain_event CbClose = False"
| "plain_event (StateTested t) = False"
| "plain_event _ = True"

definition along :: "(conn_world \<Rightarrow> conn_world \<Rightarrow> bool) \<Rightarrow> conn_world \<Rightarrow> conn_world \<Rightarrow> bool" where
  "along R w w' \<longleftrightarrow> conn_ok w w' \<and> (conn_inv w \<longrightarrow> R w w')"

locale conn_closed =
  fixes R :: "conn_world \<Rightarrow> conn_world \<Rightarrow> bool"
  assumes refl: "R w w"
    and trans: "R u v \<Longrightarrow> R v w \<Longrightarrow> R u w"
    and emit: "plain_event e \<Longrightarrow> R w (emit e w)"
    and closing: "ChanDisabled \<in> set (trace w) \<Longrightarrow> R w (emit CbClose w)"
    and tests: "conn_state (conn w) \<in> {Connected, Disconnecting} \<Longrightarrow> R w (emit (StateTested t) w)"
    and disconnecting: "conn_state (conn w) \<in> {Connected, Disconnecting} \<or> tested (trace w) \<Longrightarrow> R w (set_state Disconnecting w)"
    and disconnected: "R w (set_state Disconnected w)"
    and established: "conn_state (conn w) = Connecting \<Longrightarrow>
      R w (update_interest (enableReading_mask (tie (conn_chan (conn w)) obj)) (set_state Connected w))"
    and out: "R w (set_out b w)"
    and inp: "R w (set_in b w)"
    and writing_on: "R w (update_interest (enableWriting_mask (conn_chan (conn w))) w)"
    and writing_off: "R w (update_interest (disableWriting_mask (conn_chan (conn w))) w)"
    and closed_off: "conn_state (conn w) = Disconnected \<Longrightarrow> R w (disable_all w)"
begin

lemma written_rest: "R w (emit (Wrote d) (emit (SendReq m) w))"
  by (rule trans [OF emit emit]) simp_all

lemma rest_buffered:
  assumes "R w v"
  shows "R w (if isWriting (conn_chan (conn (set_out b v))) then set_out b v
              else update_interest (enableWriting_mask (conn_chan (conn (set_out b v)))) (set_out b v))"
  using trans [OF assms out] trans [OF trans [OF assms out] writing_on] by simp

lemma sendInLoop: "sendInLoop wr me m w = Inr w' \<Longrightarrow> R w w'"
proof -
  assume ret: "sendInLoop wr me m w = Inr w'"
  obtain n f w1 where t: "try_write wr m (TcpConnection.emit (SendReq m) w) = (n, f, w1)" by (metis prod_cases3)
  have r1: "R w w1"
    using t emit [of "SendReq m" w] written_rest [of w _ m]
    by (auto simp: try_write_def split: if_splits sum.splits)
  show ?thesis
  proof (cases "\<not> f \<and> 0 < size_sub (length m) n")
    case True
    with ret t obtain b where "w' = (if \<not> isWriting (conn_chan (conn (set_out b w1)))
        then update_interest (enableWriting_mask (conn_chan (conn (set_out b w1)))) (set_out b w1) else set_out b w1)"
      by (auto simp: sendInLoop_def bind_res_eq_Inr Let_def simp del: world_simps)
    with rest_buffered [OF r1, of b] show ?thesis by (simp split: if_splits)
  next
    case False
    with ret t have "w' = (if f then TcpConnection.emit (Dropped m) w1 else w1)"
      by (auto simp: sendInLoop_def bind_res_eq_Inr Let_def simp del: world_simps)
    with r1 trans [OF r1 emit [of "Dropped m"]] show ?thesis by simp
  qed
qed

lemma send: "send wr me m w = Inr w' \<Longrightarrow> R w w'"
  by (auto simp: send_def intro: sendInLoop emit refl split: if_splits)

lemma shutdownInLoop: "shutdownInLoop me w = Inr w' \<Longrightarrow> R w w'"
  by (auto simp: shutdownInLoop_def res_simps intro: refl emit split: if_splits)

lemma shutdown: "shutdown me w = Inr w' \<Longrightarrow> R w w'"
  by (auto simp: shutdown_def Let_def intro: refl trans [OF disconnecting emit] trans [OF disconnecting shutdownInLoop] split: if_splits)

lemma test_state: "test_state t w = Inr w' \<Longrightarrow> R w w'"
  by (cases t) (auto simp: test_state_def intro: refl tests split: if_splits)

lemma late_set: "late_set t w = Inr w' \<Longrightarrow> R w w'"
  by (auto simp: late_set_def tested_iff intro: refl trans [OF disconnecting emit] split: if_splits)

lemma handleWrite: "handleWrite wr me w = Inr w' \<Longrightarrow> R w w'"
proof -
  assume ret: "handleWrite wr me w = Inr w'"
  have on: "R w (set_out b (TcpConnection.emit (Wrote d) w))" for b d
    by (rule trans [OF emit out]) simp
  have off: "R w (update_interest (disableWriting_mask (conn_chan (conn (set_out b (TcpConnection.emit (Wrote d) w)))))
      (set_out b (TcpConnection.emit (Wrote d) w)))" for b d
    by (rule trans [OF on writing_off])
  show ?thesis
  proof (cases "isWriting (conn_chan (conn w))")
    case True
    with ret obtain data where w': "(case wr data of
        Inr n \<Rightarrow> if 0 < n then bind_res (retrieve (outputBuffer (conn w)) n)
          (\<lambda>b. let w1 = set_out b (TcpConnection.emit (Wrote (take n data)) w) in
             if readableBytes b = 0
             then let w2 = update_interest (disableWriting_mask (conn_chan (conn w1))) w1 in
               if conn_state (conn w2) = Disconnecting then TcpConnection.shutdownInLoop me w2 else Inr w2
             else Inr w1) else Inr w
      | Inl e \<Rightarrow> Inr w) = Inr w'"
      by (auto simp: handleWrite_def bind_res_eq_Inr)
    show ?thesis
    proof (cases "wr data")
      case (Inr n)
      with w' on off trans [OF off shutdownInLoop] refl show ?thesis
        by (cases "0 < n") (auto simp: res_simps Let_def simp del: world_simps split: if_splits)
    qed (use w' refl in auto)
  qed (use ret refl in \<open>auto simp: handleWrite_def bind_res_eq_Inr\<close>)
qed

text \<open>
  Callbacks are known to be harmless on connections that satisfy the invariant; \<open>conn_ok\<close> carries that
  along.
\<close>

lemma along_refl: "along R w w"
  by (simp add: along_def refl)

lemma along_trans: "along R u v \<Longrightarrow> along R v w \<Longrightarrow> along R u w"
  unfolding along_def using conn_ok_trans [of u v w] trans [of u v w] by (auto simp: conn_ok_def)

lemma called:
  assumes "\<And>f u v. cb = Some f \<Longrightarrow> f u = Inr v \<Longrightarrow> along R u v"
    and "e = CbMessage \<or> e = CbClose \<and> (conn_inv w \<longrightarrow> ChanDisabled \<in> set (trace w)) \<or> (\<exists>st. e = CbConnection st)"
  shows "call_optional e cb w = Inr w' \<Longrightarrow> along R w w'" and "call_required e cb w = Inr w' \<Longrightarrow> along R w w'"
proof -
  have "along R w (TcpConnection.emit e w)"
    using assms(2) emit [of e w] closing [of w] emit_ok [of e w] by (auto simp: along_def)
  with assms(1) show "call_optional e cb w = Inr w' \<Longrightarrow> along R w w'" "call_required e cb w = Inr w' \<Longrightarrow> along R w w'"
    by (auto simp: call_optional_def call_required_def split: option.splits intro: along_refl along_trans)
qed

lemma handleClose:
  assumes "\<And>f u v. f \<in> cb_list cbs \<Longrightarrow> f u = Inr v \<Longrightarrow> along R u v" and "handleClose cbs me w = Inr w'"
  shows "along R w w'"
proof -
  let ?w1 = "disable_all (set_state Disconnected w)"
  obtain w2 where w2: "call_optional (CbConnection (conn_state (conn ?w1))) (connectionCb cbs) ?w1 = Inr w2"
      "call_required CbClose (closeCb cbs) w2 = Inr w'"
    using assms(2) by (auto simp: handleClose_def res_simps Let_def)
  have "along R w ?w1"
    using conn_ok_trans [OF set_state_ok disable_all_ok, of w Disconnected] trans [OF disconnected closed_off, of w]
    by (simp add: along_def set_state_def)
  moreover have w12: "along R ?w1 w2"
    using called(1) [OF _ _ w2(1)] assms(1) by (auto simp: cb_list_def)
  ultimately have w02: "along R w w2" by (rule along_trans)
  have "ChanDisabled \<in> set (trace w2)" if "conn_inv ?w1"
    using w12 that by (auto simp: along_def conn_ok_def conn_evolves_def disable_all_def)
  moreover have "conn_inv ?w1" if "conn_inv w"
    using that conn_ok_trans [OF set_state_ok disable_all_ok, of w Disconnected] by (simp add: conn_ok_def)
  ultimately have off: "conn_inv w \<longrightarrow> ChanDisabled \<in> set (trace w2)" by blast
  show ?thesis
  proof (cases "conn_inv w")
    case True
    with off have "along R w2 w'"
      using called(2) [OF _ _ w2(2)] assms(1) by (auto simp: cb_list_def)
    with w02 show ?thesis by (rule along_trans)
  qed (simp add: along_def conn_ok_def)
qed

lemma forceClose:
  assumes "\<And>f u v. f \<in> cb_list cbs \<Longrightarrow> f u = Inr v \<Longrightarrow> along R u v" and "forceClose cbs me w = Inr w'"
  shows "along R w w'"
proof (cases "conn_state (conn w) = Connected \<or> conn_state (conn w) = Disconnecting")
  case True
  then have a: "along R w (set_state Disconnecting w)"
    using disconnecting [of w] set_state_ok [of w Disconnecting] by (auto simp: along_def)
  have q: "along R (set_state Disconnecting w) (TcpConnection.emit (Queued CloseTask) (set_state Disconnecting w))"
    by (simp add: along_def emit emit_ok)
  from True assms(2) handleClose [where cbs = cbs and me = me and w = "set_state Disconnecting w" and w' = w', OF assms(1)] along_trans [OF a] q show ?thesis
    by (auto simp: forceClose_def Let_def split: if_splits)
qed (use assms(2) along_refl in \<open>simp add: forceClose_def\<close>)

lemma api: "api_fun f \<Longrightarrow> f w = Inr w' \<Longrightarrow> along R w w'"
proof (induction arbitrary: w w' rule: api_fun.induct)
  case api_skip
  then show ?case by (simp add: along_refl)
next
  case (api_seq f g)
  from api_seq.prems obtain v where "f w = Inr v" "g v = Inr w'" by (rule bind_res_InrE)
  with api_seq.IH show ?case by (blast intro: along_trans)
next
  case (api_choose F)
  then show ?case by blast
next
  case (api_send wr msg me)
  then show ?case by (auto simp: along_def intro: send_ok send)
next
  case (api_shutdown me)
  then show ?case by (auto simp: along_def intro: shutdown_ok shutdown)
next
  case (api_forceClose cbs me)
  then show ?case by (blast intro: forceClose)
next
  case (api_take n)
  then show ?case using retrieve_sound by (auto simp: along_def res_simps intro!: set_in_ok inp)
next
  case (api_takeall k)
  let ?b = "inputBuffer (conn w)"
  have ok: "conn_ok w w'"
    using api_fun_ok [OF api_fun.api_takeall, of k w w'] api_takeall by auto
  have "R w w'" if inv: "conn_inv w"
  proof -
    have b: "buf_inv ?b" using inv by (simp add: conn_inv_def)
    with api_takeall.prems have k: "k (content ?b) (set_in (retrieveAll ?b) w) = Inr w'"
      by (simp add: retrieveAllAsString_ok)
    have "length (content ?b) \<le> vec_max" using length_content [OF b] buf_invD [OF b] by simp
    note along = api_takeall.IH [OF this k]
    have "conn_inv (set_in (retrieveAll ?b) w)"
      using set_in_ok [of w "retrieveAll ?b"] inv b by (simp add: conn_ok_def)
    with along show ?thesis by (auto simp: along_def intro: trans [OF inp])
  qed
  with ok show ?case by (simp add: along_def)
next
  case (api_queue t)
  then show ?case by (auto simp: along_def emit emit_ok)
next
  case (api_test t)
  then show ?case using api_fun_ok [OF api_fun.api_test] by (simp add: along_def test_state)
next
  case (api_late t)
  then show ?case by (simp add: along_def late_set_ok late_set)
qed

lemma callbacks: "cbs_ok cbs \<Longrightarrow> f \<in> cb_list cbs \<Longrightarrow> f u = Inr v \<Longrightarrow> along R u v"
  by (auto simp: cbs_ok_def intro: api)

lemma close: "cbs_ok cbs \<Longrightarrow> TcpConnection.handleClose cbs me w = Inr w' \<Longrightarrow> along R w w'"
  by (rule handleClose) (rule callbacks)

lemma handleRead:
  assumes cbs: "cbs_ok cbs" and doc: "readv_documented readv" and ret: "handleRead cbs readv me w = Inr w'"
  shows "along R w w'"
proof -
  obtain n e b where rd: "readFd readv (inputBuffer (conn w)) 0 = Inr (n, e, b)"
    and w': "(if 0 < n then call_required CbMessage (messageCb cbs) (set_in b w)
              else if n = 0 then TcpConnection.handleClose cbs me (set_in b w)
              else Inr (handleError (set_in b w))) = Inr w'"
    using ret by (auto simp: handleRead_def bind_res_eq_Inr Let_def)
  have a: "along R w (set_in b w)"
    using readFd_sound [OF _ doc rd] by (auto simp: along_def intro!: set_in_ok inp)
  consider "call_required CbMessage (messageCb cbs) (set_in b w) = Inr w'"
    | "TcpConnection.handleClose cbs me (set_in b w) = Inr w'" | "w' = set_in b w"
    using w' by (simp add: handleError_def split: if_splits)
  then show ?thesis
  proof cases
    case 1
    from called(2) [OF _ _ 1] callbacks [OF cbs] along_trans [OF a] show ?thesis by (auto simp: cb_list_def)
  qed (use a along_trans [OF a close [OF cbs]] in auto)
qed

lemma connectEstablished:
  assumes cbs: "cbs_ok cbs" and ret: "connectEstablished cbs self me w = Inr w'"
  shows "along R w w'"
proof -
  let ?w1 = "set_state Connected w"
  let ?w3 = "update_interest (enableReading_mask (tie (conn_chan (conn ?w1)) self)) ?w1"
  have st: "conn_state (conn w) = Connecting"
    and cb: "call_optional (CbConnection (conn_state (conn ?w3))) (connectionCb cbs) ?w3 = Inr w'"
    using ret by (auto simp: connectEstablished_def res_simps Let_def set_chan_def update_interest_def)
  have "along R w ?w3"
    using conn_ok_trans [OF set_state_ok enableReading_ok, of w Connected] established [OF st, of self] st
    by (simp add: along_def set_state_def)
  moreover have "along R ?w3 w'"
    using called(1) [OF _ _ cb] callbacks [OF cbs] by (auto simp: cb_list_def)
  ultimately show ?thesis by (rule along_trans)
qed

lemma event:
  assumes "cbs_ok cbs" "write_documented wr" "readv_documented readv" "handle_event cbs wr readv alive me r w = Inr w'"
  shows "along R w w'"
proof -
  have wr: "along R u v" if "TcpConnection.handleWrite wr me u = Inr v" for u v
    using that assms(2) by (simp add: along_def handleWrite_ok handleWrite)
  have call: "along R u v" if "call_if P cb u = Inr v"
    "cb = Some (TcpConnection.handleRead cbs readv me) \<or> cb = Some (TcpConnection.handleWrite wr me)
       \<or> cb = Some (TcpConnection.handleClose cbs me) \<or> cb = Some (\<lambda>w. Inr (handleError w))" for P cb u v
    using that handleRead [OF assms(1,3)] wr close [OF assms(1)] along_refl
    by (auto simp: call_if_def handleError_def split: if_splits)
  show ?thesis
    using assms(4)
    by (auto simp: handle_event_def handleEvent_def handleEventWithGuard_def conn_channel_callbacks_def res_simps
        split: if_splits option.splits intro: along_trans along_refl dest!: call)
qed

end

text \<open>
  \<^verbatim>\<open>connectDestroyed\<close> drops the interest of a connection that still counts as connected, which nothing else does.
\<close>

locale conn_closed_destroyed = conn_closed +
  assumes connected_off: "conn_state (conn w) = Connected \<Longrightarrow> R w (disable_all w)"
begin

lemma connectDestroyed:
  assumes cbs: "cbs_ok cbs" and ret: "connectDestroyed cbs me w = Inr w'"
  shows "along R w w'"
proof -
  obtain w2 where w2: "(if conn_state (conn w) = Connected then let w1 = disable_all w in
        call_optional (CbConnection (conn_state (conn w1))) (connectionCb cbs) w1
      else Inr w) = Inr w2"
    and w': "(let w3 = set_state Disconnected w2 in Inr (if 0 \<le> index (conn_chan (conn w3)) then TcpConnection.emit ChanRemoved w3 else w3)) = (Inr w' :: conn_world res)"
    using ret by (auto simp: connectDestroyed_def bind_res_eq_Inr)
  have "along R w w2"
  proof (cases "conn_state (conn w) = Connected")
    case True
    then have "along R (disable_all w) w2"
      using w2 called(1) [of "connectionCb cbs" _ "disable_all w" w2] callbacks [OF cbs] by (auto simp: cb_list_def Let_def)
    moreover have "along R w (disable_all w)" by (simp add: along_def disable_all_ok connected_off True)
    ultimately show ?thesis by (blast intro: along_trans)
  qed (use w2 along_refl in simp)
  moreover have "R w2 w'"
    using w' disconnected [of w2] trans [OF disconnected emit, of ChanRemoved w2] by (auto simp: Let_def split: if_splits)
  moreover have "conn_ok w w'" by (rule connectDestroyed_ok [OF cbs ret])
  ultimately show ?thesis by (auto simp: along_def conn_ok_def intro: trans)
qed

lemma task: "cbs_ok cbs \<Longrightarrow> write_documented wr \<Longrightarrow> task_ok t \<Longrightarrow> run_task cbs wr me t w = Inr w' \<Longrightarrow> along R w w'"
  by (cases t) (auto simp: along_def intro: sendInLoop_ok sendInLoop shutdownInLoop_ok shutdownInLoop
      dest: close connectDestroyed)

lemma step: "conn_step w w' \<Longrightarrow> along R w w'"
  by (induction rule: conn_step.induct) (blast intro: connectEstablished api event task)+

lemma reachable_from: "conn_step\<^sup>*\<^sup>* w w' \<Longrightarrow> along R w w'"
  by (induction rule: rtranclp_induct) (auto intro: along_refl along_trans step)

end

section \<open>What the kernel watches\<close>

text \<open>
  The changes that the interest changes of a trace hand to the kernel, in order, for the channel at
  address \<open>a\<close> with descriptor \<open>fd\<close>.
\<close>

definition interest_changes :: "nat \<Rightarrow> int \<Rightarrow> bool \<Rightarrow> bool \<Rightarrow> kchange list" where
  "interest_changes a fd rd wr =
     [if rd then EvAdd fd EVFILT_READ a else EvDelete fd EVFILT_READ,
      if wr then EvAdd fd EVFILT_WRITE a else EvDelete fd EVFILT_WRITE]"

fun regs_after :: "nat \<Rightarrow> int \<Rightarrow> conn_event list \<Rightarrow> kregs \<Rightarrow> kregs" where
  "regs_after a fd [] r = r"
| "regs_after a fd (Interest rd wr # tr) r = regs_after a fd tr (apply_changes r (interest_changes a fd rd wr))"
| "regs_after a fd (_ # tr) r = regs_after a fd tr r"

lemma update_changes_interest: "update_changes a ch = interest_changes a (ch_fd ch) (isReading ch) (isWriting ch)"
  by (simp add: update_changes_def interest_changes_def)

lemma regs_after_append [simp]: "regs_after a fd (tr @ tr') r = regs_after a fd tr' (regs_after a fd tr r)"
  by (induction a fd tr r rule: regs_after.induct) simp_all

lemma regs_after_plain: "plain_event e \<Longrightarrow> regs_after a fd [e] r = r"
  by (cases e) simp_all

definition reg_inv :: "nat \<Rightarrow> int \<Rightarrow> kregs \<Rightarrow> conn_world \<Rightarrow> bool" where
  "reg_inv a fd r w \<longleftrightarrow>
     ch_fd (conn_chan (conn w)) = fd \<and>
     (let r' = regs_after a fd (trace w) r in
      if isReading (conn_chan (conn w)) then watched r' a (conn_chan (conn w))
      else r' (fd, EVFILT_READ) = None \<and> r' (fd, EVFILT_WRITE) = None) \<and>
     (\<forall>fd' f. fd' \<noteq> fd \<longrightarrow> regs_after a fd (trace w) r (fd', f) = r (fd', f))"

lemma reg_inv_update:
  assumes inv: "reg_inv a fd r w" and ch: "ch_fd ch = fd" "isReading ch \<or> (isReading (conn_chan (conn w)) \<longrightarrow> \<not> isWriting ch)"
  shows "reg_inv a fd r (update_interest ch w)"
proof -
  let ?r = "regs_after a fd (trace w) r"
  have "regs_after a fd (trace (update_interest ch w)) r = apply_changes ?r (update_changes a ch)"
    by (simp add: update_interest_def set_chan_def update_changes_interest ch(1))
  moreover have "apply_changes ?r (update_changes a ch) (fd', f) = r (fd', f)" if "fd' \<noteq> fd" for fd' f
    using inv that ch(1) by (simp add: update_other_fd reg_inv_def)
  moreover have "watched (apply_changes ?r (update_changes a ch)) a ch" if "isReading ch"
    using that by (intro update_watched) simp
  moreover have "apply_changes ?r (update_changes a ch) (fd, f) = None" if "\<not> isReading ch" for f
    using that inv ch by (cases f; cases "isReading (conn_chan (conn w))")
      (auto simp: update_changes_def reg_inv_def watched_def Let_def split: if_splits)
  ultimately show ?thesis
    by (simp add: reg_inv_def update_interest_def set_chan_def ch(1) Let_def)
qed

lemma reg_inv_frame:
  assumes "reg_inv a fd r w" and "trace w' = trace w @ tr" and "regs_after a fd tr (regs_after a fd (trace w) r) = regs_after a fd (trace w) r"
    and "conn_chan (conn w') = conn_chan (conn w)"
  shows "reg_inv a fd r w'"
  using assms by (simp add: reg_inv_def Let_def)

lemma tie_reading [simp]: "isReading (tie ch obj) = isReading ch" "ch_fd (tie ch obj) = ch_fd ch"
  by (simp_all add: tie_def isReading_def)

interpretation reg: conn_closed_destroyed "\<lambda>w w'. reg_inv a fd r w \<longrightarrow> reg_inv a fd r w'" for a fd r
proof unfold_locales
  fix w :: conn_world and e t b obj
  let ?I = "reg_inv a fd r"
  have plain: "?I w \<longrightarrow> ?I (emit e w)" if "regs_after a fd [e] (regs_after a fd (trace w) r) = regs_after a fd (trace w) r" for e w
    using reg_inv_frame [of a fd r w "emit e w" "[e]"] that by simp
  have state: "?I w \<longrightarrow> ?I (set_state st w)" for st w
    using reg_inv_frame [of a fd r w _ "[]"] by (simp add: world_defs)
  show "?I w \<longrightarrow> ?I (emit e w)" if "plain_event e"
    using plain [of e w] regs_after_plain [OF that] by simp
  show "?I w \<longrightarrow> ?I (emit CbClose w)" "?I w \<longrightarrow> ?I (emit (StateTested t) w)"
    using plain [of CbClose w] plain [of "StateTested t" w] by simp_all
  show "?I w \<longrightarrow> ?I (set_state Disconnecting w)" "?I w \<longrightarrow> ?I (set_state Disconnected w)"
    using state by simp_all
  show "?I w \<longrightarrow> ?I (set_out b w)" "?I w \<longrightarrow> ?I (set_in b w)"
    using reg_inv_frame [of a fd r w _ "[]"] by (simp_all add: world_defs)
  have on: "?I v \<longrightarrow> ?I (update_interest (enableReading_mask (tie (conn_chan (conn v)) obj)) v)" for v
    using reg_inv_update [of a fd r v] by (simp add: reg_inv_def)
  show "?I w \<longrightarrow> ?I (update_interest (enableReading_mask (tie (conn_chan (conn w)) obj)) (set_state Connected w))"
    using on [of "set_state Connected w"] state [of w Connected] by (simp add: set_state_def)
  show "?I w \<longrightarrow> ?I (update_interest (disableWriting_mask (conn_chan (conn w))) w)"
    using reg_inv_update [of a fd r w] by (simp add: reg_inv_def)
  show "?I w \<longrightarrow> ?I (update_interest (enableWriting_mask (conn_chan (conn w))) w)"
    using reg_inv_update [of a fd r w "enableWriting_mask (conn_chan (conn w))"] by (simp add: reg_inv_def)
  have "?I (update_interest (disableAll_mask (conn_chan (conn w))) w)" if "?I w"
    using reg_inv_update [OF that, of "disableAll_mask (conn_chan (conn w))"] that by (simp add: reg_inv_def)
  then show "?I w \<longrightarrow> ?I (disable_all w)" "?I w \<longrightarrow> ?I (disable_all w)"
    using plain [of ChanDisabled "update_interest (disableAll_mask (conn_chan (conn w))) w"]
    by (simp_all add: disable_all_def)
qed auto

section \<open>When a connection is read\<close>

text \<open>
  The reading flag of the channel against the life of the connection: off until it is established,
  on from then until the interest is dropped, off after that; and the close callback is only invoked
  once the interest was dropped.
\<close>

definition life_ok :: "conn_state \<Rightarrow> bool \<Rightarrow> bool \<Rightarrow> bool \<Rightarrow> bool \<Rightarrow> bool" where
  "life_ok st reading was_tested dropped closed \<longleftrightarrow>
     (dropped \<longrightarrow> \<not> reading \<and> st \<noteq> Connecting) \<and>
     (st = Connecting \<longrightarrow> \<not> reading \<and> \<not> was_tested) \<and>
     (st = Connected \<or> st = Disconnecting \<or> was_tested \<longrightarrow> dropped \<or> reading) \<and>
     (closed \<longrightarrow> dropped)"

definition life_inv :: "conn_world \<Rightarrow> bool" where
  "life_inv w \<longleftrightarrow> life_ok (conn_state (conn w)) (isReading (conn_chan (conn w))) (tested (trace w))
     (ChanDisabled \<in> set (trace w)) (CbClose \<in> set (trace w))"

text \<open>Between the steps of a connection, one that counts as connected has not dropped its interest.\<close>

definition open_inv :: "conn_world \<Rightarrow> bool" where
  "open_inv w \<longleftrightarrow> life_inv w \<and> (conn_state (conn w) = Connected \<longrightarrow> ChanDisabled \<notin> set (trace w))"

lemma plain_life: "plain_event e \<Longrightarrow> \<not> tested [e] \<and> e \<noteq> ChanDisabled \<and> e \<noteq> CbClose"
  by (cases e) simp_all

lemma life_plain: "plain_event e \<Longrightarrow> life_inv (emit e w) = life_inv w"
  using plain_life [of e] by (auto simp: life_inv_def)

text \<open>What the primitive changes do to the five things the invariant looks at.\<close>

lemma life_changes:
  "life_inv (emit CbClose w) = life_ok (conn_state (conn w)) (isReading (conn_chan (conn w))) (tested (trace w)) (ChanDisabled \<in> set (trace w)) True"
  "life_inv (emit (StateTested t) w) = life_ok (conn_state (conn w)) (isReading (conn_chan (conn w))) True (ChanDisabled \<in> set (trace w)) (CbClose \<in> set (trace w))"
  "life_inv (set_state st w) = life_ok st (isReading (conn_chan (conn w))) (tested (trace w)) (ChanDisabled \<in> set (trace w)) (CbClose \<in> set (trace w))"
  "life_inv (update_interest ch w) = life_ok (conn_state (conn w)) (isReading ch) (tested (trace w)) (ChanDisabled \<in> set (trace w)) (CbClose \<in> set (trace w))"
  "life_inv (disable_all w) = life_ok (conn_state (conn w)) False (tested (trace w)) True (CbClose \<in> set (trace w))"
  "life_inv (set_out b w) = life_inv w" "life_inv (set_in b w) = life_inv w"
  "conn_state (conn (set_state st w)) = st" "trace (set_state st w) = trace w" "conn_state (conn (update_interest ch w)) = conn_state (conn w)"
  "ChanDisabled \<in> set (trace (update_interest ch w)) \<longleftrightarrow> ChanDisabled \<in> set (trace w)" "tested (trace (update_interest ch w)) = tested (trace w)"
  "CbClose \<in> set (trace (update_interest ch w)) \<longleftrightarrow> CbClose \<in> set (trace w)"
  "conn_state (conn (set_in b w)) = conn_state (conn w)" "trace (set_in b w) = trace w" "conn_state (conn (disable_all w)) = conn_state (conn w)"
  by (simp_all add: life_inv_def world_defs)

interpretation life: conn_closed_destroyed "\<lambda>w w'. life_inv w \<longrightarrow> life_inv w'"
proof unfold_locales
  fix w :: conn_world and e t b obj
  show "life_inv w \<longrightarrow> life_inv (emit e w)" if "plain_event e" using that by (simp add: life_plain)
  show "life_inv w \<longrightarrow> life_inv (emit CbClose w)" if "ChanDisabled \<in> set (trace w)"
    using that by (simp add: life_changes) (simp add: life_inv_def life_ok_def)
  show "life_inv w \<longrightarrow> life_inv (emit (StateTested t) w)" if "conn_state (conn w) \<in> {Connected, Disconnecting}"
    using that by (auto simp: life_changes) (auto simp: life_inv_def life_ok_def)
  show "life_inv w \<longrightarrow> life_inv (set_state Disconnecting w)"
    if "conn_state (conn w) \<in> {Connected, Disconnecting} \<or> tested (trace w)"
    using that by (auto simp: life_changes) (auto simp: life_inv_def life_ok_def)
qed (simp_all add: life_changes, auto simp: life_inv_def life_ok_def)

interpretation opened: conn_closed "\<lambda>w w'. open_inv w \<longrightarrow> open_inv w'"
proof unfold_locales
  fix w :: conn_world and e
  assume e: "plain_event e"
  then show "open_inv w \<longrightarrow> open_inv (emit e w)"
    using life_plain [OF e, of w] plain_life [OF e] by (auto simp: open_inv_def)
qed (simp_all add: open_inv_def life_changes, auto simp: life_inv_def life_ok_def)

lemma open_inv_step: "conn_step w w' \<Longrightarrow> conn_inv w \<Longrightarrow> open_inv w \<Longrightarrow> open_inv w'"
proof (induction rule: conn_step.induct)
  case (step_task cbs wr t w me w')
  show ?case
  proof (cases "t = DestroyTask")
    case True
    have "life_inv w'"
      using life.task [OF step_task.hyps(1-3,5)] step_task.prems by (simp add: along_def open_inv_def)
    moreover have "conn_state (conn w') = Disconnected"
      using step_task.hyps(5) True by (auto simp: connectDestroyed_def bind_res_eq_Inr Let_def set_state_def split: if_splits)
    ultimately show ?thesis by (simp add: open_inv_def)
  next
    case False
    with step_task have "along (\<lambda>w w'. open_inv w \<longrightarrow> open_inv w') w w'"
      using opened.sendInLoop [of wr me _ w w'] opened.shutdownInLoop [of me w w']
      by (cases t) (auto simp: along_def intro: sendInLoop_ok shutdownInLoop_ok dest: opened.close)
    with step_task.prems show ?thesis by (simp add: along_def)
  qed
qed (auto simp: along_def dest: opened.connectEstablished opened.api opened.event)

section \<open>Properties\<close>

definition fresh_fd :: "int \<Rightarrow> kregs \<Rightarrow> bool" where
  "fresh_fd fd r \<longleftrightarrow> r (fd, EVFILT_READ) = None \<and> r (fd, EVFILT_WRITE) = None"

lemma reachable_reg_inv:
  assumes "reachable conn_start conn_step w"
  shows "\<forall>r. fresh_fd (ch_fd (conn_chan (conn w))) r \<longrightarrow> reg_inv a (ch_fd (conn_chan (conn w))) r w"
  using assms
proof (induction rule: reachable.induct)
  case (reachable_start w)
  then show ?case by (auto simp: conn_start_def TcpConnection_ctor_def reg_inv_def fresh_fd_def)
next
  case (reachable_step w w')
  have inv: "conn_inv w" by (rule connection.reachable_inv [OF reachable_step.hyps(1)])
  have keep: "reg_inv a (ch_fd (conn_chan (conn w))) r w'" if "fresh_fd (ch_fd (conn_chan (conn w))) r" for r
    using reg.step [OF reachable_step.hyps(2), of a "ch_fd (conn_chan (conn w))" r] inv reachable_step.IH that
    by (simp add: along_def)
  have "ch_fd (conn_chan (conn w')) = ch_fd (conn_chan (conn w))"
    using keep [of Map.empty] by (simp add: fresh_fd_def reg_inv_def)
  with keep show ?case by simp
qed

lemma reachable_open: "reachable conn_start conn_step w \<Longrightarrow> open_inv w"
proof (induction rule: reachable.induct)
  case (reachable_start w)
  then show ?case by (auto simp: conn_start_def TcpConnection_ctor_def open_inv_def life_inv_def life_ok_def)
next
  case (reachable_step w w')
  then show ?case using open_inv_step connection.reachable_inv by blast
qed

text \<open>C3. The kernel and a connection agree on what is watched, in every reachable state of a connection whose
  descriptor was not registered when it was created. While the connection is connected, and until
  its interest is dropped also while it is disconnecting, the kernel reports readability, and
  writability exactly when the mask asks for it, so pending output is always watched for. Before the
  connection is established, and from the moment its interest was dropped, which is the case whenever
  the close callback has been invoked, nothing is registered, whatever the mask says, so output that is
  buffered then is never written. Other descriptors are untouched.\<close>

theorem kernel_watches_connection:
  assumes "reachable conn_start conn_step w" and "fresh_fd (ch_fd (conn_chan (conn w))) r"
  shows "let fd = ch_fd (conn_chan (conn w)); r' = regs_after a fd (trace w) r in
    (conn_state (conn w) = Connected \<or> conn_state (conn w) = Disconnecting \<and> ChanDisabled \<notin> set (trace w) \<longrightarrow>
       r' (fd, EVFILT_READ) = Some a \<and> r' (fd, EVFILT_WRITE) = (if isWriting (conn_chan (conn w)) then Some a else None)
       \<and> (content (outputBuffer (conn w)) \<noteq> [] \<longrightarrow> r' (fd, EVFILT_WRITE) = Some a))
    \<and> (conn_state (conn w) = Connecting \<or> ChanDisabled \<in> set (trace w) \<or> CbClose \<in> set (trace w) \<longrightarrow>
       r' (fd, EVFILT_READ) = None \<and> r' (fd, EVFILT_WRITE) = None)
    \<and> (\<forall>fd' f. fd' \<noteq> fd \<longrightarrow> r' (fd', f) = r (fd', f))"
proof -
  have reg: "reg_inv a (ch_fd (conn_chan (conn w))) r w"
    using reachable_reg_inv [OF assms(1)] assms(2) by blast
  have "open_inv w" by (rule reachable_open [OF assms(1)])
  then have "conn_state (conn w) = Connected \<or> conn_state (conn w) = Disconnecting \<and> ChanDisabled \<notin> set (trace w) \<Longrightarrow>
      isReading (conn_chan (conn w)) \<and> ChanDisabled \<notin> set (trace w)"
    and "conn_state (conn w) = Connecting \<or> ChanDisabled \<in> set (trace w) \<or> CbClose \<in> set (trace w) \<Longrightarrow> \<not> isReading (conn_chan (conn w))"
    by (auto simp: open_inv_def life_inv_def life_ok_def)
  moreover have "isWriting (conn_chan (conn w))" if "content (outputBuffer (conn w)) \<noteq> []" "ChanDisabled \<notin> set (trace w)"
    using connection.reachable_inv [OF assms(1)] that by (simp add: conn_inv_def)
  moreover note reg
  ultimately show ?thesis
    by (auto simp: reg_inv_def watched_def Let_def)
qed

theorem kernel_watches_connection_witness:
  "regs_after 4 5 (trace sample_established) Map.empty (5, EVFILT_READ) = Some 4
     \<and> regs_after 4 5 (trace sample_established) Map.empty (5, EVFILT_WRITE) = None"
proof -
  have fd: "ch_fd (conn_chan (conn sample_established)) = 5"
    by (simp_all add: sample_established_def sample_conn_def TcpConnection_ctor_def Let_def)
  from kernel_watches_connection [OF sample_reachable(1), of Map.empty 4] show ?thesis
    by (simp add: fd fresh_fd_def sample_fields Let_def del: regs_after.simps)
qed

end
