(* ===== verification/Races.thy ===== *)
theory Races
  imports AsyncServer TcpServer
begin

text \<open>
  Operations that threads can interrupt where the code takes no lock. \<^verbatim>\<open>TcpConnection::send\<close> on another
  thread tests the state and then queues a functor; \<^verbatim>\<open>shutdown\<close> and \<^verbatim>\<open>forceClose\<close> test the state, set it and then
  queue a functor; the move constructor of \<^verbatim>\<open>AsyncConnection\<close> moves the members and then rebinds the
  callbacks. Each is given here as its two parts, shown to be their
  composition when nothing comes in between, and run with what another thread may do in between.
\<close>

section \<open>The two parts of a send from another thread\<close>

definition send_test :: "conn_world \<Rightarrow> bool" where
  "send_test w \<longleftrightarrow> conn_state (conn w) = Connected"

definition send_enqueue :: "string \<Rightarrow> conn_world \<Rightarrow> conn_world res" where
  "send_enqueue msg w = Inr (emit (Queued (SendTask msg)) w)"

lemma send_parts:
  assumes "\<not> conn_in_loop me w"
  shows "send wr me msg w = (if send_test w then send_enqueue msg w else Inr w)"
  using assms by (simp add: send_def send_test_def send_enqueue_def)

text \<open>Nobody but one pointer of the user refers to the connection.\<close>

definition last_pointer :: "nat \<Rightarrow> server \<Rightarrow> bool" where
  "last_pointer c s \<longleftrightarrow> count_list (srv_users s) c = 1 \<and> c \<notin> snd ` set (connections s) \<and>
     (\<forall>e \<in> set (srv_queue s @ srv_batch s @ srv_held s). task_conn (snd e) \<noteq> Some c)"

lemma remove1_last: "count_list xs x = Suc 0 \<Longrightarrow> x \<notin> set (remove1 x xs)"
  by (induction xs) (auto simp: count_list_0_iff split: if_splits)

lemma last_pointer_released:
  assumes "last_pointer c s"
  shows "\<not> referenced c (s\<lparr>srv_users := remove1 c (srv_users s)\<rparr>)"
  using assms remove1_last [of "srv_users s" c] by (simp add: last_pointer_def referenced_def case_prod_unfold)

lemma last_pointer_state:
  assumes "server_inv T {} s" and "last_pointer c s" and "srv_conns s c = Some w"
  shows "conn_state (conn w) = Disconnected \<or> LateSet Disconnected \<in> set (trace w) \<and> conn_state (conn w) = Disconnecting"
proof -
  have "c \<notin> live s" "SDestroy c \<notin> snd ` set (srv_queue s @ srv_batch s)"
    using assms(2) by (force simp: last_pointer_def live_def)+
  with assms(1,3) have "conn_state (conn w) = Disconnected \<or> \<not> no_late (trace w)"
    using destroy_okD(4) [of "{}" s c w] by (auto simp: server_inv_def)
  moreover have "conn_inv w"
    using assms(1,3) heap_okD(2) connection.reachable_inv by (metis server_inv_def)
  then have "no_late (trace w) \<or> Disconnecting \<le> conn_state (conn w)" by (auto simp: conn_inv_def)
  ultimately show ?thesis
    by (cases "conn_state (conn w)") (auto simp: no_late_iff less_eq_conn_state_def)
qed

text \<open>Dropping the last pointer destroys the object, whose destructor asserts that it is disconnected.\<close>

lemma last_pointer_drop:
  assumes "last_pointer c s" and "srv_conns s c = Some w"
  shows "if conn_state (conn w) = Disconnected then \<exists>s'. user_drop c s = (s', Inr ()) \<and> srv_conns s' c = None
    else snd (user_drop c s) = Inl AssertFailed"
  using last_pointer_released [OF assms(1)] assms(2)
  by (simp add: user_drop_def release_def put_conn_def TcpConnection_dtor_def add_calls_def)

lemma last_pointer_put: "last_pointer c (put_conn c w s) = last_pointer c s"
  by (simp add: last_pointer_def put_conn_def)

section \<open>The parts of a shutdown or forceClose from another thread\<close>

text \<open>What is left of the call after its test of the state; the parts are \<open>test_state\<close>, \<open>late_set\<close> and the queueing.\<close>

definition finish_close :: "conn_task \<Rightarrow> conn_world \<Rightarrow> conn_world res" where
  "finish_close t w = bind_res (late_set t w) (\<lambda>w1. Inr (emit (Queued t) w1))"

lemma finish_close_api: "task_ok t \<Longrightarrow> api_fun (finish_close t)"
  unfolding finish_close_def [abs_def] by (rule api_seq [OF api_late api_queue])

section \<open>The two parts of moving a connection wrapper\<close>

definition move_members :: "nat \<Rightarrow> nat \<Rightarrow> async_world \<Rightarrow> async_world res" where
  "move_members dst src W =
     with_ac src W (\<lambda>x. Inr (put_ac src (Some (moved_from x)) (put_ac dst (Some (x\<lparr>receivedData := fst (Buffer_move (receivedData x))\<rparr>)) W)))"

lemma move_parts: "AsyncConnection_move dst src W = bind_res (move_members dst src W) (\<lambda>W1. Inr (bindCallbacks dst W1))"
  by (simp add: AsyncConnection_move_def move_members_def with_ac_def split: option.splits)

section \<open>Runs in which the peer closes between the parts\<close>

text \<open>
  A client is connected and the user holds a pointer. From such a state the peer closes, the loop
  runs the functor that destroys the connection and ends its round; the pointer of the user is left.
\<close>

definition held_serving :: server where
  "held_serving = user_hold 0 sample_serving"

definition tested_serving :: server where
  "tested_serving = fst (run_conn 5 (test_state ShutdownTask) 0 held_serving)"

definition one_client :: "conn_world \<Rightarrow> server \<Rightarrow> bool" where
  "one_client w s \<longleftrightarrow> srv_conns s 0 = Some w \<and> conn_state (conn w) = Connected \<and> conn_thread (conn w) = 0 \<and> conn_name (conn w) = ''s#1''
     \<and> conn_loop (conn w) = 1 \<and> tied (conn_chan (conn w)) \<and> tie_obj (conn_chan (conn w)) = Some 0
     \<and> connections s = [(''s#1'', 0)] \<and> srv_tid s = 0 \<and> srv_users s = [0] \<and> srv_queue s = [] \<and> srv_batch s = [] \<and> srv_held s = []"

lemma one_client_closes:
  assumes r: "reachable (server_start (\<lambda>l. 0)) (server_step (\<lambda>l. 0)) s" and s: "one_client w s"
  shows "\<exists>s' w'. (server_step (\<lambda>l. 0))\<^sup>*\<^sup>* s s' \<and> last_pointer 0 s' \<and> srv_conns s' 0 = Some w'
    \<and> trace w' = trace w @ [Interest False False, ChanDisabled, CbConnection Disconnected, CbClose, Queued DestroyTask]"
proof -
  let ?step = "server_step (\<lambda>l. 0)"
  obtain w1 where w1: "run_conn 0 peer_closes 0 s = (queue_task 1 (SDestroy 0) (put_conn 0 (Some w1) (s\<lparr>connections := []\<rparr>)), Inr ())"
      "conn_state (conn w1) = Disconnected" "conn_thread (conn w1) = 0"
      "trace w1 = trace w @ [Interest False False, ChanDisabled, CbConnection Disconnected, CbClose, Queued DestroyTask]"
    using peer_closes_run [of s w] s by (auto simp: one_client_def)
  define s1 where "s1 = queue_task 1 (SDestroy 0) (put_conn 0 (Some w1) (s\<lparr>connections := []\<rparr>))"
  have st1: "?step s s1" using peer_closes_step w1(1) by (simp add: s1_def)
  define s2 where "s2 = swap_functors 1 s1"
  have st2: "?step s1 s2" unfolding s2_def by (rule srv_swap) (use s in \<open>simp add: s1_def queue_task_def put_conn_def one_client_def\<close>)
  have s2: "srv_batch s2 = [] @ (1, SDestroy 0) # []" "srv_queue s2 = []" "srv_held s2 = []" "srv_conns s2 0 = Some w1" "connections s2 = []"
      "srv_users s2 = [0]"
    using s by (simp_all add: s2_def s1_def swap_functors_def queue_task_def put_conn_def one_client_def)
  have "server_inv (\<lambda>l. 0) {} s2"
    using server.reachable_inv [OF r] st1 st2 by (blast intro: server_step_inv)
  then have "conn_inv w1" using heap_okD(2) s2(4) connection.reachable_inv by (metis server_inv_def)
  let ?s3 = "put_conn 0 (Some (set_state Disconnected w1)) (s2\<lparr>srv_batch := [] @ [], srv_held := srv_held s2 @ [(1, SDestroy 0)]\<rparr>)"
  have "run_server_task silent_cbs take_all good_kernel 0 (SDestroy 0) (s2\<lparr>srv_batch := [] @ [], srv_held := srv_held s2 @ [(1, SDestroy 0)]\<rparr>) = (?s3, Inr ())"
    using destroy_disconnected [OF \<open>conn_inv w1\<close> w1(2,3)] s2(4) by simp
  then have st3: "?step s2 ?s3"
    using srv_task [OF silent_cbs_ok take_all_documented s2(1), of good_kernel "\<lambda>l. 0" ?s3] by simp
  have "referenced 0 (?s3\<lparr>srv_held := []\<rparr>)" by (simp add: referenced_def s2 put_conn_def)
  then have "end_round 1 ?s3 = (?s3\<lparr>srv_held := []\<rparr>, Inr ())"
    by (simp add: end_round_def s2(3) put_conn_def map_filter_simps then_do_def release_def)
  then have st4: "?step ?s3 (?s3\<lparr>srv_held := []\<rparr>)" by (intro srv_round [of 1]) (simp_all add: put_conn_def)
  have "?step\<^sup>*\<^sup>* s (?s3\<lparr>srv_held := []\<rparr>)"
    using st1 st2 st3 st4 by (meson converse_rtranclp_into_rtranclp rtranclp.rtrancl_refl)
  moreover have "last_pointer 0 (?s3\<lparr>srv_held := []\<rparr>)" "srv_conns (?s3\<lparr>srv_held := []\<rparr>) 0 = Some (set_state Disconnected w1)"
    using s2 by (simp_all add: last_pointer_def put_conn_def)
  ultimately show ?thesis
    using w1(4) by (intro exI [of _ "?s3\<lparr>srv_held := []\<rparr>"] exI [of _ "set_state Disconnected w1"]) (simp add: set_state_def)
qed

lemma held_client:
  "\<exists>w. reachable (server_start (\<lambda>l. 0)) (server_step (\<lambda>l. 0)) held_serving \<and> one_client w held_serving \<and> LateSet Disconnected \<notin> set (trace w)"
proof -
  obtain w where w: "srv_conns sample_serving 0 = Some w" "conn_state (conn w) = Connected" "conn_thread (conn w) = 0" "conn_name (conn w) = ''s#1''"
      "conn_loop (conn w) = 1" "tied (conn_chan (conn w))" "tie_obj (conn_chan (conn w)) = Some 0" "no_late (trace w)"
    using sample_accept(2) by auto
  then have "one_client w held_serving"
    by (simp add: one_client_def held_serving_def user_hold_def sample_accept)
  with w reachable_step [OF sample_serving_reachable srv_hold [of sample_serving 0]] show ?thesis
    by (auto simp: held_serving_def no_late_iff)
qed

lemma tested_client:
  "\<exists>w. reachable (server_start (\<lambda>l. 0)) (server_step (\<lambda>l. 0)) tested_serving \<and> one_client w tested_serving
     \<and> StateTested ShutdownTask \<in> set (trace w) \<and> LateSet Disconnected \<notin> set (trace w)"
proof -
  obtain w where w: "reachable (server_start (\<lambda>l. 0)) (server_step (\<lambda>l. 0)) held_serving" "one_client w held_serving" "LateSet Disconnected \<notin> set (trace w)"
    using held_client by blast
  let ?w = "emit (StateTested ShutdownTask) w"
  have run: "run_conn 5 (test_state ShutdownTask) 0 held_serving = (put_conn 0 (Some ?w) held_serving, Inr ())"
    using w(2) by (simp add: run_conn_def one_client_def test_state_def new_closes_def)
  then have t: "tested_serving = put_conn 0 (Some ?w) held_serving" by (simp add: tested_serving_def)
  have "server_step (\<lambda>l. 0) held_serving tested_serving"
    using srv_conn_api [OF api_test, of 0 held_serving 5 ShutdownTask] run t w(2) by (simp add: one_client_def)
  with w(1) have "reachable (server_start (\<lambda>l. 0)) (server_step (\<lambda>l. 0)) tested_serving" by (rule reachable_step)
  moreover have "one_client ?w tested_serving" using w(2) by (simp add: t one_client_def put_conn_def)
  ultimately show ?thesis using w(3) by (intro exI [of _ ?w]) simp
qed

section \<open>Properties\<close>

text \<open>C31. A send that loses the race with the close of its connection: let another thread, holding a pointer, find a
  connection connected, and let the loops close and destroy it before that thread queues its functor,
  so that its pointer is the last reference. A test made now would refuse the send; but the functor is queued, the
  connection goes with the pointer, and when the loop runs the functor it accesses a destroyed object. (When, on
  top of that, a late \<^verbatim>\<open>shutdown\<close> or \<^verbatim>\<open>forceClose\<close> overwrote the state, dropping the pointer already fails the assertion
  of the destructor.)\<close>

theorem send_races_with_close:
  assumes "reachable (server_start T) (server_step T) s" and "srv_conns s c = Some w" and "send_test w" and "\<not> conn_in_loop me w"
    and "c \<in> set (srv_users s)" and "(server_step T)\<^sup>*\<^sup>* s s'" and "last_pointer c s'" and "srv_conns s' c = Some w'"
  shows "\<not> send_test w' \<and>
    (\<exists>s1. run_conn me (send_enqueue msg) c s' = (s1, Inr ()) \<and>
      (if conn_state (conn w') = Disconnected
       then \<exists>s2. user_drop c s1 = (s2, Inr ())
         \<and> (\<forall>cbs wr lt. run_conn lt (run_task cbs wr lt (SendTask msg)) c s2 = (s2, Inl UseAfterFree))
       else LateSet Disconnected \<in> set (trace w') \<and> snd (user_drop c s1) = Inl AssertFailed))"
proof -
  have inv: "server_inv T {} s'"
    using assms(6) server.reachable_inv [OF assms(1)] by (induction rule: rtranclp_induct) (auto intro: server_step_inv)
  note off = last_pointer_state [OF inv assms(7,8)]
  let ?w1 = "emit (Queued (SendTask msg)) w'"
  let ?s1 = "put_conn c (Some ?w1) s'"
  have run: "run_conn me (send_enqueue msg) c s' = (?s1, Inr ())"
    using assms(8) by (simp add: run_conn_def send_enqueue_def new_closes_def)
  have "last_pointer c ?s1" "srv_conns ?s1 c = Some ?w1"
    using assms(7) by (simp_all add: last_pointer_put) (simp add: put_conn_def)
  from last_pointer_drop [OF this] run off show ?thesis
    by (auto simp: send_test_def run_conn_def)
qed

theorem send_races_with_close_witness:
  "\<exists>s' s1 s2. (server_step (\<lambda>l. 0))\<^sup>*\<^sup>* held_serving s' \<and> run_conn 5 (send_enqueue ''late'') 0 s' = (s1, Inr ()) \<and> user_drop 0 s1 = (s2, Inr ())
     \<and> run_conn 0 (run_task silent_cbs take_all 0 (SendTask ''late'')) 0 s2 = (s2, Inl UseAfterFree)"
proof -
  obtain w where w: "reachable (server_start (\<lambda>l. 0)) (server_step (\<lambda>l. 0)) held_serving" "one_client w held_serving" "LateSet Disconnected \<notin> set (trace w)"
    using held_client by blast
  obtain s w' where s: "(server_step (\<lambda>l. 0))\<^sup>*\<^sup>* held_serving s" "last_pointer 0 s" "srv_conns s 0 = Some w'" "LateSet Disconnected \<notin> set (trace w')"
    using one_client_closes [OF w(1,2)] w(3) by auto
  have "srv_conns held_serving 0 = Some w" "send_test w" "\<not> conn_in_loop 5 w" "0 \<in> set (srv_users held_serving)"
    using w(2) by (simp_all add: one_client_def send_test_def conn_in_loop_def)
  from send_races_with_close [OF w(1) this s(1-3), of "''late''"] s(1,4) show ?thesis by (auto split: if_splits)
qed

text \<open>C30. A \<^verbatim>\<open>shutdown\<close> or \<^verbatim>\<open>forceClose\<close> that loses the race with the close of its connection: let another thread find the
  connection in a state in which it may go on, and let the loops close and destroy the connection before that
  thread writes the state, so that its pointer is the last reference. A test made now would refuse; but
  the call goes on, a disconnected connection is disconnecting again, and when the thread drops
  its pointer the assertion of the destructor fails.\<close>

theorem shutdown_races_with_close:
  assumes "reachable (server_start T) (server_step T) s" and "srv_conns s c = Some w" and "StateTested t \<in> set (trace w)"
    and "t = ShutdownTask \<or> t = CloseTask" and "last_pointer c s" and "LateSet Disconnected \<notin> set (trace w)"
  shows "\<not> close_test t w \<and> conn_state (conn w) = Disconnected \<and>
    (\<exists>s1 w1. run_conn me (finish_close t) c s = (s1, Inr ()) \<and> reachable (server_start T) (server_step T) s1
      \<and> srv_conns s1 c = Some w1 \<and> conn_state (conn w1) = Disconnecting \<and> trace w1 = trace w @ [LateSet Disconnected, Queued t]
      \<and> snd (user_drop c s1) = Inl AssertFailed)"
proof -
  have off: "conn_state (conn w) = Disconnected"
    using last_pointer_state [OF server.reachable_inv [OF assms(1)] assms(5,2)] assms(6) by blast
  let ?w1 = "emit (Queued t) (emit (LateSet Disconnected) (set_state Disconnecting w))"
  let ?s1 = "put_conn c (Some ?w1) s"
  have "new_closes w ?w1 = 0" by (simp add: new_closes_def set_state_def)
  then have run: "run_conn me (finish_close t) c s = (?s1, Inr ())"
    using assms(2,3) off by (simp add: run_conn_def finish_close_def late_set_def)
  have "c \<in> set (srv_users s)" using assms(5) by (auto simp: last_pointer_def intro: ccontr)
  then have "server_step T s ?s1"
    using srv_conn_api [OF finish_close_api _ run] assms(4) by auto
  then have "reachable (server_start T) (server_step T) ?s1" by (rule reachable_step [OF assms(1)])
  moreover have "last_pointer c ?s1" "srv_conns ?s1 c = Some ?w1" "conn_state (conn ?w1) = Disconnecting"
      "trace ?w1 = trace w @ [LateSet Disconnected, Queued t]"
    using assms(5) by (simp_all add: last_pointer_put put_conn_def set_state_def) (simp add: last_pointer_def)
  ultimately show ?thesis
    using last_pointer_drop [of c ?s1 ?w1] run off assms(4) by (auto simp del: world_simps)
qed

theorem shutdown_races_with_close_witness:
  "\<exists>s s1. (server_step (\<lambda>l. 0))\<^sup>*\<^sup>* tested_serving s \<and> run_conn 5 (finish_close ShutdownTask) 0 s = (s1, Inr ())
     \<and> snd (user_drop 0 s1) = Inl AssertFailed"
proof -
  obtain w where w: "reachable (server_start (\<lambda>l. 0)) (server_step (\<lambda>l. 0)) tested_serving" "one_client w tested_serving"
      "StateTested ShutdownTask \<in> set (trace w)" "LateSet Disconnected \<notin> set (trace w)"
    using tested_client by blast
  obtain s w' where s: "(server_step (\<lambda>l. 0))\<^sup>*\<^sup>* tested_serving s" "last_pointer 0 s" "srv_conns s 0 = Some w'"
      "StateTested ShutdownTask \<in> set (trace w')" "LateSet Disconnected \<notin> set (trace w')"
    using one_client_closes [OF w(1,2)] w(3,4) by auto
  from shutdown_races_with_close [OF reachable_steps [OF w(1) s(1)] s(3,4) _ s(2,5), of 5] s(1) show ?thesis by blast
qed

text \<open>C32. Moving a wrapper while its connection receives: the move constructor takes no lock and rebinds the callbacks
  last. A message that the connection's loop delivers after the members were moved goes to the old
  object, whose buffer has lost its storage, and is written out of bounds; a message that comes after the
  whole move goes to the new object.\<close>

theorem move_races_with_message:
  assumes "dst \<noteq> src" and "acs W src = Some x" and "ac_conn x = Some c" and "msg_cb W c = Some src" and "buf_inv (receivedData x)"
    and "buf_inv buf" and "content buf \<noteq> []" and "length (content buf) \<le> vec_max"
  shows "\<exists>W1. move_members dst src W = Inr W1 \<and> message_arrives c buf W1 = Inl OutOfBounds
    \<and> message_arrives c buf (bindCallbacks dst W1) = onMessage dst buf (bindCallbacks dst W1)
    \<and> AsyncConnection_move dst src W = Inr (bindCallbacks dst W1)"
proof -
  let ?W1 = "put_ac src (Some (moved_from x)) (put_ac dst (Some (x\<lparr>receivedData := fst (Buffer_move (receivedData x))\<rparr>)) W)"
  have m: "move_members dst src W = Inr ?W1" using assms(2) by (simp add: move_members_def with_ac_def)
  have "readerIndex (receivedData x) \<le> vec_max" using buf_invD [OF assms(5)] by linarith
  then have "append (receivedData (moved_from x)) (content buf) = Inl OutOfBounds"
    using moved_from_append [OF assms(5,7,8)] by (simp add: moved_from_def)
  then have "message_arrives c buf ?W1 = Inl OutOfBounds"
    using assms(4,6) by (simp add: message_arrives_def put_ac_def onMessage_def with_ac_def)
  moreover have "message_arrives c buf (bindCallbacks dst ?W1) = onMessage dst buf (bindCallbacks dst ?W1)"
    using assms(1,3) by (simp add: message_arrives_def bindCallbacks_def put_ac_def)
  ultimately show ?thesis using m by (simp add: move_parts)
qed

theorem move_races_with_message_witness:
  "\<exists>W1 buf. move_members 1 0 sample_async = Inr W1 \<and> content buf = ''hi'' \<and> message_arrives 3 buf W1 = Inl OutOfBounds"
proof -
  obtain b where b: "append Buffer_default ''hi'' = Inr b" "buf_inv b" "content b = ''hi''"
    using append_to_empty [of Buffer_default "''hi''"] by (auto simp: Buffer_default_fields kCheapPrepend_def)
  with move_races_with_message [of 1 0 sample_async _ 3 b] show ?thesis
    by (auto simp: sample_async_fields)
qed

end
