(* ===== verification/WakeupPipe.thy ===== *)
theory WakeupPipe
  imports EventLoop
begin

text \<open>
  The wakeup pipe with its capacity. \<open>EventLoop\<close> lets \<^verbatim>\<open>wakeup()\<close> always succeed; in the program it writes eight
  bytes to a pipe whose write end the constructor leaves blocking, and the loop reads eight bytes back
  per poll that reports the pipe. Here the pipe holds \<open>cap\<close> words and a write to a full pipe does not
  return until there is room. The interleaving of \<open>loop_step\<close> is refined accordingly: everything shown of
  it still holds, and one more thing can happen: the loop's own thread waits for room that only it
  could make.
\<close>

section \<open>A pipe of bounded capacity\<close>

text \<open>\<open>None\<close>: the write does not return now.\<close>

definition wakeup_bounded :: "nat \<Rightarrow> ('k, 'f) event_loop \<Rightarrow> ('k, 'f) event_loop option" where
  "wakeup_bounded cap l = (if wakeup_words l < cap then Some (wakeup l) else None)"

text \<open>
  The state says whether the loop's thread is inside the write of \<^verbatim>\<open>queueInLoop\<close>. While it is not, every step of
  the unbounded relation that leaves no more than \<open>cap\<close> words is possible; a thread other than the
  loop's that finds the pipe full stays among the \<open>wakers\<close>.
\<close>

type_synonym ('k, 'f) pipe_sys = "('k, 'f) loop_sys \<times> bool"

inductive pipe_step :: "nat \<Rightarrow> ('k, 'f) pipe_sys \<Rightarrow> ('k, 'f) pipe_sys \<Rightarrow> bool" for cap where
  pipe_fits: "loop_step s t \<Longrightarrow> wakeup_words (el t) \<le> cap \<Longrightarrow> pipe_step cap (s, False) (t, False)"
| pipe_full: "in_call s \<Longrightarrow> pc s = Calling \<Longrightarrow> queue_needs_wakeup (threadId (el s)) (queue_push f (el s)) \<Longrightarrow>
     wakeup_bounded cap (queue_push f (el s)) = None \<Longrightarrow>
     pipe_step cap (s, False) (s\<lparr>el := queue_push f (el s), pushed := pushed s @ [f]\<rparr>, True)"
| pipe_write: "wakeup_bounded cap (el s) = Some l \<Longrightarrow> pipe_step cap (s, True) (s\<lparr>el := l\<rparr>, False)"
| pipe_other_push: "me \<noteq> threadId (el s) \<Longrightarrow>
     pipe_step cap (s, True) (s\<lparr>el := queue_push f (el s), pushed := pushed s @ [f], wakers := Suc (wakers s)\<rparr>, True)"
| pipe_other_wakeup: "wakers s = Suc n \<Longrightarrow> wakeup_bounded cap (el s) = Some l \<Longrightarrow>
     pipe_step cap (s, True) (s\<lparr>el := l, wakers := n\<rparr>, True)"
| pipe_other_quit: "me \<noteq> threadId (el s) \<Longrightarrow>
     pipe_step cap (s, True) (s\<lparr>el := (el s)\<lparr>quit_flag := True\<rparr>, wakers := Suc (wakers s)\<rparr>, True)"

inductive_cases pipe_stepE: "pipe_step cap x y"

definition pipe_start :: "('k, 'f) pipe_sys \<Rightarrow> bool" where
  "pipe_start x \<longleftrightarrow> loop_start (fst x) \<and> \<not> snd x"

section \<open>Refinement of the unbounded pipe\<close>

text \<open>A loop that waits in its write is, for the unbounded relation, one more thread between its push and its wakeup.\<close>

definition unbounded :: "('k, 'f) pipe_sys \<Rightarrow> ('k, 'f) loop_sys" where
  "unbounded x = (if snd x then (fst x)\<lparr>wakers := Suc (wakers (fst x))\<rparr> else fst x)"

lemma pipe_step_sim: "pipe_step cap x y \<Longrightarrow> loop_step (unbounded x) (unbounded y)"
proof (induction rule: pipe_step.induct)
  case (pipe_fits s t)
  then show ?case by (simp add: unbounded_def)
next
  case (pipe_full s f)
  have "loop_step s (s\<lparr>el := queue_push f (el s), pushed := pushed s @ [f], wakers := Suc (wakers s)\<rparr>)"
    using loop_step.other_push [of "Suc (threadId (el s))" s f] by (simp add: queue_needs_wakeup_def isInLoopThread_def queue_push_def)
  then show ?case by (simp add: unbounded_def)
next
  case (pipe_write s l)
  then show ?case
    using loop_step.other_wakeup [of "s\<lparr>wakers := Suc (wakers s)\<rparr>" "wakers s"] by (simp add: unbounded_def wakeup_bounded_def split: if_splits)
next
  case (pipe_other_push me s f)
  then show ?case
    using loop_step.other_push [of me "s\<lparr>wakers := Suc (wakers s)\<rparr>" f]
    by (simp add: unbounded_def queue_needs_wakeup_def isInLoopThread_def queue_push_def)
next
  case (pipe_other_wakeup s n l)
  then show ?case
    using loop_step.other_wakeup [of "s\<lparr>wakers := Suc (wakers s)\<rparr>" "Suc n"] by (simp add: unbounded_def wakeup_bounded_def split: if_splits)
next
  case (pipe_other_quit me s)
  then show ?case
    using loop_step.other_quit [of me "s\<lparr>wakers := Suc (wakers s)\<rparr>"] by (simp add: unbounded_def)
qed

lemma pipe_reachable_sim: "reachable pipe_start (pipe_step cap) x \<Longrightarrow> reachable loop_start loop_step (unbounded x)"
proof (induction rule: reachable.induct)
  case (reachable_start x)
  then show ?case by (auto simp: pipe_start_def unbounded_def intro: reachable.reachable_start)
next
  case (reachable_step x y)
  then show ?case by (blast intro: reachable.reachable_step pipe_step_sim)
qed

section \<open>Waiting for oneself\<close>

definition stuck_write :: "nat \<Rightarrow> ('k, 'f) loop_sys \<Rightarrow> ('k, 'f) pipe_sys \<Rightarrow> bool" where
  "stuck_write cap s x \<longleftrightarrow> snd x \<and> wakeup_words (el (fst x)) = wakeup_words (el s) \<and> cap \<le> wakeup_words (el s) \<and> pc (fst x) = pc s
     \<and> in_call (fst x) = in_call s \<and> ran (fst x) = ran s \<and> batch (fst x) = batch s \<and> (\<exists>fs. pendingFunctors (el (fst x)) = pendingFunctors (el s) @ fs)"

lemma stuck_write_step: "stuck_write cap s x \<Longrightarrow> pipe_step cap x y \<Longrightarrow> stuck_write cap s y"
  by (rotate_tac, induction rule: pipe_step.induct) (auto simp: stuck_write_def wakeup_bounded_def queue_push_def)

lemma blocked_inv:
  assumes "reachable pipe_start (pipe_step cap) x"
  shows "snd x \<Longrightarrow> cap \<le> wakeup_words (el (fst x)) \<and> pc (fst x) = Calling \<and> in_call (fst x)"
  using assms
proof (induction rule: reachable.induct)
  case (reachable_step x y)
  from reachable_step.hyps(2) reachable_step.prems reachable_step.IH show ?case
    by (cases rule: pipe_step.cases) (auto simp: wakeup_bounded_def queue_push_def split: if_splits)
qed (simp add: pipe_start_def)

text \<open>
  A run that gets there: functor 0, queued before the loop starts, runs in the first round and queues
  one functor after the other.
\<close>

definition sample_early :: "(kregs, nat) loop_sys" where
  "sample_early = sample_sys\<lparr>el := sample_loop\<lparr>pendingFunctors := [0]\<rparr>, pushed := [0], early := True\<rparr>"

definition sample_pushing :: "nat \<Rightarrow> (kregs, nat) loop_sys" where
  "sample_pushing n =
     sample_sys\<lparr>el := sample_loop\<lparr>looping := True, callingPendingFunctors := True, pendingFunctors := [1..<Suc n], wakeup_words := n\<rparr>,
       pc := Calling, in_call := True, pushed := [0..<Suc n], ran := [0]\<rparr>"

lemma sample_loop_fields:
  "wakeup_words sample_loop = 0" "pendingFunctors sample_loop = []" "threadId sample_loop = 0" "\<not> quit_flag sample_loop" "\<not> eventHandling sample_loop"
  "\<not> callingPendingFunctors sample_loop"
  by (simp_all add: sample_loop_def)

lemma sample_first_round: "reachable pipe_start (pipe_step cap) (sample_pushing 0, False)"
proof -
  let ?s1 = "sample_early\<lparr>el := (el sample_early)\<lparr>looping := True, quit_flag := False\<rparr>, pc := Testing\<rparr>"
  let ?s2 = "?s1\<lparr>pc := Polling\<rparr>"
  let ?s3 = "?s2\<lparr>el := (el ?s2)\<lparr>eventHandling := True\<rparr>, pc := Handling False, in_call := False\<rparr>"
  let ?s4 = "?s3\<lparr>el := pending_begin ((el ?s3)\<lparr>eventHandling := False\<rparr>), pc := Swapping, in_call := False\<rparr>"
  let ?s5 = "?s4\<lparr>el := snd (pending_swap (el ?s4)), batch := [0], pc := Calling, early := False\<rparr>"
  let ?s6 = "?s5\<lparr>batch := [], ran := [0], in_call := True\<rparr>"
  have step: "reachable pipe_start (pipe_step cap) (t, False)"
    if "reachable pipe_start (pipe_step cap) (s, False)" "loop_step s t" "wakeup_words (el t) = 0" for s t :: "(kregs, nat) loop_sys"
    by (rule reachable.reachable_step [OF that(1) pipe_fits [OF that(2)]]) (simp add: that(3))
  have "reachable pipe_start (pipe_step cap) (sample_sys, False)"
    using sample_start by (auto intro: reachable_start simp: pipe_start_def)
  then have "reachable pipe_start (pipe_step cap) (sample_early, False)"
    by (rule step)
       (use loop_push [of sample_sys 0] in \<open>simp_all add: sample_sys_def sample_early_def loop_op_defs sample_loop_fields\<close>)
  then have "reachable pipe_start (pipe_step cap) (?s1, False)"
    by (rule step) (rule enter, simp_all add: sample_early_def sample_sys_def sample_loop_fields)
  then have "reachable pipe_start (pipe_step cap) (?s2, False)"
    by (rule step) (rule test_continue, simp_all add: sample_early_def sample_loop_fields)
  then have "reachable pipe_start (pipe_step cap) (?s3, False)"
    by (rule step) (rule poll_timeout, simp_all add: sample_early_def sample_loop_fields)
  then have "reachable pipe_start (pipe_step cap) (?s4, False)"
    by (rule step) (rule begin_pending, simp_all add: sample_early_def sample_loop_fields pending_begin_def)
  then have "reachable pipe_start (pipe_step cap) (?s5, False)"
    by (rule step) (rule swap_pending, simp_all add: sample_early_def sample_loop_fields pending_begin_def pending_swap_def)
  then have "reachable pipe_start (pipe_step cap) (?s6, False)"
    by (rule step) (use run_functor [of ?s5 0 "[]"] in \<open>simp_all add: sample_early_def sample_sys_def sample_loop_fields pending_begin_def pending_swap_def\<close>)
  moreover have "?s6 = sample_pushing 0"
    by (simp add: sample_pushing_def sample_early_def sample_sys_def pending_begin_def pending_swap_def) (simp add: sample_loop_def)
  ultimately show ?thesis by simp
qed

lemma sample_fills: "n \<le> cap \<Longrightarrow> reachable pipe_start (pipe_step cap) (sample_pushing n, False)"
proof (induction n)
  case (Suc n)
  have "loop_step (sample_pushing n) (sample_pushing (Suc n))"
    using loop_push [of "sample_pushing n" "Suc n"] by (simp add: sample_pushing_def sample_sys_def loop_op_defs sample_loop_fields)
  moreover have "wakeup_words (el (sample_pushing (Suc n))) \<le> cap" using Suc.prems by (simp add: sample_pushing_def)
  ultimately show ?case using Suc by (intro reachable.reachable_step [OF Suc.IH] pipe_fits) simp_all
qed (rule sample_first_round)

lemma sample_blocks:
  "\<exists>s :: (kregs, nat) loop_sys. reachable pipe_start (pipe_step cap) (s, True) \<and> ran s = [0] \<and> batch s = []
     \<and> pendingFunctors (el s) = [1..<cap + 2] \<and> wakers s = 0"
proof -
  let ?s = "sample_pushing cap"
  let ?t = "?s\<lparr>el := queue_push (Suc cap) (el ?s), pushed := pushed ?s @ [Suc cap]\<rparr>"
  have "pipe_step cap (?s, False) (?t, True)"
    by (rule pipe_full) (simp_all add: sample_pushing_def sample_loop_fields loop_op_defs wakeup_bounded_def)
  then have "reachable pipe_start (pipe_step cap) (?t, True)" by (rule reachable.reachable_step [OF sample_fills [OF order_refl]])
  moreover have "ran ?t = [0]" "batch ?t = []" "pendingFunctors (el ?t) = [1..<cap + 2]" "wakers ?t = 0"
    by (simp_all add: sample_pushing_def sample_sys_def queue_push_def)
  ultimately show ?thesis by blast
qed

section \<open>Properties\<close>

text \<open>C15. A functor can stop its own loop for good. For a pipe of any capacity there is a run in which the first functor
  the loop calls queues one functor more than the pipe holds words and does not return from the
  \<^verbatim>\<open>wakeup()\<close> of its last \<^verbatim>\<open>queueInLoop\<close>. And whenever the loop's thread is in that write it waits for room that
  only its own \<^verbatim>\<open>handleWakeup\<close> could make: whatever other threads do, \<^verbatim>\<open>quit\<close> included, it stays in that round,
  inside a functor, and runs no further functor; everything queued stays queued, in order.\<close>

theorem self_wakeup_blocks_forever:
  "(\<exists>s0 :: (kregs, nat) loop_sys. reachable pipe_start (pipe_step cap) (s0, True) \<and> ran s0 = [0] \<and> batch s0 = []
      \<and> pendingFunctors (el s0) = [1..<cap + 2] \<and> wakers s0 = 0)
   \<and> (reachable pipe_start (pipe_step cap) (s, True) \<and> (pipe_step cap)\<^sup>*\<^sup>* (s, True) (t, b) \<longrightarrow>
      b \<and> pc t = Calling \<and> in_call t \<and> wakeup_words (el t) = wakeup_words (el s) \<and> ran t = ran s \<and> ran s \<noteq> [] \<and> batch t = batch s
      \<and> (\<exists>fs. pendingFunctors (el t) = pendingFunctors (el s) @ fs) \<and> pushed t = ran t @ batch t @ pendingFunctors (el t))"
proof (intro conjI impI sample_blocks)
  assume r: "reachable pipe_start (pipe_step cap) (s, True) \<and> (pipe_step cap)\<^sup>*\<^sup>* (s, True) (t, b)"
  then have b: "cap \<le> wakeup_words (el s)" "pc s = Calling" "in_call s" using blocked_inv [of cap "(s, True)"] by simp_all
  from r have "(pipe_step cap)\<^sup>*\<^sup>* (s, True) (t, b)" ..
  then have stuck: "stuck_write cap s (t, b)"
  proof (induction rule: rtranclp_induct)
    case base
    with b(1) show ?case by (simp add: stuck_write_def)
  qed (rule stuck_write_step)
  have inv: "loop_inv (unbounded (t, b))"
    by (rule reactor.reachable_inv [OF pipe_reachable_sim [OF reachable_steps]]) (use r in auto)
  from stuck inv b show "b" "pc t = Calling" "in_call t" "wakeup_words (el t) = wakeup_words (el s)" "ran t = ran s" "ran s \<noteq> []"
    "batch t = batch s" "\<exists>fs. pendingFunctors (el t) = pendingFunctors (el s) @ fs" "pushed t = ran t @ batch t @ pendingFunctors (el t)"
    by (auto simp: stuck_write_def loop_inv_def unbounded_def)
qed

theorem self_wakeup_blocks_forever_witness:
  "\<exists>s :: (kregs, nat) loop_sys. reachable pipe_start (pipe_step 2) (s, True) \<and> ran s = [0] \<and> pendingFunctors (el s) = [1, 2, 3]
     \<and> (\<forall>t b. (pipe_step 2)\<^sup>*\<^sup>* (s, True) (t, b) \<longrightarrow> b \<and> ran t = [0])"
proof -
  obtain s :: "(kregs, nat) loop_sys" where s: "reachable pipe_start (pipe_step 2) (s, True)" "ran s = [0]" "pendingFunctors (el s) = [1..<2 + 2]"
    using self_wakeup_blocks_forever [THEN conjunct1, of 2] by blast
  have "b \<and> ran t = [0]" if "(pipe_step 2)\<^sup>*\<^sup>* (s, True) (t, b)" for t b
    using self_wakeup_blocks_forever [THEN conjunct2, of 2 s t b] s(1,2) that by simp
  moreover have "[1..<2 + 2] = [1, 2, 3 :: nat]" by (simp add: upt_rec)
  ultimately show ?thesis using s by (intro exI [of _ s] conjI allI impI) (blast | simp)+
qed

end
