(* ===== verification/UnitTests.thy ===== *)
theory UnitTests
  imports Buffer EventLoopThreadPool EventLoop Task
begin

text \<open>
  The unit tests of \<^verbatim>\<open>tests/\<close> that exercise the buffer, the event loop, the pool and tasks, run on the model: each
  test is its sequence of calls with the values its expectations compare, and a theorem states what
  comes out. The tests of the loop that set \<^verbatim>\<open>quit_\<close> before \<^verbatim>\<open>loop()\<close> do not end, and those that run a loop on a
  thread that did not construct it abort.
\<close>

lemmas run_buffer = append_def retrieve_def peek_def retrieveAllAsString_def retrieveAsString_def retrieveAll_def Buffer_default_def Buffer_ctor_def ensureWritableBytes_def makeSpace_def writableBytes_def readableBytes_def prependableBytes_def vec_write_def vec_read_def vec_resize_def findCRLF_def swap_def shrink_def readFd_def kInitialSize_def kCheapPrepend_def kCRLF_def extrabuf_size_def size_sub_def size_add_def Let_def res_simps

section \<open>BufferTest.cc\<close>

definition BufferTest_AppendAndRetrieve :: "(nat \<times> string \<times> nat \<times> string \<times> nat) res" where
  "BufferTest_AppendAndRetrieve =
     bind_res (append Buffer_default ''hello'') (\<lambda>b.
     bind_res (peek b (readableBytes b)) (\<lambda>view.
     bind_res (retrieve b 2) (\<lambda>b1.
     bind_res (retrieveAllAsString b1) (\<lambda>(rest, b2).
     Inr (readableBytes b, view, readableBytes b1, rest, readableBytes b2)))))"

theorem BufferTest_AppendAndRetrieve_passes: "BufferTest_AppendAndRetrieve = Inr (5, ''hello'', 3, ''llo'', 0)"
  by (simp add: run_buffer BufferTest_AppendAndRetrieve_def)

definition BufferTest_Growth :: "(nat \<times> string) res" where
  "BufferTest_Growth =
     bind_res (Buffer_ctor 10) (\<lambda>b.
     bind_res (append b ''this is a long string that should trigger growth'') (\<lambda>b1.
     bind_res (retrieveAllAsString b1) (\<lambda>(s, b2). Inr (readableBytes b1, s))))"

theorem BufferTest_Growth_passes: "BufferTest_Growth = Inr (48, ''this is a long string that should trigger growth'')"
  by (simp add: run_buffer BufferTest_Growth_def)

definition BufferTest_MakeSpace :: "(nat \<times> nat \<times> nat \<times> nat \<times> string) res" where
  "BufferTest_MakeSpace =
     bind_res (Buffer_ctor 20) (\<lambda>b.
     bind_res (append b ''12345678'') (\<lambda>b1.
     bind_res (retrieve b1 5) (\<lambda>b2.
     bind_res (append b2 ''abcdefgh'') (\<lambda>b3.
     bind_res (retrieveAsString b3 11) (\<lambda>(s, b4).
     Inr (readableBytes b1, readableBytes b2, prependableBytes b2, readableBytes b3, s))))))"

theorem BufferTest_MakeSpace_passes: "BufferTest_MakeSpace = Inr (8, 3, kCheapPrepend + 5, 11, ''678abcdefgh'')"
  by (simp add: run_buffer BufferTest_MakeSpace_def)

text \<open>The pointer is compared as a distance from \<^verbatim>\<open>peek()\<close>.\<close>

definition BufferTest_FindCRLF :: "nat option res" where
  "BufferTest_FindCRLF =
     bind_res (append Buffer_default (''hello'' @ [CHR 13, CHR 10] @ ''world'')) (\<lambda>b.
     bind_res (findCRLF b) (\<lambda>crlf. Inr (map_option (\<lambda>i. i - readerIndex b) crlf)))"

theorem BufferTest_FindCRLF_passes: "BufferTest_FindCRLF = Inr (Some 5)"
  by (simp add: run_buffer BufferTest_FindCRLF_def)

definition BufferTest_RetrievePartial :: "(string \<times> nat \<times> string) res" where
  "BufferTest_RetrievePartial =
     bind_res (append Buffer_default ''abcdef'') (\<lambda>b.
     bind_res (retrieveAsString b 3) (\<lambda>(first3, b1).
     bind_res (retrieveAllAsString b1) (\<lambda>(rest, b2). Inr (first3, readableBytes b1, rest))))"

theorem BufferTest_RetrievePartial_passes: "BufferTest_RetrievePartial = Inr (''abc'', 3, ''def'')"
  by (simp add: run_buffer BufferTest_RetrievePartial_def)

definition BufferTest_Swap :: "(string \<times> string) res" where
  "BufferTest_Swap =
     bind_res (append Buffer_default ''buffer1'') (\<lambda>buf1.
     bind_res (append Buffer_default ''buffer2'') (\<lambda>buf2.
     let (b1, b2) = swap buf1 buf2 in
     bind_res (retrieveAllAsString b1) (\<lambda>(s1, _).
     bind_res (retrieveAllAsString b2) (\<lambda>(s2, _). Inr (s1, s2)))))"

theorem BufferTest_Swap_passes: "BufferTest_Swap = Inr (''buffer2'', ''buffer1'')"
  by (simp add: run_buffer BufferTest_Swap_def)

definition BufferTest_Shrink :: "(nat \<times> string) res" where
  "BufferTest_Shrink =
     bind_res (append Buffer_default (replicate 1000 CHR ''a'')) (\<lambda>b.
     bind_res (shrink (retrieveAll b) 100) (\<lambda>b1.
     bind_res (append b1 ''test'') (\<lambda>b2.
     bind_res (retrieveAllAsString b2) (\<lambda>(s, b3). Inr (readableBytes b2, s)))))"

theorem BufferTest_Shrink_passes: "BufferTest_Shrink = Inr (4, ''test'')"
  by (simp add: run_buffer BufferTest_Shrink_def)

definition BufferTest_WritableBytesCalculation :: "(nat \<times> bool \<times> nat \<times> nat) res" where
  "BufferTest_WritableBytesCalculation =
     bind_res (Buffer_ctor 100) (\<lambda>b.
     bind_res (append b ''test'') (\<lambda>b1.
     Inr (readableBytes b, 100 \<le> writableBytes b, readableBytes b1, readableBytes (retrieveAll b1))))"

theorem BufferTest_WritableBytesCalculation_passes: "BufferTest_WritableBytesCalculation = Inr (0, True, 4, 0)"
  by (simp add: run_buffer BufferTest_WritableBytesCalculation_def)

section \<open>EventLoopTest.cc\<close>

text \<open>
  A functor of these tests appends numbers to a log and may then quit the loop; the test thread is
  thread 0 and no descriptor becomes ready, so that every poll ends by its timeout.
\<close>

datatype log_task = LogTask "nat list" bool

fun log_exec :: "(kregs, log_task, nat list) exec" where
  "log_exec (LogTask i q) (l, log) = Inr (if q then quit 0 l else l, log @ i)"

definition test_loop :: "(kregs, 'f) event_loop" where
  "test_loop =
     \<lparr>loop_id = 7, looping = False, quit_flag = False, eventHandling = False, callingPendingFunctors = False, threadId = 0,
      loop_poller = \<lparr>kqueue = [(3, EVFILT_READ) \<mapsto> 1], ev_capacity = 16, kqueueFd = 5, channels = [3 \<mapsto> 1]\<rparr>,
      loop_chans = [1 \<mapsto> enableReading_mask (Channel_ctor 7 3)], wakeup_chan = 1, wakeup_words = 0, wakeupFd = (3, 4),
      activeChannels = [], pendingFunctors = [], spawnedTasks = {}\<rparr>"

definition log_loop :: "nat \<Rightarrow> nat \<Rightarrow> (kregs, log_task) event_loop \<times> nat list \<Rightarrow> (bool \<times> (kregs, log_task) event_loop \<times> nat list) res" where
  "log_loop me n = loop log_exec (\<lambda>_. Inr) (\<lambda>_. Inr) me (replicate n (\<lambda>_. Inr []))"

lemma log_iteration:
  "loop_iteration exec (\<lambda>_. Inr) (\<lambda>_. Inr) (\<lambda>_. Inr []) (l, x) =
     doPendingFunctors exec (\<lambda>_. Inr) (l\<lparr>activeChannels := [], eventHandling := False\<rparr>, x)"
  by (simp add: loop_iteration_def poll_def)

text \<open>Nothing is pending and nobody asks to quit: the loop goes on polling.\<close>

lemma idle_forever:
  "\<not> quit_flag l \<Longrightarrow> pendingFunctors l = [] \<Longrightarrow>
     \<exists>l'. loop_while exec (\<lambda>_. Inr) (\<lambda>_. Inr) (replicate n (\<lambda>_. Inr [])) (l, x) = Inr (False, l', x)"
proof (induction n arbitrary: l)
  case 0
  then show ?case by (simp add: loop_while.simps)
next
  case (Suc n)
  then show ?case
    by (simp add: loop_while_Cons log_iteration doPendingFunctors_def pending_swap_def pending_begin_def pending_end_def)
qed

definition EventLoopTest_QueueInLoop :: "nat \<Rightarrow> (bool \<times> nat list) res" where
  "EventLoopTest_QueueInLoop n =
     bind_res (log_loop 0 n (queueInLoop 0 (LogTask [1] True) test_loop, [])) (\<lambda>(ended, l, log). Inr (ended, log))"

theorem EventLoopTest_QueueInLoop_passes: "EventLoopTest_QueueInLoop (Suc n) = Inr (True, [1])"
  by (simp add: EventLoopTest_QueueInLoop_def log_loop_def loop_def assertInLoopThread_def loop_while_Cons loop_while_quit log_iteration
      doPendingFunctors_def test_loop_def loop_op_defs)

definition EventLoopTest_TaskExecutionOrder :: "nat \<Rightarrow> (bool \<times> nat list) res" where
  "EventLoopTest_TaskExecutionOrder n =
     bind_res (runInLoop log_exec 0 (LogTask [1] False) (test_loop, [])) (\<lambda>(l, log).
     bind_res (log_loop 0 n (queueInLoop 0 (LogTask [3] True) (queueInLoop 0 (LogTask [2] False) l), log)) (\<lambda>(ended, l', log'). Inr (ended, log')))"

theorem EventLoopTest_TaskExecutionOrder_passes: "EventLoopTest_TaskExecutionOrder (Suc n) = Inr (True, [1, 2, 3])"
  by (simp add: EventLoopTest_TaskExecutionOrder_def runInLoop_def log_loop_def loop_def assertInLoopThread_def loop_while_Cons loop_while_quit
      log_iteration doPendingFunctors_def test_loop_def loop_op_defs)

text \<open>
  On the loop's own thread \<^verbatim>\<open>runInLoop\<close> runs its functor at once, so the \<^verbatim>\<open>quit()\<close> in it comes before \<^verbatim>\<open>loop()\<close>, which clears
  the flag.
\<close>

definition EventLoopTest_RunInLoop :: "nat \<Rightarrow> (bool \<times> nat list) res" where
  "EventLoopTest_RunInLoop n =
     bind_res (runInLoop log_exec 0 (LogTask [1] True) (test_loop, [])) (\<lambda>x.
     bind_res (log_loop 0 n x) (\<lambda>(ended, l, log). Inr (ended, log)))"

definition EventLoopTest_MultipleQueuedTasks :: "nat \<Rightarrow> (bool \<times> nat) res" where
  "EventLoopTest_MultipleQueuedTasks n =
     bind_res (runInLoop log_exec 0 (LogTask [] True) (fold (\<lambda>i. queueInLoop 0 (LogTask [i] False)) [0..<10] test_loop, [])) (\<lambda>x.
     bind_res (log_loop 0 n x) (\<lambda>(ended, l, log). Inr (ended, length log)))"

theorem EventLoopTest_RunInLoop_never_ends: "EventLoopTest_RunInLoop n = Inr (False, [1])"
proof -
  let ?l = "(quit 0 (test_loop :: (kregs, log_task) event_loop))\<lparr>looping := True, quit_flag := False\<rparr>"
  have "\<not> quit_flag ?l" "pendingFunctors ?l = []" by (simp_all add: test_loop_def loop_op_defs Let_def)
  from idle_forever [OF this, of log_exec n "[1]"] obtain l' where
    "loop_while log_exec (\<lambda>_. Inr) (\<lambda>_. Inr) (replicate n (\<lambda>_. Inr [])) (?l, [1]) = Inr (False, l', [1])" by blast
  then show ?thesis
    by (simp add: EventLoopTest_RunInLoop_def runInLoop_def log_loop_def loop_def assertInLoopThread_def isInLoopThread_def test_loop_def quit_def
        Let_def)
qed

text \<open>Here the ten functors do run, in the first round; the test waits for a loop that does not return.\<close>

lemma ten_queued:
  "pendingFunctors (fold (\<lambda>i. queueInLoop 0 (LogTask [i] False)) is l) = pendingFunctors l @ map (\<lambda>i. LogTask [i] False) is"
  "threadId (fold (\<lambda>i. queueInLoop 0 (LogTask [i] False)) is l) = threadId l" "looping (fold (\<lambda>i. queueInLoop 0 (LogTask [i] False)) is l) = looping l"
  by (induction "is" arbitrary: l) (simp_all add: loop_op_defs Let_def)

lemma log_exec_all: "exec_all log_exec (map (\<lambda>i. LogTask [i] False) is) (l, log) = Inr (l, log @ is)"
  by (induction "is" arbitrary: log) simp_all

theorem EventLoopTest_MultipleQueuedTasks_never_ends: "EventLoopTest_MultipleQueuedTasks (Suc n) = Inr (False, 10)"
proof -
  let ?base = "fold (\<lambda>i. queueInLoop 0 (LogTask [i] False)) [0..<10] test_loop"
  let ?l = "(quit 0 ?base)\<lparr>looping := True, quit_flag := False\<rparr>"
  let ?after = "pending_end (snd (pending_swap (pending_begin (?l\<lparr>activeChannels := [], eventHandling := False\<rparr>))))"
  have l0: "threadId ?base = 0" "\<not> looping ?base" "pendingFunctors ?base = map (\<lambda>i. LogTask [i] False) [0..<10]"
    by (simp_all only: ten_queued) (simp_all add: test_loop_def)
  obtain l' where idle: "loop_while log_exec (\<lambda>_. Inr) (\<lambda>_. Inr) (replicate n (\<lambda>_. Inr [])) (?after, [0..<10]) = Inr (False, l', [0..<10])"
    using idle_forever [of ?after log_exec n "[0..<10]"] by (auto simp: loop_op_defs Let_def)
  have "doPendingFunctors log_exec (\<lambda>_. Inr) (?l\<lparr>activeChannels := [], eventHandling := False\<rparr>, []) = Inr (?after, [0..<10])"
    using l0 log_exec_all [of "[0..<10]"] by (simp add: doPendingFunctors_def loop_op_defs Let_def del: upt_conv_Cons upt_rec_numeral)
  then have "loop_while log_exec (\<lambda>_. Inr) (\<lambda>_. Inr) (replicate (Suc n) (\<lambda>_. Inr [])) (?l, []) = Inr (False, l', [0..<10])"
    using idle by (simp add: loop_while_Cons log_iteration del: upt_conv_Cons upt_rec_numeral)
  then show ?thesis
    using l0(1,2)
    by (simp add: EventLoopTest_MultipleQueuedTasks_def runInLoop_def log_loop_def loop_def assertInLoopThread_def isInLoopThread_def quit_def Let_def
        del: replicate.simps upt_conv_Cons upt_rec_numeral)
qed

text \<open>\<^verbatim>\<open>QuitFromAnotherThread\<close> and \<^verbatim>\<open>WakeupMechanism\<close> construct the loop on the test's thread and run it on another.\<close>

definition EventLoopTest_QuitFromAnotherThread :: "nat \<Rightarrow> (bool \<times> (kregs, log_task) event_loop \<times> nat list) res" where
  "EventLoopTest_QuitFromAnotherThread n = log_loop 1 n (test_loop, [])"

theorem EventLoopTest_QuitFromAnotherThread_aborts: "EventLoopTest_QuitFromAnotherThread n = Inl Aborted"
  by (simp add: EventLoopTest_QuitFromAnotherThread_def log_loop_def loop_def assertInLoopThread_def isInLoopThread_def test_loop_def)

section \<open>EventLoopThreadPoolTest.cc\<close>

text \<open>The pool of loop 1 on thread 0; worker loop \<open>i\<close> is loop \<open>10 + i\<close>. The functor that holds the expectations runs at once.\<close>

definition PoolTest :: "nat \<Rightarrow> (loop_pool \<Rightarrow> 'r res) \<Rightarrow> 'r res" where
  "PoolTest n expect =
     bind_res (EventLoopThreadPool_ctor (Some 1) 0 n) (\<lambda>p. bind_res (Pool_start (\<lambda>i. 10 + i) 0 p) expect)"

theorem PoolTest_SingleThreadedMode_passes:
  "PoolTest 0 (\<lambda>p. bind_res (getNextLoop 0 p) (\<lambda>(l, p1). bind_res (getLoop 0 p1 0) (\<lambda>l0. bind_res (getLoop 0 p1 1) (\<lambda>l1.
       Inr (pool_started p, Pool_size p, l, l0, l1))))) = Inr (True, 0, 1, Some 1, Some 1)"
  by (simp add: PoolTest_def EventLoopThreadPool_ctor_def Pool_start_def pool_assertInLoopThread_def getNextLoop_def getLoop_def Pool_size_def)

theorem PoolTest_ThreadPoolSize_passes: "PoolTest 4 (\<lambda>p. Inr (pool_started p, Pool_size p)) = Inr (True, 4)"
  by (simp add: PoolTest_def EventLoopThreadPool_ctor_def Pool_start_def pool_assertInLoopThread_def Pool_size_def eval_nat_numeral)

theorem PoolTest_GetLoopByIndex_passes:
  "PoolTest 3 (\<lambda>p. bind_res (getLoop 0 p 0) (\<lambda>a. bind_res (getLoop 0 p 1) (\<lambda>b. bind_res (getLoop 0 p 2) (\<lambda>c.
       bind_res (getLoop 0 p 3) (\<lambda>d. Inr [a, b, c, d]))))) = Inr [Some 10, Some 11, Some 12, None]"
  by (simp add: PoolTest_def EventLoopThreadPool_ctor_def Pool_start_def pool_assertInLoopThread_def getLoop_def eval_nat_numeral)

section \<open>CoroTaskTest.cc\<close>

text \<open>\<^verbatim>\<open>Task<T> task = body(); task.get()\<close> on an empty heap.\<close>

definition TaskTest :: "ty \<Rightarrow> 'w prog \<Rightarrow> 'w \<Rightarrow> val res \<Rightarrow> bool" where
  "TaskTest T p w r \<longleftrightarrow>
     (\<exists>S. Task_get 0 (Some 0) (snd (create (new_frame 0 T p) (empty_heap w))) = Some (Inr (r, S)))"

lemma task_test:
  assumes "runs (Some 0) w p r w'" and "T \<noteq> TVoid"
  shows "TaskTest T p w r"
proof -
  have "create (new_frame 0 T p) (empty_heap w) = (0, snd (create (new_frame 0 T p) (empty_heap w)))" by (simp add: create_def)
  from get_new_task [OF _ _ this, of r w'] assms show ?thesis by (auto simp: TaskTest_def)
qed

theorem TaskTest_SimpleReturnValue_passes: "TaskTest TInt (Ret (VInt 42)) () (Inr (VInt 42))"
  by (rule task_test) simp_all

theorem TaskTest_StringReturn_passes: "TaskTest TString (Ret (VString ''Hello, Coroutines!'')) () (Inr (VString ''Hello, Coroutines!''))"
  by (rule task_test) simp_all

theorem TaskTest_ExceptionPropagation_passes:
  "TaskTest TInt (Raise (RuntimeError ''Test exception'')) () (Inl (RuntimeError ''Test exception''))"
  by (rule task_test) simp_all

text \<open>An awaited task that returns an integer; its exceptions are passed on.\<close>

definition await_int :: "'w prog \<Rightarrow> (int \<Rightarrow> 'w prog) \<Rightarrow> 'w prog" where
  "await_int q k = Call TInt q (\<lambda>r. case r of Inr (VInt i) \<Rightarrow> k i | Inl e \<Rightarrow> Raise e | _ \<Rightarrow> Raise (RuntimeError ''type''))"

lemma runs_await_int: "runs None w q (Inr (VInt i)) w1 \<Longrightarrow> runs ho w1 (k i) r w' \<Longrightarrow> runs ho w (await_int q k) r w'"
  unfolding await_int_def by (rule runs_Call) (auto simp: seen_def split: sum.splits)

theorem TaskTest_NestedCoroutines_passes:
  "TaskTest TInt (await_int (Ret (VInt 10)) (\<lambda>value. Ret (VInt (value * 2)))) () (Inr (VInt 20))"
  by (rule task_test, rule runs_await_int [where i = 10]) simp_all

theorem TaskTest_SequentialAwaits_passes:
  "TaskTest TInt (await_int (Ret (VInt 5)) (\<lambda>a. await_int (Ret (VInt 7)) (\<lambda>b. await_int (Ret (VInt 3)) (\<lambda>c. Ret (VInt (a + b + c)))))) ()
     (Inr (VInt 15))"
  by (rule task_test, rule runs_await_int [where i = 5], simp, rule runs_await_int [where i = 7], simp, rule runs_await_int [where i = 3]) simp_all

theorem TaskTest_ImmediateValue_passes: "TaskTest TInt (makeReadyAwaiter 123 (\<lambda>value. Ret (VInt value))) () (Inr (VInt 123))"
  by (rule task_test) (simp_all add: makeReadyAwaiter_def co_await_def)

theorem TaskTest_MoveSemantics_passes:
  "\<exists>S. Task_get 0 (fst (Task_move (Task_ctor 0))) (snd (create (new_frame 0 TInt (Ret (VInt 99))) (empty_heap ()))) = Some (Inr (Inr (VInt 99), S))
     \<and> snd (Task_move (Task_ctor 0)) = None"
proof -
  have "TaskTest TInt (Ret (VInt 99)) () (Inr (VInt 99))" by (rule task_test) simp_all
  then show ?thesis by (auto simp: TaskTest_def Task_move_def Task_ctor_def)
qed

end
