(* ===== verification/ServerTests.thy ===== *)
theory ServerTests
  imports AsyncLifetime SpawnLoop UnitTests
begin

text \<open>
  The unit tests of \<^verbatim>\<open>tests/\<close> that exercise addresses, sockets, the acceptor, connections, servers and \<^verbatim>\<open>spawn\<close>, run on the
  model: each test is its sequence of calls with the values its expectations compare. What the kernel
  answers is \<open>good_kernel\<close>, where every call succeeds; the text of an address is what the C library
  converts it to.
\<close>

section \<open>InetAddressTest.cc\<close>

definition InetAddressTest_ConstructorWithPort :: "(32 word \<Rightarrow> string) \<Rightarrow> 16 word \<times> string" where
  "InetAddressTest_ConstructorWithPort ntop = (let addr = InetAddress_port 8080 False in (port addr, toIp ntop addr))"

theorem InetAddressTest_ConstructorWithPort_passes:
  "ntop 0 = ''0.0.0.0'' \<Longrightarrow> InetAddressTest_ConstructorWithPort ntop = (8080, ''0.0.0.0'')"
  by (simp add: InetAddressTest_ConstructorWithPort_def InetAddress_port_def port_def toIp_def sockaddr_zero_def INADDR_ANY_def htonl_def)

definition InetAddressTest_ConstructorWithPortAndLoopback :: "(32 word \<Rightarrow> string) \<Rightarrow> 16 word \<times> string" where
  "InetAddressTest_ConstructorWithPortAndLoopback ntop = (let addr = InetAddress_port 9090 True in (port addr, toIp ntop addr))"

text \<open>The address is 127, 0, 0, 1 in the order of the bytes in memory.\<close>

theorem InetAddressTest_ConstructorWithPortAndLoopback_passes:
  "ntop 0x0100007F = ''127.0.0.1'' \<Longrightarrow> InetAddressTest_ConstructorWithPortAndLoopback ntop = (9090, ''127.0.0.1'')"
proof -
  have "htonl INADDR_LOOPBACK = 0x0100007F" by (simp add: htonl_def INADDR_LOOPBACK_def push_bit_eq_mult drop_bit_eq_div)
  then show "ntop 0x0100007F = ''127.0.0.1'' \<Longrightarrow> ?thesis"
    by (simp add: InetAddressTest_ConstructorWithPortAndLoopback_def InetAddress_port_def port_def toIp_def sockaddr_zero_def)
qed

definition InetAddressTest_ConstructorWithIpAndPort :: "(string \<Rightarrow> 32 word option) \<Rightarrow> (32 word \<Rightarrow> string) \<Rightarrow> 16 word \<times> string" where
  "InetAddressTest_ConstructorWithIpAndPort pton ntop =
     (let addr = InetAddress_ip pton ''192.168.1.100'' 3000 in (port addr, toIp ntop addr))"

theorem InetAddressTest_ConstructorWithIpAndPort_passes:
  "pton ''192.168.1.100'' = Some x \<Longrightarrow> ntop x = ''192.168.1.100'' \<Longrightarrow>
     InetAddressTest_ConstructorWithIpAndPort pton ntop = (3000, ''192.168.1.100'')"
  by (simp add: InetAddressTest_ConstructorWithIpAndPort_def InetAddress_ip_def port_def toIp_def sockaddr_zero_def)

lemma dec_8080: "dec 8080 = ''8080''"
proof -
  have "digit_char 8 = CHR ''8''" "digit_char 0 = CHR ''0''" by code_simp+
  then show ?thesis by (simp add: dec.simps)
qed

definition InetAddressTest_ToIpPort :: "(string \<Rightarrow> 32 word option) \<Rightarrow> (32 word \<Rightarrow> string) \<Rightarrow> string" where
  "InetAddressTest_ToIpPort pton ntop = toIpPort ntop (InetAddress_ip pton ''10.0.0.1'' 8080)"

theorem InetAddressTest_ToIpPort_passes:
  "pton ''10.0.0.1'' = Some x \<Longrightarrow> ntop x = ''10.0.0.1'' \<Longrightarrow> InetAddressTest_ToIpPort pton ntop = ''10.0.0.1:8080''"
  by (simp add: InetAddressTest_ToIpPort_def InetAddress_ip_def toIpPort_def toIp_def port_def sockaddr_zero_def dec_8080)

definition InetAddressTest_Equality :: "(string \<Rightarrow> 32 word option) \<Rightarrow> bool \<times> bool" where
  "InetAddressTest_Equality pton =
     (let addr1 = InetAddress_ip pton ''192.168.1.1'' 8080; addr2 = InetAddress_ip pton ''192.168.1.1'' 8080;
          addr3 = InetAddress_ip pton ''192.168.1.2'' 8080 in (InetAddress_eq addr1 addr2, InetAddress_neq addr1 addr3))"

theorem InetAddressTest_Equality_passes:
  "pton ''192.168.1.1'' = Some x \<Longrightarrow> pton ''192.168.1.2'' = Some y \<Longrightarrow> x \<noteq> y \<Longrightarrow> InetAddressTest_Equality pton = (True, True)"
  by (simp add: InetAddressTest_Equality_def InetAddress_eq_def InetAddress_neq_def InetAddress_ip_def sockaddr_zero_def)

section \<open>SocketTest.cc\<close>

text \<open>\<^verbatim>\<open>fd\<close> of a socket is its descriptor.\<close>

definition SocketTest_MoveConstructor :: "(int \<times> int \<times> syscall list) res" where
  "SocketTest_MoveConstructor =
     bind_res (snd (createTcpSocket good_kernel)) (\<lambda>sock1.
     let (sock2, sock1') = Socket_move sock1 in Inr (sockfd sock2, sockfd sock1', Socket_dtor sock2 @ Socket_dtor sock1'))"

theorem SocketTest_MoveConstructor_passes: "SocketTest_MoveConstructor = Inr (4, -1, [SysClose 4])"
  by (simp add: SocketTest_MoveConstructor_def createTcpSocket_def good_kernel_def Socket_move_def Socket_ctor_def Socket_dtor_def Socket_close_def)

definition SocketTest_SetNonBlocking :: "(syscall list \<times> unit res) res" where
  "SocketTest_SetNonBlocking = bind_res (snd (createTcpSocket good_kernel)) (\<lambda>sock. Inr (setNonBlocking good_kernel sock))"

theorem SocketTest_SetNonBlocking_passes: "SocketTest_SetNonBlocking = Inr ([SysGetFlags 4, SysSetFlags 4 O_NONBLOCK], Inr ())"
  by (simp add: SocketTest_SetNonBlocking_def createTcpSocket_def good_kernel_def Socket_ctor_def setNonBlocking_def Let_def)

definition SocketTest_BindAndListen :: "(unit sys) res" where
  "SocketTest_BindAndListen =
     bind_res (snd (createTcpSocket good_kernel)) (\<lambda>sock.
     Inr (bind_sys (setReuseAddr good_kernel sock True) (\<lambda>_.
       bind_sys (Socket_bind good_kernel sock (InetAddress_port 9999 False)) (\<lambda>_. Socket_listen good_kernel sock))))"

theorem SocketTest_BindAndListen_passes:
  "SocketTest_BindAndListen = Inr ([SysSetsockopt 4 SO_REUSEADDR 1, SysBind 4 (InetAddress_port 9999 False), SysListen 4], Inr ())"
  by (simp add: SocketTest_BindAndListen_def acceptor_setup good_kernel_def Socket_ctor_def Socket_listen_def sys_check_def)

text \<open>With nobody connecting, a non-blocking \<^verbatim>\<open>accept\<close> fails and the peer's address is left as it was.\<close>

definition SocketTest_AcceptNonBlocking :: "kernel \<Rightarrow> int \<times> sockaddr_in" where
  "SocketTest_AcceptNonBlocking k = snd (Socket_accept k (Socket_ctor 4) (InetAddress_port 0 False))"

theorem SocketTest_AcceptNonBlocking_passes:
  "ret k (SysAccept 4) = -1 \<Longrightarrow> SocketTest_AcceptNonBlocking k = (-1, InetAddress_port 0 False)"
  by (simp add: SocketTest_AcceptNonBlocking_def Socket_accept_def Socket_ctor_def Let_def)

section \<open>AcceptorTest.cc\<close>

definition AcceptorTest_Construction :: "(bool \<times> 16 word) res" where
  "AcceptorTest_Construction =
     bind_res (snd (Acceptor_ctor good_kernel 1 0 (InetAddress_port 9999 False) True)) (\<lambda>acceptor.
     Inr (listening acceptor, port (listenAddr acceptor)))"

lemmas acceptor_run = Acceptor_ctor_def acceptor_setup good_kernel_def Socket_ctor_def InetAddress_port_def port_def sockaddr_zero_def

theorem AcceptorTest_Construction_passes: "AcceptorTest_Construction = Inr (False, 9999)"
  by (simp add: AcceptorTest_Construction_def acceptor_run)

text \<open>
  A functor that lets the acceptor listen and may then quit the loop; the acceptor is the state next to
  the loop.
\<close>

datatype listen_task = ListenTask bool

fun listen_exec :: "(kregs, listen_task, acceptor) exec" where
  "listen_exec (ListenTask q) (l, a) =
     (case Acceptor_listen good_kernel 0 a of
        (cs, a', Inl e) \<Rightarrow> Inl e
      | (cs, a', Inr _) \<Rightarrow> Inr (if q then quit 0 l else l, a'))"

definition AcceptorTest_ListenStatusChange :: "nat \<Rightarrow> (bool \<times> bool) res" where
  "AcceptorTest_ListenStatusChange n =
     bind_res (snd (Acceptor_ctor good_kernel 7 0 (InetAddress_port 9998 False) True)) (\<lambda>acceptor.
     bind_res (runInLoop listen_exec 0 (ListenTask True) (test_loop, acceptor)) (\<lambda>x.
     bind_res (loop listen_exec (\<lambda>_. Inr) (\<lambda>_. Inr) 0 (replicate n (\<lambda>_. Inr [])) x) (\<lambda>(ended, l, a). Inr (ended, listening a))))"

text \<open>The acceptor listens; the \<^verbatim>\<open>quit()\<close> comes before \<^verbatim>\<open>loop()\<close>, which clears it.\<close>

theorem AcceptorTest_ListenStatusChange_never_ends: "AcceptorTest_ListenStatusChange n = Inr (False, True)"
proof -
  obtain a where a: "Acceptor_ctor good_kernel 7 0 (InetAddress_port 9998 False) True = (fst (Acceptor_ctor good_kernel 7 0 (InetAddress_port 9998 False) True), Inr a)"
      "acc_tid a = 0" "sockfd (acceptSocket a) = 4"
    by (simp add: acceptor_run)
  let ?a = "a\<lparr>listening := True, acceptChannel := enableReading_mask (acceptChannel a)\<rparr>"
  let ?l = "(quit 0 (test_loop :: (kregs, listen_task) event_loop))\<lparr>looping := True, quit_flag := False\<rparr>"
  have listens: "Acceptor_listen good_kernel 0 a = ([SysListen 4], ?a, Inr ())"
    using a(2,3) by (simp add: Acceptor_listen_def Socket_listen_def sys_check_def good_kernel_def)
  have "\<not> quit_flag ?l" "pendingFunctors ?l = []" by (simp_all add: test_loop_def loop_op_defs Let_def)
  from idle_forever [OF this, of listen_exec n ?a] obtain l' where
    "loop_while listen_exec (\<lambda>_. Inr) (\<lambda>_. Inr) (replicate n (\<lambda>_. Inr [])) (?l, ?a) = Inr (False, l', ?a)" by blast
  then show ?thesis
    using listens arg_cong [OF a(1), of snd]
    by (simp add: AcceptorTest_ListenStatusChange_def runInLoop_def loop_def assertInLoopThread_def isInLoopThread_def test_loop_def quit_def Let_def)
qed

text \<open>
  \<^verbatim>\<open>AcceptConnection\<close>, \<^verbatim>\<open>MultipleConnections\<close> and \<^verbatim>\<open>NoCallbackClosesConnection\<close> construct the loop on the test's thread and run it on another:
  the listening is queued, and \<^verbatim>\<open>loop()\<close> aborts before it runs.
\<close>

definition AcceptorTest_serverThread :: "nat \<Rightarrow> (bool \<times> (kregs, listen_task) event_loop \<times> acceptor) res" where
  "AcceptorTest_serverThread n =
     bind_res (snd (Acceptor_ctor good_kernel 7 0 (InetAddress_port 7776 False) True)) (\<lambda>acceptor.
     bind_res (runInLoop listen_exec 1 (ListenTask False) (test_loop, acceptor)) (\<lambda>x.
     loop listen_exec (\<lambda>_. Inr) (\<lambda>_. Inr) 1 (replicate n (\<lambda>_. Inr [])) x))"

theorem AcceptorTest_serverThread_aborts: "AcceptorTest_serverThread n = Inl Aborted"
  by (simp add: AcceptorTest_serverThread_def acceptor_run runInLoop_def loop_def assertInLoopThread_def test_loop_def loop_op_defs)

section \<open>TcpConnectionTest.cc\<close>

text \<open>A connection on descriptor 6 of loop 1, whose thread 0 is the test's.\<close>

definition TcpConnectionTest_conn :: "string \<Rightarrow> 16 word \<Rightarrow> 16 word \<Rightarrow> conn_world" where
  "TcpConnectionTest_conn name lport pport =
     \<lparr>conn = TcpConnection_ctor 1 0 name 6 (InetAddress_port lport False) (InetAddress_port pport False), trace = []\<rparr>"

definition TcpConnectionTest_Construction :: "(bool \<times> 16 word \<times> 16 word \<times> syscall list) res" where
  "TcpConnectionTest_Construction =
     (let w = TcpConnectionTest_conn ''conn1'' 8080 9090 in
      bind_res (connectDestroyed no_cbs 0 w) (\<lambda>w'. bind_res (TcpConnection_dtor (conn w')) (\<lambda>calls.
      Inr (connected (conn w), port (localAddress (conn w)), port (peerAddress (conn w)), calls))))"

lemmas conn_run = TcpConnectionTest_conn_def TcpConnection_ctor_def connectDestroyed_def conn_assert_loop_def conn_in_loop_def
  TcpConnection_dtor_def connected_def localAddress_def peerAddress_def world_defs Socket_dtor_def Socket_close_def Socket_ctor_def Channel_ctor_def

theorem TcpConnectionTest_Construction_passes: "TcpConnectionTest_Construction = Inr (False, 8080, 9090, [SysClose 6])"
  by (simp add: TcpConnectionTest_Construction_def conn_run Let_def InetAddress_port_def port_def sockaddr_zero_def)

definition TcpConnectionTest_SendBeforeConnected :: "write_fun \<Rightarrow> conn_event list res" where
  "TcpConnectionTest_SendBeforeConnected wr =
     bind_res (send wr 0 ''test message'' (TcpConnectionTest_conn ''conn4'' 8080 9090)) (\<lambda>w.
     bind_res (connectDestroyed no_cbs 0 w) (\<lambda>w'. Inr (trace w')))"

theorem TcpConnectionTest_SendBeforeConnected_passes: "TcpConnectionTest_SendBeforeConnected wr = Inr []"
  by (simp add: TcpConnectionTest_SendBeforeConnected_def send_def conn_run)

section \<open>TcpServerTest.cc and CoroServerTest.cc\<close>

definition TcpServerTest_Construction :: "(string \<times> nat \<times> bool) res" where
  "TcpServerTest_Construction =
     bind_res (snd (TcpServer_ctor good_kernel (Some 1) 0 (InetAddress_port 9999 False) ''TestServer'')) (\<lambda>server.
     Inr (TcpServer_name server, TcpServer_getLoop server, srv_started server))"

theorem TcpServerTest_Construction_passes: "TcpServerTest_Construction = Inr (''TestServer'', 1, False)"
  by (simp add: TcpServerTest_Construction_def TcpServer_ctor_def acceptor_run EventLoopThreadPool_ctor_def TcpServer_name_def TcpServer_getLoop_def)

definition TcpServerTest_SetIoLoopNum :: "(unit res \<times> nat \<times> bool) res" where
  "TcpServerTest_SetIoLoopNum =
     bind_res (snd (TcpServer_ctor good_kernel (Some 1) 0 (InetAddress_port 9999 False) ''TestServer'')) (\<lambda>server.
     case setIoLoopNum 4 server of (server', r) \<Rightarrow> Inr (r, numThreads (threadPool server'), srv_started server'))"

theorem TcpServerTest_SetIoLoopNum_passes: "TcpServerTest_SetIoLoopNum = Inr (Inr (), 4, False)"
  by (simp add: TcpServerTest_SetIoLoopNum_def TcpServer_ctor_def acceptor_run EventLoopThreadPool_ctor_def setIoLoopNum_def)

definition CoroServerTest_ServerStart :: "async_world \<Rightarrow> (unit res \<times> unit res) res" where
  "CoroServerTest_ServerStart W =
     bind_res (snd (AsyncServer_ctor good_kernel (Some 1) 0 (InetAddress_port 9995 False) ''TestServer'' W 0)) (\<lambda>server.
     case AsyncServer_start (\<lambda>i. i) good_kernel 0 server of (server', r) \<Rightarrow> Inr (r, snd (AsyncServer_dtor 0 server')))"

theorem CoroServerTest_ServerStart_passes: "CoroServerTest_ServerStart W = Inr (Inr (), Inr ())"
  by (simp add: CoroServerTest_ServerStart_def AsyncServer_ctor_def TcpServer_ctor_def acceptor_run EventLoopThreadPool_ctor_def AsyncServer_start_def
      on_tcp_def TcpServer_start_def Pool_start_def pool_assertInLoopThread_def listen_in_loop_def Acceptor_listen_def Socket_listen_def sys_check_def
      add_calls_def Let_def AsyncServer_dtor_def TcpServer_dtor_def then_do_def reset_acceptor_def Acceptor_dtor_def isNoneEvent_def
      disableAll_mask_def)

section \<open>CoroSpawnTest.cc\<close>

text \<open>
  The test thread (1) makes \<open>n\<close> tasks that add one to a counter and spawns them on the loop of thread 0;
  sleeping gives the loop its rounds.
\<close>

definition counting_tasks :: "nat \<Rightarrow> nat cstate" where
  "counting_tasks n = \<lparr>frames = (\<lambda>t. if t < n then Some (new_frame 0 TVoid count_body) else None), next_frame = n, cleanups = [], world = 0\<rparr>"

definition SpawnTest :: "nat \<Rightarrow> (nat \<Rightarrow> int + kevent list) list \<Rightarrow> (nat \<times> nat option) res" where
  "SpawnTest n answers =
     bind_res (spawn_each 0 1 [0..<n] (sample_spawn_loop, counting_tasks n)) (\<lambda>x.
     bind_res (spawn_rounds 0 0 answers x) (\<lambda>(ended, l, S). Inr (world S, map_option (\<lambda>_. 0) (frames S 0))))"

lemma counting_runs: "runs_all w (replicate n count_body) None (w + n)"
proof (induction n arbitrary: w)
  case 0
  show ?case using runs_all_Nil [of w] by simp
next
  case (Suc n)
  have "runs None w count_body (Inr VVoid) (Suc w)" by (simp add: count_body_def stmt_def)
  from runs_all_Cons [OF this Suc.IH] show ?case by simp
qed

text \<open>The counter ends at \<open>n\<close> and no frame is left (\<^verbatim>\<open>BasicSpawn\<close>, \<^verbatim>\<open>SpawnFromOtherThread\<close>: 1; \<^verbatim>\<open>CleanShutdown\<close>: 3; \<^verbatim>\<open>MultipleSpawns\<close>: 5).\<close>

theorem SpawnTest_passes: "SpawnTest n ((\<lambda>_. Inr []) # (\<lambda>_. Inr []) # replicate m (\<lambda>_. Inr [])) = Inr (n, None)"
proof -
  have fresh: "heap_fresh (counting_tasks n)" "cleanups (counting_tasks n) = []" "distinct [0..<n]"
    "list_all2 (\<lambda>t p. \<exists>g'. frames (counting_tasks n) t = Some (new_frame g' TVoid p)) [0..<n] (replicate n count_body)"
    "runs_all (world (counting_tasks n)) (replicate n count_body) None n"
    using counting_runs [of 0 n] by (auto simp: counting_tasks_def heap_fresh_def list_all2_conv_all_nth)
  have ans: "\<forall>a \<in> set ((\<lambda>_. Inr []) # (\<lambda>_. Inr []) # replicate m (\<lambda>_. Inr [])). wakeup_answer 1 a" "spawnedTasks sample_spawn_loop \<inter> A = {}" for A
    by (simp_all add: sample_spawn_ready)
  note run = spawned_then_freed [where g = 0, OF sample_spawn_ready(2,1,3) fresh ans]
  have "(if 0 \<in> set [0..<n] then None else frames (counting_tasks n) 0) = None" by (simp add: counting_tasks_def)
  then show ?thesis
    using run unfolding sample_spawn_ready(6) option.case SpawnTest_def by (auto simp: case_prod_unfold)
qed

end
