(* ===== verification/Spec2Isabelle.thy ===== *)
theory Spec2Isabelle
  imports CoroMain CoroDemo EventLoopThread Reactor Registration Races WakeupPipe ServerTests
begin

text \<open>
  Verification of hayai, a TCP server library in the reactor style with a coroutine layer on top
  (C++20, kqueue). This header says what is modelled where, what is shown, and what is left out.

  \<^bold>\<open>The program.\<close> A thread runs an \<^verbatim>\<open>EventLoop\<close>: it polls descriptors, lets the \<^verbatim>\<open>Channel\<close> of each active one call
  its owner back, and runs functors other threads queued. An \<^verbatim>\<open>EventLoopThreadPool\<close> owns worker loops. A
  \<^verbatim>\<open>TcpServer\<close> has an \<^verbatim>\<open>Acceptor\<close> on its own loop, spreads accepted descriptors over the pool as
  \<^verbatim>\<open>TcpConnection\<close> objects and forgets them when they close. A connection buffers input and output in
  \<^verbatim>\<open>Buffer\<close>s and calls its user back. \<^verbatim>\<open>AsyncServer\<close> and \<^verbatim>\<open>AsyncConnection\<close> turn those callbacks into
  awaitable operations of coroutines of type \<^verbatim>\<open>Task\<close>, which \<^verbatim>\<open>spawn\<close> runs on a loop.

  \<^bold>\<open>Theories and sources\<close> (headers under \<^verbatim>\<open>src/include/hayai\<close>, code under \<^verbatim>\<open>src/src\<close>):
  \<^item> \<open>Hayai_Prelude\<close>: faults and results, 64-bit sizes with their wrap-around, bounds-checked memory,
    reachable states and the locale \<open>invariant_machine\<close>, decimal numerals.
  \<^item> \<open>Buffer\<close> (\<^verbatim>\<open>utils/Buffer\<close>): a vector with two indices; every member function. Invariant \<open>buf_inv\<close>, abstraction
    \<open>content\<close>; the exact condition under which an append stays in bounds; the contract \<open>byte_fifo\<close>.
  \<^item> \<open>InetAddress\<close>, \<open>Socket\<close> (\<^verbatim>\<open>net/InetAddress\<close>, \<^verbatim>\<open>net/Socket\<close>): addresses in network byte order; sockets as the system
    calls they make; each descriptor is closed once under moves and destruction.
  \<^item> \<open>Channel\<close>, \<open>Poller\<close> (\<^verbatim>\<open>net/Channel\<close>, \<^verbatim>\<open>net/Poller\<close>): interest masks as 32-bit words and what the kernel queue is told;
    the order of dispatch.
  \<^item> \<open>EventLoop\<close> (\<^verbatim>\<open>net/EventLoop\<close>): every member function, and \<open>loop_step\<close>, the interleaving of the loop thread with
    threads that queue functors and quit; the loop thread itself does so only inside a functor or handler
    it runs (\<open>in_call\<close>). No lost wakeup, functors in order and once, termination after \<^verbatim>\<open>quit\<close>. \<open>WakeupPipe\<close>: the same interleaving with a wakeup pipe of bounded capacity, which refines it and in
    which a loop can wait for itself. \<open>EventLoopThread\<close>, \<open>EventLoopThreadPool\<close>: publication of the worker's loop, destruction, round
    robin; the contract \<open>loop_supply\<close> of what a server takes loops from.
  \<^item> \<open>TcpConnection\<close> (\<^verbatim>\<open>net/TcpConnection\<close>): a record with both buffers and the channel, and a trace of everything it
    does. User callbacks are arbitrary programs over the public operations (\<open>api_fun\<close>), so they may call
    back into the connection. \<open>conn_step\<close> interleaves events, functors and calls; \<open>conn_inv\<close> relates the
    trace to the output buffer and the interest mask. \<^verbatim>\<open>shutdown\<close> and \<^verbatim>\<open>forceClose\<close> test and set \<^verbatim>\<open>state_\<close> without a lock,
    so on other threads the test (\<open>test_state\<close>), the set (\<open>late_set\<close>) and the queueing of the functor are also steps of
    their own, with marks \<open>StateTested\<close> and \<open>LateSet\<close> in the trace. \<open>Registration\<close>: a contract \<open>conn_closed\<close> for relations kept by
    every operation of a connection, interpreted on what the kernel queue has registered for it.
  \<^item> \<open>Acceptor\<close>, \<open>TcpServer\<close> (\<^verbatim>\<open>net/Acceptor.h\<close>, \<^verbatim>\<open>net/Accpetor.cc\<close>, \<^verbatim>\<open>net/TcpServer\<close>): connection objects in a heap, kept
    alive by the server's map, by pending functors, by functors of the running round, which are
    destroyed together when it ends, and by pointers the user's code keeps; every object is shown to be
    a connection of the previous model, with a name of its own, to exist only while it is referenced
    (\<open>ref_ok\<close>), and to be destroyed once and, unless its state was set late, only when disconnected.
  \<^item> \<open>Reactor\<close>: \<^verbatim>\<open>EventLoop::loop\<close> of any loop of a server with the handlers and functors the components install. A
    round of it is a sequence of steps of \<open>TcpServer\<close>'s relation, so the invariants hold of what the
    loops execute; one round answers a client of the echo server.
  \<^item> \<open>Coroutine\<close>, \<open>Task\<close>, \<open>TaskSafety\<close>, \<open>Spawn\<close>, \<open>SpawnLoop\<close> (\<^verbatim>\<open>coro/Task.h\<close>, \<^verbatim>\<open>coro/Awaiter.h\<close>, \<^verbatim>\<open>coro/spawn.h\<close>): bodies as possibly infinite
    trees, coroutine frames in a heap, and a machine that passes control between them. It computes the
    direct-style meaning \<open>runs\<close> of a body and frees what it made; under every use of task objects,
    self-assignment included, each frame has one owner. Spawned coroutines are started by one round
    of \<^verbatim>\<open>EventLoop::loop\<close> and destroyed by the next.
  \<^item> \<open>Mailbox\<close>, \<open>AsyncConnection\<close>, \<open>AsyncServer\<close>, \<open>AsyncLifetime\<close> (\<^verbatim>\<open>coro/AsyncConnection\<close>, \<^verbatim>\<open>coro/AsyncServer\<close>): the contract
    \<open>mailbox\<close> of a callback that delivers and a coroutine that takes, interpreted on both classes; the
    awaitable server as an object, with its destruction in the order of the language.
  \<^item> \<open>Races\<close>: operations that are not atomic in the code, taken apart into the steps another thread may come
    between: \<^verbatim>\<open>send\<close>, \<^verbatim>\<open>shutdown\<close> and \<^verbatim>\<open>forceClose\<close> from another thread, and the move of an \<^verbatim>\<open>AsyncConnection\<close>.
  \<^item> \<open>EchoServer\<close> (\<^verbatim>\<open>examples/echo_server.cc\<close>): its callbacks and \<^verbatim>\<open>main\<close>; a connection of it sends back what it received.
  \<^item> \<open>CoroDemo\<close> (\<^verbatim>\<open>examples/coro_basic_demo.cc\<close>): its coroutines and \<^verbatim>\<open>main\<close>, with the lines they print.
  \<^item> \<open>CoroEcho\<close>, \<open>CoroClients\<close>, \<open>CoroServer\<close>, \<open>CoroMain\<close> (\<^verbatim>\<open>examples/coro_echo_server.cc\<close>): the coroutines \<^verbatim>\<open>handleClient\<close> and \<^verbatim>\<open>runServer\<close> on the
    awaiters above; every mark of an invoked write-complete callback is dispatched to \<^verbatim>\<open>onWriteComplete\<close> of the
    wrapper (\<open>announce\<close>), and there is none; any number of clients under every interleaving of their events, by the contract
    \<open>interleaved\<close> of components that keep out of each other's state; how an accepted connection becomes a
    client; \<^verbatim>\<open>main\<close> with its interrupt and its end.
  \<^item> \<open>UnitTests\<close>, \<open>ServerTests\<close> (\<^verbatim>\<open>tests/\<close>): the unit tests of every component run on the model: the values their
    expectations compare, and the tests that do not end or abort.
  \<^item> this theory: what holds of the components together.

  \<^bold>\<open>Conventions.\<close> Undefined behaviour, failed assertions, aborts and exceptions are values of \<open>fault\<close>. What the
  kernel answers is a parameter, with what its manual documents as a named hypothesis
  (\<open>write_documented\<close>, \<open>readv_documented\<close>, \<open>kqueue_documented\<close>); so are \<^verbatim>\<open>inet_pton\<close> and \<^verbatim>\<open>inet_ntop\<close>. A sequence of
  statements under a mutex is one step of a machine.

  \<^bold>\<open>Bounds and loops.\<close> \<^verbatim>\<open>EventLoop::loop\<close> runs over the list of what successive polls answer and stops when the list
  is used up; \<open>loop_returns_after_quit\<close> shows that it returns. \<open>resume\<close> and the loop of \<^verbatim>\<open>get\<close> are partial
  functions with \<open>None\<close> for a call that does not return; the theorems about them show that they return, or
  speak of every call that does.
  Destroying a frame is bounded by the number of frames ever made, which is more than it owns.

  \<^bold>\<open>What does not hold.\<close> Some theorems state what the code does where that is not what its comments say:
  appends that overflow the storage, write-only interest that is lost, requests to quit or functors
  before \<^verbatim>\<open>loop()\<close> that go unnoticed, a destructor that may wait forever, end-of-file handled before the
  remaining input, awaited sends and receives that are never resumed, so that the coroutine echo server
  answers a client once, callbacks and functors that outlive their object, an awaitable server that cannot be
  destroyed while it has clients, \<^verbatim>\<open>get\<close> going on past a suspended callee, \<^verbatim>\<open>detach\<close> leaking, a message sent from
  another thread that meets a destroyed connection, a \<^verbatim>\<open>shutdown\<close> from another thread that undoes a close, data that arrives while its wrapper is being moved,
  a server that is destroyed with clients on its own loop, a functor that fills the wakeup pipe of its
  loop and so stops it, frames of spawned coroutines that outlive a loop asked to quit, an accept loop
  that an interrupt does not end, and unit tests that do not end or abort.

  \<^bold>\<open>Not modelled.\<close> \<^verbatim>\<open>NonCopyable\<close> (no behaviour), the tests that connect real sockets, real time
  (timeouts are passed through), memory ordering below the mutexes and sequentially consistent atomics,
  and in the coroutine echo server the steps inside one resumption: a resumption of a coroutine up to its
  next suspension is one step, as is each handler of a connection. \<open>Reactor\<close> runs the functors of a server
  and \<open>SpawnLoop\<close> those of \<^verbatim>\<open>spawn\<close>; what a task's value is after \<^verbatim>\<open>await_resume\<close> moved it out (unspecified by the
  language, unchanged in the model); the functors of the awaiters are steps of the theories about them. Apart from
  \<open>WakeupPipe\<close> a write to the wakeup pipe succeeds.
\<close>

section \<open>Components together\<close>

text \<open>Everything shown of a single connection holds of every connection object of every server, in every
  reachable state: it belongs to the thread of its loop; as long as no message was dropped, what it
  wrote followed by what it still buffers is what was sent on it, in order; and its callback for
  completed writes has not been invoked.\<close>

theorem server_connections_keep_their_stream:
  assumes "reachable (server_start T) (server_step T) s" and "srv_conns s c = Some w" and "no_drop (trace w)"
  shows "conn_thread (conn w) = T (conn_loop (conn w))
    \<and> written (trace w) @ content (outputBuffer (conn w)) = sent (trace w)
    \<and> CbWriteComplete \<notin> set (trace w)"
proof -
  have h: "heap_ok T s"
    using server.reachable_inv [OF assms(1)] by (simp add: server_inv_def)
  have "conn_inv w"
    by (rule connection.reachable_inv [OF heap_okD(2) [OF h assms(2)]])
  with heap_okD(3) [OF h assms(2)] assms(3) show ?thesis by (simp add: conn_inv_def)
qed

theorem server_connections_keep_their_stream_witness:
  "\<exists>w. srv_conns sample_serving 0 = Some w \<and> written (trace w) @ content (outputBuffer (conn w)) = sent (trace w)"
proof -
  obtain w where w: "srv_conns sample_serving 0 = Some w" "no_drop (trace w)" using sample_accept(2) by blast
  with server_connections_keep_their_stream [OF sample_serving_reachable w] show ?thesis by blast
qed

text \<open>
  The callbacks for completed writes that a connection made, as its awaitable wrapper \<open>a\<close> sees them.
\<close>

fun write_callbacks :: "nat \<Rightarrow> conn_event list \<Rightarrow> async_world \<Rightarrow> async_world res" where
  "write_callbacks a [] W = Inr W"
| "write_callbacks a (CbWriteComplete # tr) W = bind_res (onWriteComplete a W) (write_callbacks a tr)"
| "write_callbacks a (_ # tr) W = write_callbacks a tr W"

lemma write_callbacks_none: "CbWriteComplete \<notin> set tr \<Longrightarrow> write_callbacks a tr W = Inr W"
  by (induction a tr W rule: write_callbacks.induct) simp_all

text \<open>A coroutine that awaits a send on a connection of a server is never resumed: whatever has happened on the
  connection, in any reachable state of the server, its wrapper still holds the coroutine's handle and
  nothing was queued for it.\<close>

theorem awaited_send_never_resumes:
  assumes "reachable (server_start T) (server_step T) s" and "srv_conns s c = Some w"
    and "send_await_suspend a h data W = Inr W1"
  shows "\<exists>W2 x. write_callbacks a (trace w) W1 = Inr W2 \<and> acs W2 a = Some x \<and> sendCoroutine x = Some h
    \<and> resumes W2 = resumes W"
proof -
  have "heap_ok T s"
    using server.reachable_inv [OF assms(1)] by (simp add: server_inv_def)
  then have "conn_inv w"
    using connection.reachable_inv heap_okD(2) assms(2) by blast
  then have "write_callbacks a (trace w) W1 = Inr W1"
    by (simp add: conn_inv_def write_callbacks_none)
  with assms(3) show ?thesis
    by (auto simp: send_await_suspend_def with_ac_def put_ac_def split: option.splits)
qed

theorem awaited_send_never_resumes_witness:
  "\<exists>w W1 W2 x. srv_conns sample_serving 0 = Some w \<and> send_await_suspend 0 5 ''hello'' sample_async = Inr W1
     \<and> write_callbacks 0 (trace w) W1 = Inr W2 \<and> acs W2 0 = Some x \<and> sendCoroutine x = Some 5"
proof -
  obtain w where w: "srv_conns sample_serving 0 = Some w" using sample_accept(2) by blast
  obtain W1 where W1: "send_await_suspend 0 5 ''hello'' sample_async = Inr W1"
    by (auto simp: send_await_suspend_def with_ac_def sample_async_fields)
  from awaited_send_never_resumes [OF sample_serving_reachable w W1] w W1 show ?thesis by blast
qed

text \<open>C33. From the kernel to the callbacks: when the kernel reports a readable descriptor whose peer has closed, the
  connection is closed, with both callbacks, before the descriptor is read; bytes still unread are then
  delivered to the message callback of the closed connection, and if there are none the close is
  carried out a second time.\<close>

theorem eof_report_closes_before_reading:
  assumes "kev_filter ev = EVFILT_READ" and "EV_EOF ev" and "\<not> EV_ERROR ev" and "conn_in_loop me w"
    and "tied (conn_chan (conn w))" and "tie_obj (conn_chan (conn w)) = Some obj" and "alive obj"
    and "readFd readv (inputBuffer (conn w)) 0 = Inr (n, e, b)" and "0 \<le> n"
  shows "\<exists>w'. handle_event silent_cbs wr readv alive me (event_revents ev) w = Inr w' \<and> conn_state (conn w') = Disconnected
    \<and> trace w' = trace w @ [Interest False False, ChanDisabled, CbConnection Disconnected, CbClose]
        @ (if n = 0 then [Interest False False, ChanDisabled, CbConnection Disconnected, CbClose] else [CbMessage])"
proof -
  have "event_revents ev = kReadEvent OR kCloseEvent"
    using assms(1-3) by (simp add: event_revents_def)
  with eof_event_order [where alive = alive and wr = wr, OF assms(4-9)] show ?thesis by simp
qed

theorem eof_report_closes_before_reading_witness:
  "\<exists>w'. handle_event silent_cbs take_all (\<lambda>_. Inr []) (\<lambda>_. True) 7
       (event_revents \<lparr>kev_filter = EVFILT_READ, EV_EOF = True, EV_ERROR = False, kev_udata = 0\<rparr>) sample_established = Inr w'
     \<and> conn_state (conn w') = Disconnected"
proof -
  have "readFd (\<lambda>_. Inr []) (inputBuffer (conn sample_established)) 0 = Inr (0, 0, Buffer_default)"
    by (simp add: sample_fields readFd_def vec_write_def size_add_def Buffer_default_fields kCheapPrepend_def)
  from eof_report_closes_before_reading [of "\<lparr>kev_filter = EVFILT_READ, EV_EOF = True, EV_ERROR = False, kev_udata = 0\<rparr>"
      7 sample_established 3 "\<lambda>_. True" "\<lambda>_. Inr []" 0 0 Buffer_default take_all, OF _ _ _ _ _ _ _ this]
  show ?thesis
    by (auto simp: sample_fields conn_in_loop_def)
qed

end
